(* ===== verification/Ws_Prelude.thy ===== *)
theory Ws_Prelude
  imports Main "HOL-Library.Word" "HOL-Library.Char_ord"
begin

text \<open>
  What the components share: the machine types of the sources under their C names, the ways
  in which an execution can go wrong, the sequencing of fallible operations, reads through a
  C pointer, the conversion between a byte buffer and a \<^verbatim>\<open>std::string\<close>, and the lemma
  collections of the development.
\<close>

unbundle bit_operations_syntax

section \<open>Machine types\<close>

type_synonym byte = "8 word"
type_synonym u16 = "16 word"
type_synonym u32 = "32 word"
type_synonym u64 = "64 word"
type_synonym bytes = "byte list"

named_theorems buf_simps \<open>functional behaviour of the byte buffer under its invariant\<close>
named_theorems pkt_simps \<open>functional behaviour of the packet operations\<close>
named_theorems fault_simps \<open>sequencing of operations that may fail\<close>

text \<open>
  The conversion of a value to \<^verbatim>\<open>int\<close> (32 bit, two's complement, wrapping), as in
  \<^verbatim>\<open>(int)data.size()\<close> or in passing a \<^verbatim>\<open>uint64_t\<close> to a parameter of type \<^verbatim>\<open>int\<close>.
\<close>

definition to_int32 :: "int \<Rightarrow> int" where
  "to_int32 n = signed_take_bit 31 n"

lemma to_int32_id [simp]: "- (2 ^ 31) \<le> n \<Longrightarrow> n < 2 ^ 31 \<Longrightarrow> to_int32 n = n"
  by (simp add: to_int32_def signed_take_bit_int_eq_self)

lemma to_int32_of_nat [simp]: "n < 2 ^ 31 \<Longrightarrow> to_int32 (int n) = int n"
  by (simp add: to_int32_def signed_take_bit_int_eq_self)

text \<open>
  Equations between words of fixed width are decided bit by bit: \<open>simp add: word_bits\<close> turns
  an equation of bytes or of 32-bit words into one equation per bit.
\<close>

lemma word_eq_bits_iff: "(a :: 'a::len word) = b \<longleftrightarrow> (\<forall>n < LENGTH('a). bit a n = bit b n)"
  by (auto intro: bit_word_eqI)

lemma all_less_8: "(\<forall>n < 8. P n) \<longleftrightarrow> P 0 \<and> P 1 \<and> P 2 \<and> P 3 \<and> P 4 \<and> P 5 \<and> P 6 \<and> P (7 :: nat)"
  by (simp add: eval_nat_numeral All_less_Suc) blast

lemma all_less_16: "(\<forall>n < 16. P n) \<longleftrightarrow> (\<forall>n < 8. P n) \<and> (\<forall>n < 8. P (n + 8 :: nat))"
  by (simp add: eval_nat_numeral All_less_Suc) blast

lemma all_less_32: "(\<forall>n < 32. P n) \<longleftrightarrow>
    (\<forall>n < 8. P n) \<and> (\<forall>n < 8. P (n + 8)) \<and> (\<forall>n < 8. P (n + 16)) \<and> (\<forall>n < 8. P (n + 24 :: nat))"
  by (simp add: eval_nat_numeral All_less_Suc) blast

lemma bit_byte_beyond: "8 \<le> n \<Longrightarrow> \<not> bit (a :: byte) n"
  by (auto dest: bit_imp_le_length)

lemma bit_u32_beyond: "32 \<le> n \<Longrightarrow> \<not> bit (a :: u32) n"
  by (auto dest: bit_imp_le_length)

lemmas word_bits =
  word_eq_bits_iff all_less_8 all_less_16 all_less_32 bit_byte_beyond bit_u32_beyond bit_simps

lemma unat_ucast_byte [simp]: "unat (ucast (v :: byte) :: u32) = unat v"
proof -
  have "unat v < 2 ^ 8"
    using unsigned_less [of v, where ?'a = nat] by simp
  then show ?thesis
    by (simp add: unsigned_ucast_eq take_bit_nat_eq_self_iff)
qed

section \<open>Faults and sequencing\<close>

text \<open>
  The executions that do not return a value. \<open>Out_of_range\<close> and \<open>Length_error\<close> are the C++
  exceptions of \<^verbatim>\<open>vector::at\<close> and \<^verbatim>\<open>vector::insert\<close>, which nothing in the sources
  catches; \<open>Null_deref\<close>, \<open>Bad_read\<close> and \<open>Deref_end\<close> are reads outside an object;
  \<open>Exit_failure\<close> is the \<^verbatim>\<open>exit(EXIT_FAILURE)\<close> of \<^verbatim>\<open>fail()\<close> and \<open>Assert_failed\<close> the
  \<^verbatim>\<open>abort()\<close> of \<^verbatim>\<open>assert\<close>; \<open>Use_after_free\<close> is an access to an object that has been freed
  and \<open>Bad_free\<close> a \<^verbatim>\<open>free\<close> of a pointer that is not allocated; \<open>Diverges\<close> is a loop that
  does not end.
\<close>

datatype fault =
    Out_of_range
  | Length_error
  | Null_deref
  | Bad_read
  | Deref_end
  | Exit_failure
  | Assert_failed
  | Use_after_free
  | Bad_free
  | Diverges

definition bindE :: "'e + 'a \<Rightarrow> ('a \<Rightarrow> 'e + 'b) \<Rightarrow> 'e + 'b" where
  "bindE m f = (case m of Inl e \<Rightarrow> Inl e | Inr x \<Rightarrow> f x)"

lemma bindE_Inl [simp, fault_simps]: "bindE (Inl e) f = Inl e"
  by (simp add: bindE_def)

lemma bindE_Inr [simp, fault_simps]: "bindE (Inr x) f = f x"
  by (simp add: bindE_def)

lemma bindE_eq_Inr_iff [fault_simps]:
  "bindE m f = Inr y \<longleftrightarrow> (\<exists>x. m = Inr x \<and> f x = Inr y)"
  by (cases m) auto

lemma bindE_assoc: "bindE (bindE m f) g = bindE m (\<lambda>x. bindE (f x) g)"
  by (cases m) auto

lemma bindE_cong [fundef_cong]:
  "m = m' \<Longrightarrow> (\<And>x. m' = Inr x \<Longrightarrow> f x = f' x) \<Longrightarrow> bindE m f = bindE m' f'"
  by (cases m') auto

section \<open>Reads through a C pointer\<close>

text \<open>
  A \<^verbatim>\<open>char *\<close> that the sources pass around is the null pointer (\<open>None\<close>) or points to the
  first of the bytes that may be read through it. \<open>mem_read p n\<close> is what \<^verbatim>\<open>memcpy\<close> from
  \<open>p\<close>, or inserting the range \<^verbatim>\<open>[p, p + n)\<close> into a vector, reads.
\<close>

type_synonym ptr = "bytes option"

definition mem_read :: "ptr \<Rightarrow> nat \<Rightarrow> fault + bytes" where
  "mem_read p n =
     (case p of
        None \<Rightarrow> (if n = 0 then Inr [] else Inl Null_deref)
      | Some bs \<Rightarrow> (if n \<le> length bs then Inr (take n bs) else Inl Bad_read))"

lemma mem_read_Some [simp]: "n \<le> length bs \<Longrightarrow> mem_read (Some bs) n = Inr (take n bs)"
  by (simp add: mem_read_def)

lemma mem_read_zero [simp]: "mem_read p 0 = Inr []"
  by (cases p) (auto simp: mem_read_def)

section \<open>Bytes and std::string\<close>

text \<open>
  A \<^verbatim>\<open>std::string\<close> is a HOL \<open>string\<close>, whose characters are the 256 byte values, so the
  conversion from and to a byte buffer loses nothing.
\<close>

definition str_of_bytes :: "bytes \<Rightarrow> string" where
  "str_of_bytes bs = map (\<lambda>b. char_of (unat b)) bs"

definition bytes_of_str :: "string \<Rightarrow> bytes" where
  "bytes_of_str s = map (\<lambda>c. word_of_nat (of_char c)) s"

lemma bytes_of_str_of_bytes [simp]: "bytes_of_str (str_of_bytes bs) = bs"
proof -
  have "word_of_nat (of_char (char_of (unat b) :: char)) = b" for b :: byte
    using unsigned_less [of b, where ?'a = nat]
    by (simp add: of_char_mod_256 take_bit_eq_mod)
  then show ?thesis
    by (simp add: bytes_of_str_def str_of_bytes_def comp_def map_idI)
qed

lemma str_of_bytes_of_str [simp]: "str_of_bytes (bytes_of_str s) = s"
proof -
  have "char_of (unat (word_of_nat (of_char c) :: byte)) = c" for c :: char
    by (simp add: unat_of_nat)
  then show ?thesis
    by (simp add: bytes_of_str_def str_of_bytes_def comp_def map_idI)
qed

lemma length_str_of_bytes [simp]: "length (str_of_bytes bs) = length bs"
  by (simp add: str_of_bytes_def)

lemma length_bytes_of_str [simp]: "length (bytes_of_str s) = length s"
  by (simp add: bytes_of_str_def)

lemma str_of_bytes_append [simp]: "str_of_bytes (xs @ ys) = str_of_bytes xs @ str_of_bytes ys"
  by (simp add: str_of_bytes_def)

lemma bytes_of_str_append [simp]: "bytes_of_str (s @ t) = bytes_of_str s @ bytes_of_str t"
  by (simp add: bytes_of_str_def)

text \<open>What a reader of a NUL-terminated \<^verbatim>\<open>char *\<close> sees.\<close>

definition c_str :: "string \<Rightarrow> string" where
  "c_str s = takeWhile (\<lambda>c. c \<noteq> CHR 0x00) s"

lemma c_str_terminated [simp]: "CHR 0x00 \<notin> set s \<Longrightarrow> c_str (s @ CHR 0x00 # t) = s"
  unfolding c_str_def by (subst takeWhile_append2) auto

section \<open>Codecs\<close>

text \<open>
  The contract of an encoder and its decoder on the values an encoder accepts. The base64
  routines and the data frames of the packet class both provide it.
\<close>

locale codec =
  fixes encodable :: "'a \<Rightarrow> bool"
    and enc :: "'a \<Rightarrow> 'b"
    and dec :: "'b \<Rightarrow> 'e + 'a"
  assumes dec_enc: "encodable x \<Longrightarrow> dec (enc x) = Inr x"
begin

lemma enc_inj: "encodable x \<Longrightarrow> encodable y \<Longrightarrow> enc x = enc y \<Longrightarrow> x = y"
  using dec_enc by (metis sum.inject(2))

lemma enc_inj_on: "inj_on enc {x. encodable x}"
  by (rule inj_onI) (auto intro: enc_inj)

lemma dec_rejects_not_enc: "dec y = Inl e \<Longrightarrow> encodable x \<Longrightarrow> enc x \<noteq> y"
  using dec_enc by force

end

section \<open>Digests\<close>

text \<open>
  What a client relies on in a hash routine that works in memory it does not initialise: the
  digest has a fixed size and does not depend on what was in that memory.
\<close>

locale digest =
  fixes valid :: "'m \<Rightarrow> bool"
    and hash :: "'m \<Rightarrow> bytes \<Rightarrow> bytes"
    and digest_size :: nat
  assumes length_hash: "valid mem \<Longrightarrow> length (hash mem msg) = digest_size"
    and hash_deterministic: "valid mem \<Longrightarrow> valid mem' \<Longrightarrow> hash mem msg = hash mem' msg"

end
