(* ===== verification/Byte_Buffer.thy ===== *)
theory Byte_Buffer
  imports Ws_Prelude
begin

text \<open>
  Class \<^verbatim>\<open>ByteBuffer\<close> (src/src/ws_packet.h, src/src/ws_packet.cpp): a vector of bytes with a
  read offset. The methods keep the C++ names, with the suffix \<open>_bb\<close> where HOL has a constant
  of that name. The lengths and offsets have the widths of the class: \<^verbatim>\<open>length()\<close> is an
  \<^verbatim>\<open>int\<close>, \<^verbatim>\<open>oft\<close> a \<^verbatim>\<open>uint32_t\<close>, and comparisons convert as C++ does.
  Then come the invariant, the behaviour of each method under it, and the interface
  \<open>byte_source\<close> through which the packet class reads a buffer.
\<close>

unbundle bit_operations_syntax

section \<open>State and methods\<close>

record ByteBuffer =
  data :: bytes
  oft :: u32

definition ByteBuffer_new :: ByteBuffer where
  "ByteBuffer_new = \<lparr>data = [], oft = 0\<rparr>"

definition length_bb :: "ByteBuffer \<Rightarrow> int" where
  "length_bb b = to_int32 (int (length (data b)))"

text \<open>
  \<^verbatim>\<open>require <= len - oft\<close>: \<^verbatim>\<open>len\<close> and \<^verbatim>\<open>require\<close> are converted to the unsigned type of
  \<^verbatim>\<open>oft\<close>, so the subtraction wraps and a negative size counts as a very large one.
\<close>

definition require :: "ByteBuffer \<Rightarrow> int \<Rightarrow> bool" where
  "require b sz =
     (let len = length_bb b in (word_of_int sz :: u32) \<le> word_of_int len - oft b)"

text \<open>\<^verbatim>\<open>data.at(oft)\<close> throws when \<^verbatim>\<open>oft\<close> is not the index of an element.\<close>

definition data_at_oft :: "ByteBuffer \<Rightarrow> fault + bytes" where
  "data_at_oft b =
     (if unat (oft b) < length (data b) then Inr (drop (unat (oft b)) (data b))
      else Inl Out_of_range)"

definition curat :: "ByteBuffer \<Rightarrow> fault + ptr" where
  "curat b =
     (if length_bb b = 0 then Inr None
      else bindE (data_at_oft b) (\<lambda>bs. Inr (Some bs)))"

definition getoft :: "ByteBuffer \<Rightarrow> int" where
  "getoft b = to_int32 (int (unat (oft b)))"

definition skip_x :: "ByteBuffer \<Rightarrow> int \<Rightarrow> bool \<times> ByteBuffer" where
  "skip_x b sz =
     (if require b sz then (True, b\<lparr>oft := oft b + word_of_int sz\<rparr>) else (False, b))"

text \<open>
  \<^verbatim>\<open>read_bytes_x(cb, size)\<close> returns whether it read; the bytes it copies to \<^verbatim>\<open>cb\<close> are part
  of the result, and \<open>None\<close> stands for \<^verbatim>\<open>false\<close> with \<^verbatim>\<open>cb\<close> not written.
\<close>

definition read_bytes_x :: "ByteBuffer \<Rightarrow> int \<Rightarrow> fault + (bytes option \<times> ByteBuffer)" where
  "read_bytes_x b sz =
     (if require b sz then
        bindE (data_at_oft b) (\<lambda>src.
        bindE (if sz < 0 then Inl Bad_read else mem_read (Some src) (nat sz)) (\<lambda>bs.
        Inr (Some bs, b\<lparr>oft := oft b + word_of_int sz\<rparr>)))
      else Inr (None, b))"

text \<open>A call that ignores the result: the destination keeps its bytes when nothing was read.\<close>

definition read_over :: "bytes \<Rightarrow> ByteBuffer \<Rightarrow> fault + (bytes \<times> ByteBuffer)" where
  "read_over dst b =
     bindE (read_bytes_x b (int (length dst))) (\<lambda>(r, b').
     Inr (case r of None \<Rightarrow> dst | Some bs \<Rightarrow> bs, b'))"

definition resetoft :: "ByteBuffer \<Rightarrow> ByteBuffer" where
  "resetoft b = b\<lparr>oft := 0\<rparr>"

definition bytes_bb :: "ByteBuffer \<Rightarrow> ptr" where
  "bytes_bb b = (if length_bb b = 0 then None else Some (data b))"

text \<open>\<^verbatim>\<open>erase\<close> removes from the front and leaves the offset as it is.\<close>

definition erase_bb :: "ByteBuffer \<Rightarrow> int \<Rightarrow> ByteBuffer" where
  "erase_bb b sz =
     (if sz \<le> 0 then b
      else if sz \<ge> length_bb b then b\<lparr>data := []\<rparr>
      else b\<lparr>data := drop (nat sz) (data b)\<rparr>)"

text \<open>
  \<^verbatim>\<open>data.insert(data.end(), bytes, bytes + size)\<close>: a negative range is a
  \<^verbatim>\<open>length_error\<close>; otherwise \<^verbatim>\<open>size\<close> bytes are read through the pointer.
\<close>

definition append_bb :: "ByteBuffer \<Rightarrow> ptr \<Rightarrow> int \<Rightarrow> fault + ByteBuffer" where
  "append_bb b p sz =
     (if sz < 0 then Inl Length_error
      else bindE (mem_read p (nat sz)) (\<lambda>bs. Inr (b\<lparr>data := data b @ bs\<rparr>)))"

section \<open>Invariant\<close>

text \<open>
  A buffer that \<^verbatim>\<open>int\<close> can measure, with the offset inside it or at its end. What is still
  to be read is \<open>unread\<close>.
\<close>

definition wf_buf :: "ByteBuffer \<Rightarrow> bool" where
  "wf_buf b \<longleftrightarrow> length (data b) < 2 ^ 31 \<and> unat (oft b) \<le> length (data b)"

definition unread :: "ByteBuffer \<Rightarrow> bytes" where
  "unread b = drop (unat (oft b)) (data b)"

definition buf_of :: "bytes \<Rightarrow> ByteBuffer" where
  "buf_of bs = \<lparr>data = bs, oft = 0\<rparr>"

lemma wf_bufD:
  "wf_buf b \<Longrightarrow> length (data b) < 2147483648"
  "wf_buf b \<Longrightarrow> unat (oft b) \<le> length (data b)"
  by (simp_all add: wf_buf_def)

lemma data_buf_of [simp]: "data (buf_of bs) = bs"
  and oft_buf_of [simp]: "oft (buf_of bs) = 0"
  by (simp_all add: buf_of_def)

lemma unread_buf_of [simp]: "unread (buf_of bs) = bs"
  by (simp add: unread_def)

lemma wf_buf_of [simp]: "wf_buf (buf_of bs) \<longleftrightarrow> length bs < 2 ^ 31"
  by (simp add: wf_buf_def)

lemma buf_of_eq: "oft b = 0 \<Longrightarrow> b = buf_of (data b)"
  by (simp add: buf_of_def)

lemma ByteBuffer_new_buf_of: "ByteBuffer_new = buf_of []"
  by (simp add: ByteBuffer_new_def buf_of_def)

lemma length_bb_wf [buf_simps]: "length (data b) < 2 ^ 31 \<Longrightarrow> length_bb b = int (length (data b))"
  by (simp add: length_bb_def)

lemma length_unread: "wf_buf b \<Longrightarrow> length (unread b) = length (data b) - unat (oft b)"
  by (simp add: unread_def)

lemma unat_diff_oft:
  assumes "wf_buf b"
  shows "unat (word_of_nat (length (data b)) - oft b) = length (unread b)"
proof -
  have len: "unat (word_of_nat (length (data b)) :: u32) = length (data b)"
    using wf_bufD(1) [OF assms] by (simp add: unat_of_nat)
  then have "oft b \<le> word_of_nat (length (data b))"
    using wf_bufD(2) [OF assms] by (simp add: word_le_nat_alt)
  then show ?thesis
    by (simp add: unat_sub len unread_def)
qed

lemma require_iff [buf_simps]:
  assumes "wf_buf b" and "0 \<le> sz" and "sz < 2 ^ 31"
  shows "require b sz \<longleftrightarrow> nat sz \<le> length (unread b)"
proof -
  have "unat (word_of_int sz :: u32) = nat sz"
    using assms(2,3) by (simp add: unat_eq_nat_uint uint_word_of_int)
  then show ?thesis
    using assms(1) by (simp add: require_def length_bb_wf wf_bufD word_le_nat_alt unat_diff_oft)
qed

lemma oft_plus:
  assumes "wf_buf b" and "n \<le> length (unread b)"
  shows "unat (oft b + word_of_nat n) = unat (oft b) + n"
proof -
  have "unat (oft b) + n < 2 ^ 32"
    using assms wf_bufD [OF assms(1)] by (simp add: unread_def)
  moreover from this have "unat (word_of_nat n :: u32) = n"
    by (simp add: unat_of_nat)
  ultimately show ?thesis
    by (simp add: unat_word_ariths)
qed

text \<open>The state after \<open>n\<close> of the unread bytes have been passed.\<close>

definition advance :: "nat \<Rightarrow> ByteBuffer \<Rightarrow> ByteBuffer" where
  "advance n b = b\<lparr>oft := oft b + word_of_nat n\<rparr>"

lemma data_advance [simp]: "data (advance n b) = data b"
  by (simp add: advance_def)

lemma advance_0 [simp]: "advance 0 b = b"
  by (simp add: advance_def)

lemma advance_advance [simp]: "advance m (advance n b) = advance (n + m) b"
  by (simp add: advance_def add.assoc)

lemma unat_oft_advance [buf_simps]:
  "wf_buf b \<Longrightarrow> n \<le> length (unread b) \<Longrightarrow> unat (oft (advance n b)) = unat (oft b) + n"
  by (simp add: advance_def oft_plus)

lemma uint_oft_advance [buf_simps]:
  "wf_buf b \<Longrightarrow> n \<le> length (unread b) \<Longrightarrow> uint (oft (advance n b)) = uint (oft b) + int n"
  by (metis of_nat_add uint_nat unat_oft_advance)

lemma wf_advance [buf_simps]:
  assumes "wf_buf b" and "n \<le> length (unread b)"
  shows "wf_buf (advance n b)"
proof -
  have "unat (oft (advance n b)) \<le> length (data (advance n b))"
    using assms wf_bufD(2) [OF assms(1)] by (simp add: unat_oft_advance length_unread)
  then show ?thesis
    using wf_bufD(1) [OF assms(1)] by (simp add: wf_buf_def)
qed

lemma unread_advance [buf_simps]:
  "wf_buf b \<Longrightarrow> n \<le> length (unread b) \<Longrightarrow> unread (advance n b) = drop n (unread b)"
  by (subst (1 2) unread_def) (simp add: unat_oft_advance add.commute)

section \<open>Behaviour of the methods under the invariant\<close>

lemma getoft_wf [buf_simps]:
  assumes "wf_buf b"
  shows "getoft b = uint (oft b)"
proof -
  have "unat (oft b) < 2 ^ 31"
    using wf_bufD [OF assms] by simp
  then have "to_int32 (int (unat (oft b))) = int (unat (oft b))"
    by (rule to_int32_of_nat)
  then show ?thesis
    by (simp add: getoft_def)
qed

lemma skip_x_wf [buf_simps]:
  assumes "wf_buf b" and "0 \<le> sz" and "sz < 2 ^ 31"
  shows "skip_x b sz =
    (if nat sz \<le> length (unread b) then (True, advance (nat sz) b) else (False, b))"
  using assms by (simp add: skip_x_def require_iff advance_def)

lemma data_at_oft_wf:
  assumes "wf_buf b"
  shows "data_at_oft b = (if unread b = [] then Inl Out_of_range else Inr (unread b))"
  by (simp add: data_at_oft_def unread_def)

text \<open>
  A read succeeds when enough bytes are unread, and otherwise leaves the buffer alone. The one
  case that throws is a read of no bytes at the end of the data.
\<close>

lemma read_bytes_x_wf [buf_simps]:
  assumes "wf_buf b" and "0 < n" and "n < 2 ^ 31"
  shows "read_bytes_x b (int n) =
    Inr (if n \<le> length (unread b) then (Some (take n (unread b)), advance n b) else (None, b))"
proof (cases "n \<le> length (unread b)")
  case True
  with assms(2) have "unread b \<noteq> []" by auto
  with True assms show ?thesis
    by (simp add: read_bytes_x_def require_iff data_at_oft_wf advance_def)
next
  case False
  with assms show ?thesis by (simp add: read_bytes_x_def require_iff)
qed

lemma read_over_wf [buf_simps]:
  assumes "wf_buf b" and "0 < length dst" and "length dst < 2 ^ 31"
  shows "read_over dst b =
    Inr (if length dst \<le> length (unread b)
         then (take (length dst) (unread b), advance (length dst) b) else (dst, b))"
  using assms by (simp add: read_over_def read_bytes_x_wf)

text \<open>
  The pointer to the current position: null for an empty buffer, and an exception, not a
  pointer past the end, when everything has been read.
\<close>

lemma curat_wf [buf_simps]:
  assumes "wf_buf b"
  shows "curat b =
    (if data b = [] then Inr None
     else if unread b = [] then Inl Out_of_range else Inr (Some (unread b)))"
  using assms by (simp add: curat_def length_bb_wf wf_bufD data_at_oft_wf)

lemma bytes_bb_wf [buf_simps]:
  "length (data b) < 2 ^ 31 \<Longrightarrow> bytes_bb b = (if data b = [] then None else Some (data b))"
  by (simp add: bytes_bb_def length_bb_wf)

lemma erase_bb_wf [buf_simps]:
  assumes "length (data b) < 2 ^ 31"
  shows "erase_bb b sz = b\<lparr>data := drop (nat sz) (data b)\<rparr>"
  using assms by (cases b) (simp add: erase_bb_def length_bb_wf)

lemma erase_bb_negative: "sz \<le> 0 \<Longrightarrow> erase_bb b sz = b"
  by (simp add: erase_bb_def)

lemma resetoft_erase [buf_simps]:
  "length (data b) < 2 ^ 31 \<Longrightarrow> resetoft (erase_bb b sz) = buf_of (drop (nat sz) (data b))"
  by (simp add: erase_bb_wf resetoft_def buf_of_def)

lemma append_bb_Some [buf_simps]:
  "0 \<le> sz \<Longrightarrow> nat sz \<le> length bs \<Longrightarrow>
   append_bb b (Some bs) sz = Inr (b\<lparr>data := data b @ take (nat sz) bs\<rparr>)"
  by (simp add: append_bb_def)

lemma append_bb_zero [buf_simps]: "append_bb b p 0 = Inr b"
  by (simp add: append_bb_def)

text \<open>Copying a whole buffer, \<^verbatim>\<open>dst.append(src.bytes(), src.length())\<close>.\<close>

lemma append_whole [buf_simps]:
  assumes "length (data src) < 2 ^ 31"
  shows "append_bb dst (bytes_bb src) (length_bb src) = Inr (dst\<lparr>data := data dst @ data src\<rparr>)"
  using assms by (cases "data src = []") (simp_all add: bytes_bb_wf length_bb_wf append_bb_def)

section \<open>The buffer as a source of bytes\<close>

text \<open>
  What the packet class relies on when it takes bytes from a buffer: reading \<open>n\<close> bytes returns
  the next \<open>n\<close> bytes of the content and removes them when so many are left, and reports
  failure without an effect when they are not.
\<close>

locale byte_source =
  fixes content :: "'s \<Rightarrow> bytes"
    and inv :: "'s \<Rightarrow> bool"
    and rd :: "'s \<Rightarrow> int \<Rightarrow> 'e + (bytes option \<times> 's)"
    and passed :: "nat \<Rightarrow> 's \<Rightarrow> 's"
  assumes rd_enough: "inv s \<Longrightarrow> 0 < n \<Longrightarrow> n \<le> length (content s) \<Longrightarrow> n < 2 ^ 31 \<Longrightarrow>
      rd s (int n) = Inr (Some (take n (content s)), passed n s)"
    and rd_short: "inv s \<Longrightarrow> 0 < n \<Longrightarrow> length (content s) < n \<Longrightarrow> n < 2 ^ 31 \<Longrightarrow>
      rd s (int n) = Inr (None, s)"
    and content_passed: "inv s \<Longrightarrow> n \<le> length (content s) \<Longrightarrow>
      content (passed n s) = drop n (content s)"
    and inv_passed: "inv s \<Longrightarrow> n \<le> length (content s) \<Longrightarrow> inv (passed n s)"
    and passed_passed: "passed m (passed n s) = passed (n + m) s"
    and passed_0: "passed 0 s = s"
begin

lemma rd_one:
  "inv s \<Longrightarrow> content s = x # xs \<Longrightarrow> rd s 1 = Inr (Some [x], passed 1 s)"
  using rd_enough [of s 1] by simp

lemma rd_empty: "inv s \<Longrightarrow> content s = [] \<Longrightarrow> rd s 1 = Inr (None, s)"
  using rd_short [of s 1] by simp

lemma content_passed_Cons:
  "inv s \<Longrightarrow> content s = x # xs \<Longrightarrow> content (passed 1 s) = xs \<and> inv (passed 1 s)"
  using content_passed [of s 1] inv_passed [of s 1] by simp

text \<open>Two reads that both fit are one read of the sum.\<close>

lemma rd_rd:
  assumes "inv s" and "0 < m" and "0 < n" and "m + n \<le> length (content s)" and "m + n < 2 ^ 31"
  shows "rd (passed m s) (int n) = Inr (Some (take n (drop m (content s))), passed (m + n) s)"
  using assms by (simp add: rd_enough content_passed inv_passed passed_passed)

end

interpretation bb: byte_source unread wf_buf read_bytes_x advance
  by unfold_locales (simp_all add: buf_simps)

lemmas bb_read_one = bb.rd_one
lemmas bb_pass_one = bb.content_passed_Cons

section \<open>Properties\<close>

text \<open>On a buffer whose offset is inside its data, \<^verbatim>\<open>read_bytes_x\<close> of a positive size
  copies the next bytes and moves past them when that many are left, keeping the offset inside
  the data; otherwise it returns false, copies nothing and leaves the buffer as it was.\<close>

theorem read_bytes_x_takes_next:
  assumes "wf_buf b" and "0 < n" and "n < 2 ^ 31"
  shows "if n \<le> length (unread b)
    then \<exists>b'. read_bytes_x b (int n) = Inr (Some (take n (unread b)), b') \<and> wf_buf b' \<and>
      data b' = data b \<and> unread b' = drop n (unread b)
    else read_bytes_x b (int n) = Inr (None, b)"
  using assms by (simp add: buf_simps)

theorem read_bytes_x_takes_next_witness:
  "\<exists>b'. read_bytes_x (buf_of [1, 2, 3]) (int 2) = Inr (Some (take 2 (unread (buf_of [1, 2, 3]))), b') \<and>
    wf_buf b' \<and> data b' = data (buf_of [1, 2, 3]) \<and> unread b' = drop 2 (unread (buf_of [1, 2, 3]))"
  using read_bytes_x_takes_next [of "buf_of [1, 2, 3]" 2] by simp

end
