(* ===== verification/Str_Helper.thy ===== *)
theory Str_Helper
  imports Ws_Prelude "HOL-Library.Sublist"
begin

text \<open>
  The searches of \<^verbatim>\<open>std::string\<close> that the sources call, and class \<^verbatim>\<open>strHelper\<close>
  (src/src/string_helper.h, src/src/string_helper.inl, src/src/string_helper.cpp):
  \<^verbatim>\<open>splitStr\<close> and \<^verbatim>\<open>trim\<close>, with what they compute. A position is a natural number and
  \<^verbatim>\<open>npos\<close> is \<open>None\<close>. The number of pieces, an \<^verbatim>\<open>int\<close> in the sources, is a natural number too, and is
  theirs for up to 2^31 - 1 pieces.
\<close>

section \<open>Searches of std::string\<close>

fun find_from :: "string \<Rightarrow> string \<Rightarrow> nat \<Rightarrow> nat option" where
  "find_from pat [] i = (if pat = [] then Some i else None)"
| "find_from pat (c # cs) i =
     (if take (length pat) (c # cs) = pat then Some i else find_from pat cs (Suc i))"

definition str_find :: "string \<Rightarrow> string \<Rightarrow> nat \<Rightarrow> nat option" where
  "str_find s pat pos = (if pos \<le> length s then find_from pat (drop pos s) pos else None)"

fun find_index :: "(char \<Rightarrow> bool) \<Rightarrow> string \<Rightarrow> nat \<Rightarrow> nat option" where
  "find_index P [] i = None"
| "find_index P (c # cs) i = (if P c then Some i else find_index P cs (Suc i))"

definition find_first_of :: "string \<Rightarrow> char \<Rightarrow> nat option" where
  "find_first_of s c = find_index (\<lambda>x. x = c) s 0"

definition find_first_not_of :: "string \<Rightarrow> char \<Rightarrow> nat option" where
  "find_first_not_of s c = find_index (\<lambda>x. x \<noteq> c) s 0"

definition find_last :: "(char \<Rightarrow> bool) \<Rightarrow> string \<Rightarrow> nat option" where
  "find_last P s = map_option (\<lambda>i. length s - 1 - i) (find_index P (rev s) 0)"

definition find_last_of :: "string \<Rightarrow> char \<Rightarrow> nat option" where
  "find_last_of s c = find_last (\<lambda>x. x = c) s"

definition find_last_not_of :: "string \<Rightarrow> char \<Rightarrow> nat option" where
  "find_last_not_of s c = find_last (\<lambda>x. x \<noteq> c) s"

section \<open>Numbers in texts\<close>

text \<open>\<^verbatim>\<open>isspace\<close>, and the value of the leading digits of a text.\<close>

definition is_space :: "char \<Rightarrow> bool" where
  "is_space c \<longleftrightarrow> c = CHR '' '' \<or> (9 \<le> (of_char c :: nat) \<and> (of_char c :: nat) \<le> 13)"

fun digits_value :: "int \<Rightarrow> string \<Rightarrow> int" where
  "digits_value n [] = n"
| "digits_value n (c # cs) =
     (if 48 \<le> (of_char c :: nat) \<and> (of_char c :: nat) \<le> 57
      then digits_value (10 * n + (int (of_char c) - 48)) cs else n)"

section \<open>strHelper\<close>

text \<open>
  The \<^verbatim>\<open>for(;;)\<close> of \<^verbatim>\<open>splitStr\<close>. With an empty delimiter it does not end, so the loop
  returns an option and \<open>None\<close> is a run without end.
\<close>

partial_function (option) splitStr_loop ::
  "string \<Rightarrow> string \<Rightarrow> nat \<Rightarrow> nat \<Rightarrow> nat \<Rightarrow> string list \<Rightarrow> (nat \<times> string list) option" where
  "splitStr_loop str delim prepos pos count list =
     (case str_find str delim pos of
        None \<Rightarrow>
          (if prepos < length str then Some (count + 1, list @ [drop prepos str])
           else Some (count, list))
      | Some p \<Rightarrow>
          splitStr_loop str delim (p + length delim) (p + length delim) (count + 1)
            (list @ [take (p - prepos) (drop prepos str)]))"

definition splitStr :: "string list \<Rightarrow> string \<Rightarrow> string option \<Rightarrow> fault + (nat \<times> string list)" where
  "splitStr list str delim =
     (if str = [] then Inr (0, list)
      else case delim of
          None \<Rightarrow> Inr (1, list @ [str])
        | Some d \<Rightarrow>
            (case splitStr_loop str d 0 0 0 list of
               None \<Rightarrow> Inl Diverges
             | Some r \<Rightarrow> Inr r))"

text \<open>\<^verbatim>\<open>trim\<close> edits its argument in place and returns it; \<^verbatim>\<open>npos + 1\<close> is \<open>0\<close>.\<close>

definition trim :: "string \<Rightarrow> char \<Rightarrow> string" where
  "trim str thechar =
     (if str = [] then str
      else let str1 = (case find_first_not_of str thechar of
                         Some pos \<Rightarrow> drop pos str
                       | None \<Rightarrow> str)
           in case find_last_of str1 thechar of
                Some _ \<Rightarrow>
                  take (case find_last_not_of str1 thechar of None \<Rightarrow> 0 | Some q \<Rightarrow> q + 1) str1
              | None \<Rightarrow> str1)"

section \<open>What the searches find\<close>

lemma find_index_dropWhile:
  "find_index P s i =
    (if dropWhile (\<lambda>x. \<not> P x) s = [] then None else Some (i + length (takeWhile (\<lambda>x. \<not> P x) s)))"
  by (induction s arbitrary: i) auto

lemma find_from_Some_iff:
  "find_from pat s i = Some k \<longleftrightarrow>
    (\<exists>j. k = i + j \<and> j \<le> length s \<and> take (length pat) (drop j s) = pat \<and>
         (\<forall>m < j. take (length pat) (drop m s) \<noteq> pat))"
proof (induction s arbitrary: i)
  case Nil
  then show ?case by auto
next
  case (Cons c cs)
  show ?case
  proof (cases "take (length pat) (c # cs) = pat")
    case True
    then show ?thesis by (auto 0 3 intro: exI [of _ 0] elim: allE [where x = 0])
  next
    case False
    then have "find_from pat (c # cs) i = Some k \<longleftrightarrow> find_from pat cs (Suc i) = Some k"
      by simp
    also have "\<dots> \<longleftrightarrow> (\<exists>j. k = Suc i + j \<and> j \<le> length cs \<and> take (length pat) (drop j cs) = pat \<and>
         (\<forall>m < j. take (length pat) (drop m cs) \<noteq> pat))"
      by (rule Cons.IH)
    also have "\<dots> \<longleftrightarrow> (\<exists>j. k = i + j \<and> j \<le> length (c # cs) \<and> take (length pat) (drop j (c # cs)) = pat \<and>
         (\<forall>m < j. take (length pat) (drop m (c # cs)) \<noteq> pat))" (is "?L \<longleftrightarrow> ?R")
    proof
      assume ?L
      then obtain j where j: "k = Suc i + j" "j \<le> length cs" "take (length pat) (drop j cs) = pat"
        "\<forall>m < j. take (length pat) (drop m cs) \<noteq> pat" by blast
      have "\<forall>m < Suc j. take (length pat) (drop m (c # cs)) \<noteq> pat"
        using j(4) False by (auto simp: less_Suc_eq_0_disj)
      with j show ?R by (intro exI [of _ "Suc j"]) auto
    next
      assume ?R
      then obtain j where j: "k = i + j" "j \<le> length (c # cs)"
        "take (length pat) (drop j (c # cs)) = pat"
        "\<forall>m < j. take (length pat) (drop m (c # cs)) \<noteq> pat" by blast
      from j(3) False obtain j' where "j = Suc j'" by (cases j) auto
      with j show ?L by (intro exI [of _ j']) (auto dest: spec [where x = "Suc _"])
    qed
    finally show ?thesis .
  qed
qed

text \<open>An occurrence of \<open>pat\<close> at position \<open>i\<close> of \<open>s\<close>.\<close>

definition occurs_at :: "string \<Rightarrow> string \<Rightarrow> nat \<Rightarrow> bool" where
  "occurs_at s pat i \<longleftrightarrow> take (length pat) (drop i s) = pat"

lemma str_find_Some_iff:
  "str_find s pat pos = Some k \<longleftrightarrow>
    pos \<le> k \<and> k \<le> length s \<and> occurs_at s pat k \<and> (\<forall>m. pos \<le> m \<and> m < k \<longrightarrow> \<not> occurs_at s pat m)"
proof (cases "pos \<le> length s")
  case True
  have "str_find s pat pos = Some k \<longleftrightarrow>
      (\<exists>j. k = pos + j \<and> j \<le> length s - pos \<and> occurs_at s pat (pos + j) \<and>
         (\<forall>m < j. \<not> occurs_at s pat (pos + m)))"
    using True by (simp add: str_find_def find_from_Some_iff occurs_at_def add.commute)
  also have "\<dots> \<longleftrightarrow> pos \<le> k \<and> k \<le> length s \<and> occurs_at s pat k \<and>
      (\<forall>m. pos \<le> m \<and> m < k \<longrightarrow> \<not> occurs_at s pat m)" (is "?L \<longleftrightarrow> ?R")
  proof
    assume ?L
    then obtain j where j: "k = pos + j" "j \<le> length s - pos" "occurs_at s pat (pos + j)"
      "\<forall>m < j. \<not> occurs_at s pat (pos + m)" by blast
    have "\<not> occurs_at s pat m" if "pos \<le> m" "m < k" for m
      using j(1,4) that by (metis le_add_diff_inverse nat_add_left_cancel_less)
    with j True show ?R by auto
  next
    assume ?R
    then show ?L by (intro exI [of _ "k - pos"]) auto
  qed
  finally show ?thesis .
next
  case False
  then show ?thesis by (auto simp: str_find_def)
qed

lemma str_find_bound: "str_find s pat pos = Some k \<Longrightarrow> k + length pat \<le> length s \<and> pos \<le> k"
proof -
  assume "str_find s pat pos = Some k"
  then have k: "pos \<le> k" "k \<le> length s" "take (length pat) (drop k s) = pat"
    by (auto simp: str_find_Some_iff occurs_at_def)
  from k(3) have "length pat \<le> length s - k"
    by (metis length_drop length_take min.cobounded1 min_def)
  with k(1,2) show ?thesis by linarith
qed

lemma occurs_at_le:
  "occurs_at s pat i \<Longrightarrow> pat \<noteq> [] \<Longrightarrow> i + length pat \<le> length s"
  by (cases "i \<le> length s") (auto simp: occurs_at_def dest!: arg_cong [where f = length])

lemma str_find_None_iff:
  "pos \<le> length s \<Longrightarrow> str_find s pat pos = None \<longleftrightarrow> (\<forall>m. pos \<le> m \<and> m \<le> length s \<longrightarrow> \<not> occurs_at s pat m)"
proof
  assume none: "str_find s pat pos = None"
  show "\<forall>m. pos \<le> m \<and> m \<le> length s \<longrightarrow> \<not> occurs_at s pat m"
  proof (rule ccontr)
    assume "\<not> ?thesis"
    then have ex: "\<exists>m. pos \<le> m \<and> m \<le> length s \<and> occurs_at s pat m" by blast
    define k where "k = (LEAST m. pos \<le> m \<and> m \<le> length s \<and> occurs_at s pat m)"
    from ex have k: "pos \<le> k \<and> k \<le> length s \<and> occurs_at s pat k"
      unfolding k_def by (rule LeastI_ex)
    have "\<not> occurs_at s pat m" if "pos \<le> m" "m < k" for m
      using not_less_Least [of m "\<lambda>m. pos \<le> m \<and> m \<le> length s \<and> occurs_at s pat m"] that k
      unfolding k_def by auto
    with k have "str_find s pat pos = Some k" by (simp add: str_find_Some_iff)
    with none show False by simp
  qed
next
  assume "\<forall>m. pos \<le> m \<and> m \<le> length s \<longrightarrow> \<not> occurs_at s pat m"
  then show "str_find s pat pos = None"
    by (cases "str_find s pat pos") (auto simp: str_find_Some_iff)
qed

lemma not_occurs_before:
  assumes "pat \<noteq> []" and "hd pat \<notin> set l" and "m < length l"
  shows "\<not> occurs_at (pre @ l @ r) pat (length pre + m)"
proof
  assume "occurs_at (pre @ l @ r) pat (length pre + m)"
  then have "take (length pat) (drop m (l @ r)) = pat"
    by (simp add: occurs_at_def)
  with assms(1) have "hd (drop m (l @ r)) = hd pat"
    by (metis hd_take length_greater_0_conv)
  moreover have "hd (drop m (l @ r)) = l ! m"
    using assms(3) by (simp add: hd_drop_conv_nth nth_append)
  ultimately show False
    using assms(2,3) by (metis nth_mem)
qed

lemma str_find_hd_free:
  assumes "pat \<noteq> []" and "hd pat \<notin> set l"
  shows "str_find (pre @ l @ pat @ r) pat (length pre) = Some (length pre + length l)"
proof -
  have "\<not> occurs_at (pre @ l @ pat @ r) pat m"
    if "length pre \<le> m" "m < length pre + length l" for m
    using not_occurs_before [OF assms, of "m - length pre" pre "pat @ r"] that by simp
  then show ?thesis
    by (auto simp: str_find_Some_iff occurs_at_def)
qed

lemma str_find_hd_free_None:
  assumes "pat \<noteq> []" and "hd pat \<notin> set l"
  shows "str_find (pre @ l) pat (length pre) = None"
proof -
  have "\<not> occurs_at (pre @ l) pat m" if "length pre \<le> m" "m \<le> length (pre @ l)" for m
  proof (cases "m = length (pre @ l)")
    case True
    with assms(1) show ?thesis by (simp add: occurs_at_def)
  next
    case False
    then show ?thesis
      using not_occurs_before [OF assms, of "m - length pre" pre "[]"] that by simp
  qed
  then show ?thesis
    by (subst str_find_None_iff) auto
qed

section \<open>splitStr\<close>

declare splitStr_loop.simps [simp del]

text \<open>Text in which every line of \<open>ls\<close> ends with the delimiter.\<close>

definition terminated :: "string \<Rightarrow> string list \<Rightarrow> string" where
  "terminated d ls = concat (map (\<lambda>l. l @ d) ls)"

lemma terminated_simps [simp]:
  "terminated d [] = []"
  "terminated d (l # ls) = l @ d @ terminated d ls"
  "terminated d (ls @ ms) = terminated d ls @ terminated d ms"
  by (simp_all add: terminated_def)

definition contains :: "string \<Rightarrow> string \<Rightarrow> bool" where
  "contains s pat \<longleftrightarrow> (\<exists>i \<le> length s. occurs_at s pat i)"

definition pieces :: "string list \<Rightarrow> string \<Rightarrow> string list" where
  "pieces ls rest = ls @ (if rest = [] then [] else [rest])"

lemma pieces_Cons [simp]: "pieces (l # ls) rest = l # pieces ls rest"
  by (simp add: pieces_def)

lemma not_contains_before:
  assumes d: "d \<noteq> []" and first: "\<forall>m. p \<le> m \<and> m < k \<longrightarrow> \<not> occurs_at str d m"
  shows "\<not> contains (take (k - p) (drop p str)) d"
proof
  assume "contains (take (k - p) (drop p str)) d"
  then obtain i where occ: "occurs_at (take (k - p) (drop p str)) d i"
    by (auto simp: contains_def)
  from occurs_at_le [OF this d] d have i: "i + length d \<le> k - p" "0 < length d"
    by auto
  from occ have "take (length d) (take (k - p - i) (drop (p + i) str)) = d"
    by (simp add: occurs_at_def drop_take add.commute)
  with i have "occurs_at str d (p + i)"
    by (simp add: occurs_at_def)
  moreover have "p + i < k" using i by linarith
  ultimately show False using first by simp
qed

text \<open>
  The loop ends, and what it appends is the text between the occurrences of the delimiter,
  without a last piece that is empty.
\<close>

lemma splitStr_loop_correct:
  assumes d: "d \<noteq> []"
  shows "p \<le> length str \<Longrightarrow>
    \<exists>ls rest. splitStr_loop str d p p count acc =
        Some (count + length (pieces ls rest), acc @ pieces ls rest) \<and>
      drop p str = terminated d ls @ rest \<and> (\<forall>x \<in> set (rest # ls). \<not> contains x d)"
proof (induction "length str - p" arbitrary: p count acc rule: less_induct)
  case less
  show ?case
  proof (cases "str_find str d p")
    case None
    then have "\<not> contains (drop p str) d"
      using less.prems by (auto simp: str_find_None_iff contains_def occurs_at_def add.commute)
    with None show ?thesis
      by (intro exI [of _ "[]"] exI [of _ "drop p str"])
        (simp add: splitStr_loop.simps [of str d p p] pieces_def)
  next
    case (Some k)
    note b = str_find_bound [OF Some]
    have k: "occurs_at str d k" "\<forall>m. p \<le> m \<and> m < k \<longrightarrow> \<not> occurs_at str d m"
      using Some by (auto simp: str_find_Some_iff)
    let ?l = "take (k - p) (drop p str)" and ?q = "k + length d"
    have "length str - ?q < length str - p" "?q \<le> length str"
      using b d by (auto intro!: diff_less_mono2 simp: length_greater_0_conv [symmetric]
          simp del: length_greater_0_conv)
    from less.hyps [OF this, of "count + 1" "acc @ [?l]"]
    obtain ls rest where
      run: "splitStr_loop str d ?q ?q (count + 1) (acc @ [?l]) =
          Some (count + 1 + length (pieces ls rest), (acc @ [?l]) @ pieces ls rest)" and
      parts: "drop ?q str = terminated d ls @ rest" and
      free: "\<forall>x \<in> set (rest # ls). \<not> contains x d" by blast
    have "drop p str = ?l @ drop k str"
      using b by (metis append_take_drop_id drop_drop le_add_diff_inverse2)
    moreover have "drop k str = d @ drop ?q str"
      using k(1) by (metis add.commute append_take_drop_id drop_drop occurs_at_def)
    ultimately have "drop p str = terminated d (?l # ls) @ rest"
      using parts by simp
    moreover have "\<not> contains ?l d"
      by (rule not_contains_before [OF d k(2)])
    ultimately show ?thesis
      using run free Some
      by (intro exI [of _ "?l # ls"] exI [of _ rest]) (simp add: splitStr_loop.simps [of str d p p])
  qed
qed

text \<open>With an empty delimiter the loop finds it at the same place for ever.\<close>

lemma splitStr_loop_empty_delim:
  assumes ret: "splitStr_loop str d prepos pos count list = Some r"
  shows "d = [] \<and> pos \<le> length str \<longrightarrow> False"
proof (rule splitStr_loop.raw_induct [where P = "\<lambda>str d prepos pos count list r.
      d = [] \<and> pos \<le> length str \<longrightarrow> False", OF _ ret])
  fix f str d prepos pos count list r
  assume IH: "\<And>str d prepos pos count list r. f str d prepos pos count list = Some r \<Longrightarrow>
      d = [] \<and> pos \<le> length str \<longrightarrow> False"
    and eq: "(case str_find str d pos of
        None \<Rightarrow> if prepos < length str then Some (count + 1, list @ [drop prepos str])
          else Some (count, list)
      | Some p \<Rightarrow> f str d (p + length d) (p + length d) (count + 1)
          (list @ [take (p - prepos) (drop prepos str)])) = Some r"
  show "d = [] \<and> pos \<le> length str \<longrightarrow> False"
  proof
    assume a: "d = [] \<and> pos \<le> length str"
    then have "str_find str d pos = Some pos"
      by (auto simp: str_find_Some_iff occurs_at_def)
    with eq have "f str d (pos + length d) (pos + length d) (count + 1)
          (list @ [take (pos - prepos) (drop prepos str)]) = Some r" by simp
    from IH [OF this] a show False by simp
  qed
qed

text \<open>
  The pieces of a text whose lines do not hold the first character of the delimiter.
\<close>

lemma splitStr_loop_terminated:
  assumes d: "d \<noteq> []"
  shows "\<forall>l \<in> set (rest # ls). hd d \<notin> set l \<Longrightarrow>
    splitStr_loop (pre @ terminated d ls @ rest) d (length pre) (length pre) count acc =
      Some (count + length (pieces ls rest), acc @ pieces ls rest)"
proof (induction ls arbitrary: pre count acc)
  case Nil
  then have "str_find (pre @ rest) d (length pre) = None"
    using d by (intro str_find_hd_free_None) auto
  then show ?case
    by (simp add: splitStr_loop.simps [of "pre @ rest"] pieces_def)
next
  case (Cons l ls)
  let ?t = "terminated d ls @ rest"
  have find: "str_find (pre @ l @ d @ ?t) d (length pre) = Some (length pre + length l)"
    using d Cons.prems by (intro str_find_hd_free) auto
  have "splitStr_loop (pre @ l @ d @ ?t) d (length pre) (length pre) count acc =
      splitStr_loop ((pre @ l @ d) @ ?t) d (length (pre @ l @ d)) (length (pre @ l @ d))
        (count + 1) (acc @ [l])"
    by (subst splitStr_loop.simps) (simp add: find add.assoc)
  also have "\<dots> = Some (count + 1 + length (pieces ls rest), (acc @ [l]) @ pieces ls rest)"
    using Cons.prems by (intro Cons.IH) auto
  finally show ?case by simp
qed

lemma splitStr_terminated:
  assumes "d \<noteq> []" and "\<forall>l \<in> set (rest # ls). hd d \<notin> set l" and "terminated d ls @ rest \<noteq> []"
  shows "splitStr acc (terminated d ls @ rest) (Some d) =
    Inr (length (pieces ls rest), acc @ pieces ls rest)"
  using assms(3) splitStr_loop_terminated [OF assms(1,2), of "[]" 0 acc]
  by (simp add: splitStr_def del: append_is_Nil_conv)

section \<open>trim\<close>

definition strip :: "char \<Rightarrow> string \<Rightarrow> string" where
  "strip c s = rev (dropWhile (\<lambda>x. x = c) (rev (dropWhile (\<lambda>x. x = c) s)))"

lemma find_last_eq:
  "find_last P s =
    (if dropWhile (\<lambda>x. \<not> P x) (rev s) = [] then None
     else Some (length (dropWhile (\<lambda>x. \<not> P x) (rev s)) - 1))"
proof -
  have "length (takeWhile (\<lambda>x. \<not> P x) (rev s)) + length (dropWhile (\<lambda>x. \<not> P x) (rev s)) = length s"
    by (metis length_append length_rev takeWhile_dropWhile_id)
  then have "length s - 1 - length (takeWhile (\<lambda>x. \<not> P x) (rev s)) =
      length (dropWhile (\<lambda>x. \<not> P x) (rev s)) - 1" by linarith
  then show ?thesis
    by (simp add: find_last_def find_index_dropWhile)
qed

lemma take_length_dropWhile_rev:
  "take (length (dropWhile P (rev s))) s = rev (dropWhile P (rev s))"
proof -
  have "s = rev (dropWhile P (rev s)) @ rev (takeWhile P (rev s))"
    by (metis rev_append rev_rev_ident takeWhile_dropWhile_id)
  then show ?thesis
    by (metis append_eq_conv_conj length_rev)
qed

lemma dropWhile_idle: "\<forall>x \<in> set s. \<not> P x \<Longrightarrow> dropWhile P s = s"
  by (cases s) auto

lemma trim_strip: "trim s c = strip c s"
proof (cases "s = []")
  case False
  let ?s1 = "case find_first_not_of s c of Some pos \<Rightarrow> drop pos s | None \<Rightarrow> s"
  let ?d = "dropWhile (\<lambda>x. x = c)"
  have s1: "?s1 = (if ?d s = [] then s else ?d s)"
    by (auto simp: find_first_not_of_def find_index_dropWhile dropWhile_eq_drop)
  have inner: "rev (?d (rev ?s1)) = strip c s"
  proof (cases "?d s = []")
    case True
    then have "?d (rev s) = []" by (simp add: dropWhile_eq_Nil_conv)
    moreover have "strip c s = []" unfolding strip_def True by simp
    ultimately show ?thesis unfolding s1 by (simp only: True if_True rev.simps simp_thms)
  next
    case False
    then show ?thesis unfolding s1 strip_def by (simp only: if_False)
  qed
  have last: "(case find_last_not_of ?s1 c of None \<Rightarrow> 0 | Some q \<Rightarrow> q + 1) = length (?d (rev ?s1))"
    by (simp add: find_last_not_of_def find_last_eq)
  show ?thesis
  proof (cases "find_last_of ?s1 c")
    case None
    then have "dropWhile (\<lambda>x. x \<noteq> c) (rev ?s1) = []"
      by (simp add: find_last_of_def find_last_eq split: if_splits)
    then have "\<forall>x \<in> set (rev ?s1). x \<noteq> c"
      by (simp add: dropWhile_eq_Nil_conv)
    then have "?d (rev ?s1) = rev ?s1"
      by (intro dropWhile_idle) simp
    with inner have "?s1 = strip c s" by (metis rev_rev_ident)
    with None False show ?thesis by (simp add: trim_def Let_def)
  next
    case (Some q)
    with False have "trim s c = take (length (?d (rev ?s1))) ?s1"
      by (simp add: trim_def Let_def last)
    also have "\<dots> = strip c s"
      by (simp only: take_length_dropWhile_rev inner)
    finally show ?thesis .
  qed
qed (simp add: trim_def strip_def)

lemma strip_idle:
  assumes "c \<notin> set s"
  shows "strip c s = s"
proof -
  have "dropWhile (\<lambda>x. x = c) s = s" "dropWhile (\<lambda>x. x = c) (rev s) = rev s"
    using assms by (auto intro!: dropWhile_idle)
  then show ?thesis by (simp add: strip_def)
qed

lemma splitStr_correct:
  assumes "d \<noteq> []"
  shows "\<exists>ls rest. splitStr acc s (Some d) = Inr (length (pieces ls rest), acc @ pieces ls rest) \<and>
    s = terminated d ls @ rest \<and> (\<forall>x \<in> set (rest # ls). \<not> contains x d)"
proof (cases "s = []")
  case True
  with assms show ?thesis
    by (intro exI [of _ "[]"]) (simp add: splitStr_def pieces_def contains_def occurs_at_def)
next
  case False
  obtain ls rest where loop: "splitStr_loop s d 0 0 0 acc = Some (length (pieces ls rest), acc @ pieces ls rest)"
    and parts: "s = terminated d ls @ rest" "\<forall>x \<in> set (rest # ls). \<not> contains x d"
    using splitStr_loop_correct [OF assms, of 0 s 0 acc] by auto
  have "splitStr acc s (Some d) = Inr (length (pieces ls rest), acc @ pieces ls rest)"
    using False by (simp add: splitStr_def loop)
  with parts show ?thesis by blast
qed

lemma splitStr_returns: "d \<noteq> [] \<Longrightarrow> \<exists>r. splitStr acc s (Some d) = Inr r"
  using splitStr_correct [of d acc s] by blast

section \<open>Properties\<close>

text \<open>C25: with a delimiter that is not empty, \<^verbatim>\<open>splitStr\<close> returns on every text. The pieces,
  which it appends to the list and counts, put together with the delimiter after each but the
  last are the text, none of them holds the delimiter, and only the last piece is left out when
  it is empty.\<close>

theorem splitStr_splits:
  assumes "d \<noteq> []"
  shows "\<exists>ls rest. splitStr acc s (Some d) = Inr (length (pieces ls rest), acc @ pieces ls rest) \<and>
    s = terminated d ls @ rest \<and> (\<forall>x \<in> set (rest # ls). \<not> contains x d)"
  using assms by (rule splitStr_correct)

theorem splitStr_splits_witness:
  "\<exists>ls rest. splitStr [] ''a, b'' (Some '', '') = Inr (length (pieces ls rest), [] @ pieces ls rest) \<and>
    ''a, b'' = terminated '', '' ls @ rest \<and> (\<forall>x \<in> set (rest # ls). \<not> contains x '', '')"
  by (rule splitStr_splits) simp

text \<open>With an empty delimiter and a text that is not empty, the loop of \<^verbatim>\<open>splitStr\<close> does not
  end.\<close>

theorem splitStr_empty_delimiter_diverges:
  assumes "s \<noteq> []"
  shows "splitStr acc s (Some []) = Inl Diverges"
  using assms splitStr_loop_empty_delim [of s "[]" 0 0 0 acc]
  by (cases "splitStr_loop s [] 0 0 0 acc") (auto simp: splitStr_def)

theorem splitStr_empty_delimiter_diverges_witness: "splitStr [] ''ab'' (Some []) = Inl Diverges"
  by (rule splitStr_empty_delimiter_diverges) simp

text \<open>\<^verbatim>\<open>trim\<close> removes the given character from both ends of the string and nothing else,
  also when the string consists of that character only.\<close>

theorem trim_strips_both_ends: "trim s c = strip c s"
  by (rule trim_strip)

end
