(* ===== verification/Base64_Codec.thy ===== *)
theory Base64_Codec
  imports Ws_Prelude "HOL-Library.Signed_Division"
begin

text \<open>
  The base64 routines of src/src/base64.cpp (declared in src/src/base64.h): the tables, the
  encoder, the decoder and the two buffer-size functions, in the shape of the C code. A
  destination buffer is the list of the characters or bytes written to it, the terminating
  NUL included. The encoding of RFC 4648 on lists of bytes follows, with an alphabet of its own, then the
  equivalence with it, the round trip, and the bounds on what is written.

  Lengths are \<^verbatim>\<open>int\<close>: \<open>to_int32\<close> marks every operation whose result may not fit. Converting a difference
  of pointers wraps on the compilers in use; a sum of \<^verbatim>\<open>int\<close> that does not fit is undefined in C and wraps here.
  \<^verbatim>\<open>/\<close> truncates towards zero (\<open>sdiv\<close>). The properties are for lengths at which nothing wraps.
\<close>

unbundle bit_operations_syntax

section \<open>Tables\<close>

definition pr2six :: "byte list" where
  "pr2six =
     [64, 64, 64, 64, 64, 64, 64, 64, 64, 64, 64, 64, 64, 64, 64, 64,
      64, 64, 64, 64, 64, 64, 64, 64, 64, 64, 64, 64, 64, 64, 64, 64,
      64, 64, 64, 64, 64, 64, 64, 64, 64, 64, 64, 62, 64, 64, 64, 63,
      52, 53, 54, 55, 56, 57, 58, 59, 60, 61, 64, 64, 64, 64, 64, 64,
      64,  0,  1,  2,  3,  4,  5,  6,  7,  8,  9, 10, 11, 12, 13, 14,
      15, 16, 17, 18, 19, 20, 21, 22, 23, 24, 25, 64, 64, 64, 64, 64,
      64, 26, 27, 28, 29, 30, 31, 32, 33, 34, 35, 36, 37, 38, 39, 40,
      41, 42, 43, 44, 45, 46, 47, 48, 49, 50, 51, 64, 64, 64, 64, 64,
      64, 64, 64, 64, 64, 64, 64, 64, 64, 64, 64, 64, 64, 64, 64, 64,
      64, 64, 64, 64, 64, 64, 64, 64, 64, 64, 64, 64, 64, 64, 64, 64,
      64, 64, 64, 64, 64, 64, 64, 64, 64, 64, 64, 64, 64, 64, 64, 64,
      64, 64, 64, 64, 64, 64, 64, 64, 64, 64, 64, 64, 64, 64, 64, 64,
      64, 64, 64, 64, 64, 64, 64, 64, 64, 64, 64, 64, 64, 64, 64, 64,
      64, 64, 64, 64, 64, 64, 64, 64, 64, 64, 64, 64, 64, 64, 64, 64,
      64, 64, 64, 64, 64, 64, 64, 64, 64, 64, 64, 64, 64, 64, 64, 64,
      64, 64, 64, 64, 64, 64, 64, 64, 64, 64, 64, 64, 64, 64, 64, 64]"

definition basis_64 :: string where
  "basis_64 = ''ABCDEFGHIJKLMNOPQRSTUVWXYZabcdefghijklmnopqrstuvwxyz0123456789+/''"

text \<open>\<^verbatim>\<open>pr2six[*bufin]\<close>: \<^verbatim>\<open>bufin\<close> is a pointer to \<^verbatim>\<open>unsigned char\<close>.\<close>

definition six :: "char \<Rightarrow> byte" where
  "six c = pr2six ! of_char c"

section \<open>Encoder\<close>

definition Base64encode_len :: "int \<Rightarrow> int" where
  "Base64encode_len len = to_int32 (to_int32 (to_int32 (len + 2) sdiv 3 * 4) + 1)"

text \<open>
  \<^verbatim>\<open>string[i]\<close> has type \<^verbatim>\<open>char\<close>, which is signed: in the expressions of the code it is
  promoted to a 32-bit \<^verbatim>\<open>int\<close> with sign extension, and \<^verbatim>\<open>>>\<close> is the arithmetic shift.
\<close>

definition sx :: "bytes \<Rightarrow> int \<Rightarrow> u32" where
  "sx str i = signed (str ! nat i)"

definition b64c :: "u32 \<Rightarrow> char" where
  "b64c w = basis_64 ! unat w"

function b64_loop :: "bytes \<Rightarrow> int \<Rightarrow> int \<Rightarrow> string \<Rightarrow> int \<times> string" where
  "b64_loop str len i p =
     (if i < to_int32 (len - 2) then
        b64_loop str len (i + 3)
          (p @ [b64c (signed_drop_bit 2 (sx str i) AND 0x3F),
                b64c (push_bit 4 (sx str i AND 0x3) OR
                      signed_drop_bit 4 (sx str (i + 1) AND 0xF0)),
                b64c (push_bit 2 (sx str (i + 1) AND 0xF) OR
                      signed_drop_bit 6 (sx str (i + 2) AND 0xC0)),
                b64c (sx str (i + 2) AND 0x3F)])
      else (i, p))"
  by pat_completeness auto
termination
  by (relation "measure (\<lambda>(str, len, i, p). nat (to_int32 (len - 2) - i))") auto

definition Base64encode :: "bytes \<Rightarrow> int \<Rightarrow> int \<times> string" where
  "Base64encode str len =
     (let (i, p) = b64_loop str len 0 [];
          p = (if i < len then
                 let p = p @ [b64c (signed_drop_bit 2 (sx str i) AND 0x3F)];
                     p = (if i = len - 1 then
                            p @ [b64c (push_bit 4 (sx str i AND 0x3)), CHR ''='']
                          else
                            p @ [b64c (push_bit 4 (sx str i AND 0x3) OR
                                       signed_drop_bit 4 (sx str (i + 1) AND 0xF0)),
                                 b64c (push_bit 2 (sx str (i + 1) AND 0xF))])
                 in p @ [CHR ''='']
               else p);
          p = p @ [CHR 0x00]
      in (to_int32 (int (length p)), p))"

section \<open>Decoder\<close>

text \<open>
  The scan over the valid characters of the C string \<open>s\<close>, given without its NUL: the NUL that
  ends it is not a valid character. \<open>c_at\<close> reads the string, its NUL included.
\<close>

fun scan_valid :: "string \<Rightarrow> int \<Rightarrow> int" where
  "scan_valid [] n = n"
| "scan_valid (c # cs) n = (if six c \<le> 63 then scan_valid cs (n + 1) else n)"

definition c_at :: "string \<Rightarrow> nat \<Rightarrow> char" where
  "c_at s i = (if i < length s then s ! i else CHR 0x00)"

definition Base64decode_len :: "string \<Rightarrow> int" where
  "Base64decode_len bufcoded =
     (let nprbytes = to_int32 (scan_valid bufcoded 0);
          nbytesdecoded = (to_int32 (nprbytes + 3) sdiv 4) * 3
      in nbytesdecoded + 1)"

text \<open>The three bytes decoded from the characters at \<^verbatim>\<open>bufin\<close>.\<close>

definition dec0 :: "string \<Rightarrow> nat \<Rightarrow> byte" where
  "dec0 s k = push_bit 2 (six (c_at s k)) OR drop_bit 4 (six (c_at s (k + 1)))"

definition dec1 :: "string \<Rightarrow> nat \<Rightarrow> byte" where
  "dec1 s k = push_bit 4 (six (c_at s (k + 1))) OR drop_bit 2 (six (c_at s (k + 2)))"

definition dec2 :: "string \<Rightarrow> nat \<Rightarrow> byte" where
  "dec2 s k = push_bit 6 (six (c_at s (k + 2))) OR six (c_at s (k + 3))"

function b64_dec_loop :: "string \<Rightarrow> nat \<Rightarrow> int \<Rightarrow> bytes \<Rightarrow> nat \<times> int \<times> bytes" where
  "b64_dec_loop s bufin nprbytes bufout =
     (if nprbytes > 4 then
        b64_dec_loop s (bufin + 4) (nprbytes - 4)
          (bufout @ [dec0 s bufin, dec1 s bufin, dec2 s bufin])
      else (bufin, nprbytes, bufout))"
  by pat_completeness auto
termination
  by (relation "measure (\<lambda>(s, k, n, out). nat n)") auto

definition Base64decode :: "string \<Rightarrow> int \<times> bytes" where
  "Base64decode bufcoded =
     (let nprbytes = to_int32 (scan_valid bufcoded 0);
          nbytesdecoded = (to_int32 (nprbytes + 3) sdiv 4) * 3;
          (bufin, nprbytes, bufout) = b64_dec_loop bufcoded 0 nprbytes [];
          bufout = (if nprbytes > 1 then bufout @ [dec0 bufcoded bufin] else bufout);
          bufout = (if nprbytes > 2 then bufout @ [dec1 bufcoded bufin] else bufout);
          bufout = (if nprbytes > 3 then bufout @ [dec2 bufcoded bufin] else bufout);
          bufout = bufout @ [0];
          nbytesdecoded = nbytesdecoded - (to_int32 (4 - nprbytes) AND 3)
      in (nbytesdecoded, bufout))"

declare b64_loop.simps [simp del] b64_dec_loop.simps [simp del]

section \<open>The encoding of RFC 4648\<close>

text \<open>The alphabet of section 4 (capital letters, small letters, digits, two signs), the sextets of a byte
  list, and their characters with the padding.\<close>

definition rfc4648_alphabet :: string where
  "rfc4648_alphabet = ''ABCDEFGHIJKLMNOPQRSTUVWXYZ'' @ ''abcdefghijklmnopqrstuvwxyz'' @ ''0123456789'' @ ''+/''"

definition enc_char :: "byte \<Rightarrow> char" where
  "enc_char v = rfc4648_alphabet ! unat v"

definition s1 :: "byte \<Rightarrow> byte" where
  "s1 a = drop_bit 2 a"

definition s2 :: "byte \<Rightarrow> byte \<Rightarrow> byte" where
  "s2 a b = push_bit 4 (a AND 3) OR drop_bit 4 b"

definition s3 :: "byte \<Rightarrow> byte \<Rightarrow> byte" where
  "s3 b c = push_bit 2 (b AND 15) OR drop_bit 6 c"

definition s4 :: "byte \<Rightarrow> byte" where
  "s4 c = c AND 63"

fun b64_spec :: "bytes \<Rightarrow> string" where
  "b64_spec [] = []"
| "b64_spec [a] = [enc_char (s1 a), enc_char (s2 a 0), CHR ''='', CHR ''='']"
| "b64_spec [a, b] = [enc_char (s1 a), enc_char (s2 a b), enc_char (s3 b 0), CHR ''='']"
| "b64_spec (a # b # c # rest) =
     [enc_char (s1 a), enc_char (s2 a b), enc_char (s3 b c), enc_char (s4 c)] @ b64_spec rest"

section \<open>The encoder computes the reference encoding\<close>

lemma sextet_bounds [simp]:
  "unat (s1 a) < 64" "unat (s2 a b) < 64" "unat (s3 b c) < 64" "unat (s4 c) < 64"
proof -
  have "unat v < 64" if "\<not> bit v 6" "\<not> bit v 7" for v :: byte
  proof -
    have "v = v AND 63"
      using that by (simp add: word_bits)
    also have "\<dots> \<le> 63" by (rule word_and_le1)
    finally show ?thesis by (simp add: word_le_nat_alt)
  qed
  then show "unat (s1 a) < 64" "unat (s2 a b) < 64" "unat (s3 b c) < 64" "unat (s4 c) < 64"
    by (simp_all add: s1_def s2_def s3_def s4_def bit_simps bit_byte_beyond)
qed

text \<open>
  The sextets as the code computes them, with the mask moved out of the left shift as the
  simplifier does.
\<close>

lemma code_sextets:
  fixes a b c :: byte
  shows "signed_drop_bit 2 (signed a :: u32) AND 0x3F = ucast (s1 a)"
    and "push_bit 4 (signed a) AND 48 OR signed_drop_bit 4 (signed b AND 0xF0 :: u32) = ucast (s2 a b)"
    and "push_bit 2 (signed b) AND 60 OR signed_drop_bit 6 (signed c AND 0xC0 :: u32) = ucast (s3 b c)"
    and "(signed c :: u32) AND 0x3F = ucast (s4 c)"
  by (simp_all add: s1_def s2_def s3_def s4_def word_bits)

lemma code_sextet_pad2: "push_bit 4 (signed a :: u32) AND 48 = ucast (s2 a 0)" for a :: byte
  by (simp add: s2_def word_bits)

lemma code_sextet_pad3: "push_bit 2 (signed b :: u32) AND 60 = ucast (s3 b 0)" for b :: byte
  by (simp add: s3_def word_bits)

lemma basis_64_alphabet: "basis_64 = rfc4648_alphabet"
  by (simp add: basis_64_def rfc4648_alphabet_def)

lemma b64c_ucast: "b64c (ucast v) = enc_char v"
  by (simp add: b64c_def enc_char_def basis_64_alphabet)

lemma sx_at: "sx (pre @ a # rest) (int (length pre)) = signed a"
  "sx (pre @ a # b # rest) (int (length pre) + 1) = signed b"
  "sx (pre @ a # b # c # rest) (int (length pre) + 2) = signed c"
proof -
  have "nat (int (length pre) + 1) = length pre + 1" "nat (int (length pre) + 2) = length pre + 2"
    by linarith+
  then show "sx (pre @ a # rest) (int (length pre)) = signed a"
    "sx (pre @ a # b # rest) (int (length pre) + 1) = signed b"
    "sx (pre @ a # b # c # rest) (int (length pre) + 2) = signed c"
    by (simp_all add: sx_def nth_append)
qed

text \<open>The input from which the loop stops, and what it has written before.\<close>

fun b64_tail :: "bytes \<Rightarrow> bytes" where
  "b64_tail (a # b # c # rest) = b64_tail rest"
| "b64_tail bs = bs"

fun b64_groups :: "bytes \<Rightarrow> string" where
  "b64_groups (a # b # c # rest) =
     [enc_char (s1 a), enc_char (s2 a b), enc_char (s3 b c), enc_char (s4 c)] @ b64_groups rest"
| "b64_groups _ = []"

lemma b64_loop_eq:
  "length (pre @ bs) < 2 ^ 31 \<Longrightarrow> b64_loop (pre @ bs) (int (length (pre @ bs))) (int (length pre)) p =
    (int (length (pre @ bs)) - int (length (b64_tail bs)), p @ b64_groups bs)"
proof (induction bs arbitrary: pre p rule: b64_tail.induct)
  case (1 a b c rest)
  let ?g = "[enc_char (s1 a), enc_char (s2 a b), enc_char (s3 b c), enc_char (s4 c)]"
  have len: "to_int32 (int (length (pre @ a # b # c # rest)) - 2) = int (length (pre @ a # b # c # rest)) - 2"
    using "1.prems" by (intro to_int32_id) simp_all
  have "b64_loop (pre @ a # b # c # rest) (int (length (pre @ a # b # c # rest))) (int (length pre)) p
      = b64_loop (pre @ a # b # c # rest) (int (length (pre @ a # b # c # rest)))
          (int (length pre) + 3) (p @ ?g)"
    by (subst b64_loop.simps, subst len) (simp add: sx_at code_sextets b64c_ucast)
  also have "\<dots> = b64_loop ((pre @ [a, b, c]) @ rest) (int (length ((pre @ [a, b, c]) @ rest)))
          (int (length (pre @ [a, b, c]))) (p @ ?g)"
    by (simp add: add.commute)
  also have "\<dots> = (int (length ((pre @ [a, b, c]) @ rest)) - int (length (b64_tail rest)),
      (p @ ?g) @ b64_groups rest)"
    by (rule "1.IH") (use "1.prems" in simp)
  finally show ?case by simp
qed (subst b64_loop.simps, simp)+

lemma b64_tail_decomp: "\<exists>pre. bs = pre @ b64_tail bs \<and> length (b64_tail bs) < 3"
proof (induction bs rule: b64_tail.induct)
  case (1 a b c rest)
  then obtain pre where "rest = pre @ b64_tail rest" "length (b64_tail rest) < 3" by blast
  then show ?case by (intro exI [of _ "a # b # c # pre"]) simp
qed auto

lemma b64_spec_groups: "b64_spec bs = b64_groups bs @ b64_spec (b64_tail bs)"
  by (induction bs rule: b64_tail.induct) auto

lemma Base64encode_wraps:
  assumes "length bs < 2 ^ 31"
  shows "Base64encode bs (int (length bs)) = (to_int32 (int (length (b64_spec bs)) + 1), b64_spec bs @ [CHR 0x00])"
proof -
  obtain pre where pre: "bs = pre @ b64_tail bs" and short: "length (b64_tail bs) < 3"
    using b64_tail_decomp by blast
  have loop: "b64_loop bs (int (length bs)) 0 [] =
      (int (length bs) - int (length (b64_tail bs)), b64_groups bs)"
    using b64_loop_eq [of "[]" bs "[]"] assms by simp
  have i: "int (length bs) - int (length (b64_tail bs)) = int (length pre)"
    using arg_cong [OF pre, of length] by simp
  consider (n) "b64_tail bs = []" | (o) a where "b64_tail bs = [a]"
    | (t) a b where "b64_tail bs = [a, b]"
    using short by (cases "b64_tail bs" rule: b64_tail.cases) auto
  then show ?thesis
  proof cases
    case n
    then show ?thesis
      using loop by (simp add: Base64encode_def Let_def b64_spec_groups [of bs] add.commute)
  next
    case (o a)
    with pre have bs: "bs = pre @ [a]" by simp
    show ?thesis
      using loop i unfolding b64_spec_groups [of bs] o
      by (simp add: Base64encode_def Let_def bs sx_at code_sextets code_sextet_pad2 b64c_ucast)
  next
    case (t a b)
    with pre have bs: "bs = pre @ [a, b]" by simp
    show ?thesis
      using loop i unfolding b64_spec_groups [of bs] t
      by (simp add: Base64encode_def Let_def bs sx_at code_sextets code_sextet_pad3 b64c_ucast)
  qed
qed

lemma length_b64_spec: "length (b64_spec bs) = (length bs + 2) div 3 * 4"
  by (induction bs rule: b64_spec.induct) (simp_all, presburger)

text \<open>The longest input whose text, with its NUL, has a size that fits an \<^verbatim>\<open>int\<close>.\<close>

lemma Base64encode_spec:
  assumes "length bs \<le> 1610612733"
  shows "Base64encode bs (int (length bs)) = (int (length (b64_spec bs)) + 1, b64_spec bs @ [CHR 0x00])"
proof -
  have "length (b64_spec bs) \<le> 536870911 * 4" unfolding length_b64_spec using assms by (intro mult_le_mono1) simp
  then have "to_int32 (int (length (b64_spec bs)) + 1) = int (length (b64_spec bs)) + 1" by (intro to_int32_id) simp_all
  with assms show ?thesis by (simp add: Base64encode_wraps)
qed

lemma sdiv_nonneg: "0 \<le> n \<Longrightarrow> 0 < k \<Longrightarrow> n sdiv k = n div k" for n k :: int
  by (simp add: signed_divide_int_def sgn_if)

section \<open>The decoder on encoded text\<close>

lemma six_alphabet: "\<forall>k \<in> set [0..<64]. six (rfc4648_alphabet ! k) = word_of_nat k"
  by code_simp

lemma six_enc_char: "unat v < 64 \<Longrightarrow> six (enc_char v) = v"
  using six_alphabet by (simp add: enc_char_def)

lemma six_invalid [simp]: "\<not> six CHR ''='' \<le> 63" "\<not> six CHR 0x00 \<le> 63"
  by code_simp+

lemma six_sextets [simp]:
  "six (enc_char (s1 a)) = s1 a" "six (enc_char (s2 a b)) = s2 a b"
  "six (enc_char (s3 b c)) = s3 b c" "six (enc_char (s4 c)) = s4 c"
  by (simp_all add: six_enc_char)

lemma sextet_valid [simp]: "s1 a \<le> 63" "s2 a b \<le> 63" "s3 b c \<le> 63" "s4 c \<le> 63"
  using sextet_bounds(1) [of a] sextet_bounds(2) [of a b] sextet_bounds(3) [of b c]
    sextet_bounds(4) [of c]
  by (simp_all add: word_le_nat_alt del: sextet_bounds)

lemma decode_bits:
  fixes a b c :: byte
  shows "push_bit 2 (s1 a) OR drop_bit 4 (s2 a b) = a"
    and "push_bit 4 (s2 a b) OR drop_bit 2 (s3 b c) = b"
    and "push_bit 6 (s3 b c) OR s4 c = c"
  by (simp_all add: s1_def s2_def s3_def s4_def word_bits) (simp add: numeral_2_eq_2 numeral_3_eq_3)

text \<open>The characters of an encoding before its padding.\<close>

fun b64_chars :: "bytes \<Rightarrow> string" where
  "b64_chars [] = []"
| "b64_chars [a] = [enc_char (s1 a), enc_char (s2 a 0)]"
| "b64_chars [a, b] = [enc_char (s1 a), enc_char (s2 a b), enc_char (s3 b 0)]"
| "b64_chars (a # b # c # rest) =
     [enc_char (s1 a), enc_char (s2 a b), enc_char (s3 b c), enc_char (s4 c)] @ b64_chars rest"

lemma scan_valid_spec: "scan_valid (b64_spec bs) n = n + int (length (b64_chars bs))"
  by (induction bs arbitrary: n rule: b64_spec.induct) auto

lemma scan_valid_ge: "n \<le> scan_valid s n \<and> scan_valid s n \<le> n + int (length s)"
proof (induction s arbitrary: n)
  case (Cons c cs)
  from Cons.IH [of "n + 1"] show ?case by simp
qed simp

definition dec_finish :: "string \<Rightarrow> nat \<times> int \<times> bytes \<Rightarrow> bytes" where
  "dec_finish s = (\<lambda>(k, n, out).
     out @ (if n > 1 then [dec0 s k] else []) @ (if n > 2 then [dec1 s k] else []) @
       (if n > 3 then [dec2 s k] else []) @ [0])"

lemma c_at_append:
  "c_at (pre @ x # xs) (length pre) = x"
  "c_at (pre @ x # y # xs) (Suc (length pre)) = y"
  "c_at (pre @ x # y # z # xs) (Suc (Suc (length pre))) = z"
  "c_at (pre @ x # y # z # w # xs) (length pre + 3) = w"
  by (simp_all add: c_at_def nth_append)

lemma dec_group:
  fixes a b c :: byte
  shows "dec0 (pre @ enc_char (s1 a) # enc_char (s2 a b) # xs) (length pre) = a"
    and "dec1 (pre @ x # enc_char (s2 a b) # enc_char (s3 b c) # xs) (length pre) = b"
    and "dec2 (pre @ x # y # enc_char (s3 b c) # enc_char (s4 c) # xs) (length pre) = c"
  by (simp_all add: dec0_def dec1_def dec2_def c_at_append decode_bits)

lemma b64_chars_Nil: "b64_chars bs = [] \<longleftrightarrow> bs = []"
  by (cases bs rule: b64_chars.cases) auto

lemma dec_loop_spec:
  "dec_finish (pre @ b64_spec bs)
     (b64_dec_loop (pre @ b64_spec bs) (length pre) (int (length (b64_chars bs))) out) = out @ bs @ [0]"
proof (induction bs arbitrary: pre out rule: b64_spec.induct)
  case 1
  show ?case by (subst b64_dec_loop.simps) (simp add: dec_finish_def)
next
  case (2 a)
  show ?case by (subst b64_dec_loop.simps) (simp add: dec_finish_def dec_group)
next
  case (3 a b)
  show ?case by (subst b64_dec_loop.simps) (simp add: dec_finish_def dec_group)
next
  case (4 a b c rest)
  let ?g = "[enc_char (s1 a), enc_char (s2 a b), enc_char (s3 b c), enc_char (s4 c)]"
  show ?case
  proof (cases "rest = []")
    case True
    then show ?thesis by (subst b64_dec_loop.simps) (simp add: dec_finish_def dec_group)
  next
    case False
    then have "0 < length (b64_chars rest)" by (simp add: b64_chars_Nil)
    then have "b64_dec_loop (pre @ b64_spec (a # b # c # rest)) (length pre)
          (int (length (b64_chars (a # b # c # rest)))) out =
        b64_dec_loop ((pre @ ?g) @ b64_spec rest) (length (pre @ ?g))
          (int (length (b64_chars rest))) (out @ [a, b, c])"
      by (subst b64_dec_loop.simps) (simp add: dec_group add.commute eval_nat_numeral)
    with "4.IH" [of "pre @ ?g" "out @ [a, b, c]"] show ?thesis by simp
  qed
qed

section \<open>Sizes\<close>

lemma and_3_mod: "(x :: int) AND 3 = x mod 4"
proof -
  have "x AND 3 = x AND mask 2" by (simp add: mask_eq_exp_minus_1)
  also have "\<dots> = take_bit 2 x" by (simp add: take_bit_eq_mask)
  finally show ?thesis by (simp add: take_bit_eq_mod)
qed

lemma dec_loop_sizes:
  assumes "b64_dec_loop s k n out = (k', n', out')" and "0 \<le> n"
  shows "n' mod 4 = n mod 4 \<and> 0 \<le> n' \<and> n' \<le> 4 \<and> 4 * int (length out') + 3 * n' = 4 * int (length out) + 3 * n"
  using assms
proof (induction s k n out rule: b64_dec_loop.induct)
  case (1 s k n out)
  show ?case
  proof (cases "4 < n")
    case True
    have "n' mod 4 = (n - 4) mod 4 \<and> 0 \<le> n' \<and> n' \<le> 4 \<and>
        4 * int (length out') + 3 * n' =
        4 * int (length (out @ [dec0 s k, dec1 s k, dec2 s k])) + 3 * (n - 4)"
      using "1.prems" True by (intro "1.IH" [OF True]) (simp_all add: b64_dec_loop.simps [of s k n])
    then show ?thesis by (simp add: mod_diff_right_eq)
  next
    case False
    with "1.prems" show ?thesis by (simp add: b64_dec_loop.simps [of s k n])
  qed
qed

lemma Base64decode_finish:
  "Base64decode s =
    (let n = to_int32 (scan_valid s 0); r = b64_dec_loop s 0 n []
     in ((to_int32 (n + 3) sdiv 4) * 3 - (to_int32 (4 - fst (snd r)) AND 3), dec_finish s r))"
  by (simp add: Base64decode_def dec_finish_def Let_def split: prod.split)

lemma scan_fits:
  assumes "length s < 2 ^ 31 - 3"
  shows "to_int32 (scan_valid s 0) = scan_valid s 0" and "to_int32 (scan_valid s 0 + 3) = scan_valid s 0 + 3"
  using scan_valid_ge [of 0 s] assms by (simp_all add: to_int32_id)

lemma Base64decode_sizes:
  assumes dec: "Base64decode s = (n, out)" and len: "length s < 2 ^ 31 - 3"
  shows "int (length out) = n + 1 \<and> n + 1 \<le> Base64decode_len s \<and> 0 \<le> n"
proof -
  let ?N = "scan_valid s 0"
  have N: "0 \<le> ?N" using scan_valid_ge [of 0 s] by simp
  note fits = scan_fits [OF len] sdiv_nonneg [of "?N + 3" 4]
  obtain k' n' out' where run: "b64_dec_loop s 0 ?N [] = (k', n', out')"
    by (cases "b64_dec_loop s 0 ?N []")
  from dec_loop_sizes [OF run N]
  have sz: "n' mod 4 = ?N mod 4" "0 \<le> n'" "n' \<le> 4" "4 * int (length out') + 3 * n' = 3 * ?N"
    by simp_all
  have n: "n = ((?N + 3) div 4) * 3 - (4 - n') mod 4"
    using dec run N sz(2,3) by (simp add: Base64decode_finish and_3_mod fits)
  have out: "int (length out) = int (length out') +
      (if n' > 3 then 4 else if n' > 2 then 3 else if n' > 1 then 2 else 1)"
    using dec run by (auto simp: Base64decode_finish dec_finish_def fits)
  have len: "Base64decode_len s = ((?N + 3) div 4) * 3 + 1"
    using N by (simp add: Base64decode_len_def fits)
  from sz(1) obtain k where k: "?N = n' + 4 * k"
    by (metis add.commute diff_add_cancel dvd_def mod_eq_dvd_iff)
  have ceil: "(?N + 3) div 4 = k + (n' + 3) div 4"
    unfolding k by (simp add: algebra_simps)
  have out': "int (length out') = 3 * k"
    using sz(4) k by simp
  from sz(2,3) consider "n' = 0" | "n' = 1" | "n' = 2" | "n' = 3" | "n' = 4" by linarith
  then show ?thesis
    using k N unfolding n out len ceil out' by cases simp_all
qed

lemma neg_mod_4_shift: "(- (l + 4)) mod 4 = (- l) mod (4 :: int)"
  by presburger

lemma length_b64_chars:
  "((int (length (b64_chars bs)) + 3) div 4) * 3 - (- int (length (b64_chars bs))) mod 4 = int (length bs)"
proof (induction bs rule: b64_chars.induct)
  case (4 a b c rest)
  let ?l = "int (length (b64_chars rest))"
  have "(?l + 4 + 3) div 4 = (?l + 3) div 4 + 1" by simp
  moreover have "(- (?l + 4)) mod 4 = (- ?l) mod 4"
    by (rule neg_mod_4_shift)
  moreover have "int (length (b64_chars (a # b # c # rest))) = ?l + 4"
    "int (length (a # b # c # rest)) = int (length rest) + 3" by simp_all
  moreover have "(d + 1) * 3 - m = n + 3" if "d * 3 - m = n" for d m n :: int
    using that by simp
  ultimately show ?case using "4.IH" by (simp only:)
qed simp_all

lemma Base64decode_spec:
  assumes "length bs \<le> 1610612733"
  shows "Base64decode (b64_spec bs) = (int (length bs), bs @ [0])"
proof -
  have "length (b64_spec bs) \<le> 536870911 * 4" unfolding length_b64_spec using assms by (intro mult_le_mono1) simp
  then have len: "length (b64_spec bs) < 2 ^ 31 - 3" by simp
  obtain n out where dec: "Base64decode (b64_spec bs) = (n, out)" by fastforce
  have out: "out = bs @ [0]"
    using dec dec_loop_spec [of "[]" bs "[]"] by (simp add: Base64decode_finish scan_fits [OF len, unfolded scan_valid_spec add_0] scan_valid_spec Let_def)
  with Base64decode_sizes [OF dec len] dec show ?thesis by simp
qed

section \<open>The codec\<close>

lemma enc_char_not_NUL: "unat v < 64 \<Longrightarrow> enc_char v \<noteq> CHR 0x00"
  using six_enc_char [of v] six_invalid(2) by (auto simp: word_le_nat_alt)

lemma b64_spec_not_NUL [simp]: "CHR 0x00 \<notin> set (b64_spec bs)"
  by (induction bs rule: b64_spec.induct) (auto dest: arg_cong [where f = six] simp: enc_char_not_NUL [symmetric])

text \<open>What a caller has of the encoder's buffer when it reads it as a C string.\<close>

definition b64_text :: "bytes \<Rightarrow> string" where
  "b64_text bs = c_str (snd (Base64encode bs (int (length bs))))"

definition b64_value :: "string \<Rightarrow> unit + bytes" where
  "b64_value s = (let (n, out) = Base64decode s in Inr (take (nat n) out))"

definition int_sized :: "bytes \<Rightarrow> bool" where
  "int_sized bs \<longleftrightarrow> length bs \<le> 1610612733"

lemma b64_text_spec: "int_sized bs \<Longrightarrow> b64_text bs = b64_spec bs"
  by (simp add: b64_text_def int_sized_def Base64encode_spec)

interpretation b64_codec: codec int_sized b64_text b64_value
  by unfold_locales (simp add: b64_text_spec b64_value_def int_sized_def Base64decode_spec)

section \<open>Properties\<close>

text \<open>C14: as long as the size of the text fits an \<^verbatim>\<open>int\<close>, which is up to 1610612733 bytes of input,
  \<^verbatim>\<open>Base64encode\<close> writes exactly the base64 text of RFC 4648 with its padding and a NUL,
  although the code shifts sign-extended characters, and returns the size that \<^verbatim>\<open>Base64encode_len\<close> announces.\<close>

theorem Base64encode_is_rfc4648:
  assumes "length bs \<le> 1610612733"
  shows "Base64encode bs (int (length bs)) = (Base64encode_len (int (length bs)), b64_spec bs @ [CHR 0x00]) \<and>
    Base64encode_len (int (length bs)) = int (length (b64_spec bs)) + 1"
proof -
  let ?n = "int (length bs)"
  have q: "(?n + 2) div 3 = int ((length bs + 2) div 3)" by simp
  have "(?n + 2) div 3 \<le> 536870911" using assms by simp
  moreover have "0 \<le> (?n + 2) div 3" by simp
  ultimately have "to_int32 (?n + 2) sdiv 3 = (?n + 2) div 3" "to_int32 ((?n + 2) div 3 * 4) = (?n + 2) div 3 * 4"
    "to_int32 ((?n + 2) div 3 * 4 + 1) = (?n + 2) div 3 * 4 + 1"
    using assms by (simp_all add: sdiv_nonneg del: of_nat_add)
  then have "Base64encode_len ?n = int (length (b64_spec bs)) + 1"
    by (simp only: Base64encode_len_def length_b64_spec q of_nat_mult of_nat_numeral)
  with assms show ?thesis by (simp add: Base64encode_spec)
qed

text \<open>The text of RFC 4648, section 10.\<close>

theorem Base64encode_is_rfc4648_witness:
  "Base64encode (bytes_of_str ''fooba'') 5 = (9, ''Zm9vYmE='' @ [CHR 0x00])"
proof -
  have "b64_spec (bytes_of_str ''fooba'') = ''Zm9vYmE=''" by code_simp
  with Base64encode_is_rfc4648 [of "bytes_of_str ''fooba''"] show ?thesis by simp
qed

text \<open>C15: round trip, for inputs of up to 1610612733 bytes. \<^verbatim>\<open>Base64decode\<close> of the C string that
  \<^verbatim>\<open>Base64encode\<close> wrote returns the number of bytes encoded and writes those bytes and a NUL.\<close>

theorem Base64_roundtrip:
  assumes "length bs \<le> 1610612733"
  shows "Base64decode (c_str (snd (Base64encode bs (int (length bs))))) = (int (length bs), bs @ [0])"
  using assms by (simp add: Base64encode_spec Base64decode_spec)

theorem Base64_roundtrip_witness:
  "Base64decode (c_str (snd (Base64encode [0xFF, 0x00, 0x80] (int (length [0xFF :: byte, 0x00, 0x80]))))) =
    (int (length [0xFF :: byte, 0x00, 0x80]), [0xFF, 0x00, 0x80] @ [0])"
  by (rule Base64_roundtrip) simp

text \<open>C16: on any string of less than 2^31 - 3 characters, valid base64 or not, \<^verbatim>\<open>Base64decode\<close> returns one less
  than the number of bytes it writes, and writes at most the \<^verbatim>\<open>Base64decode_len\<close> bytes that a caller reserves.\<close>

theorem Base64decode_fits:
  assumes "length s < 2 ^ 31 - 3"
  shows "fst (Base64decode s) = int (length (snd (Base64decode s))) - 1 \<and>
    int (length (snd (Base64decode s))) \<le> Base64decode_len s"
  using Base64decode_sizes [OF _ assms, of "fst (Base64decode s)" "snd (Base64decode s)"] by simp

theorem Base64decode_fits_witness:
  "fst (Base64decode ''Zm9v!'') = int (length (snd (Base64decode ''Zm9v!''))) - 1 \<and>
    int (length (snd (Base64decode ''Zm9v!''))) \<le> Base64decode_len ''Zm9v!''"
  by (rule Base64decode_fits) simp

text \<open>Two inputs of such sizes that \<^verbatim>\<open>Base64encode\<close> encodes to the same text are the same.\<close>

theorem Base64encode_injective:
  assumes "length bs \<le> 1610612733" and "length cs \<le> 1610612733"
    and "c_str (snd (Base64encode bs (int (length bs)))) = c_str (snd (Base64encode cs (int (length cs))))"
  shows "bs = cs"
  using b64_codec.enc_inj [of bs cs] assms by (simp add: b64_text_def int_sized_def)

text \<open>Beyond the bound the size that is returned does not fit and wraps to a negative number.\<close>

theorem Base64encode_size_wraps:
  "Base64encode (replicate 1610612734 b) 1610612734 = (- 2147483647, b64_spec (replicate 1610612734 b) @ [CHR 0x00])"
proof -
  have "to_int32 2147483649 = - 2147483647" by (simp add: to_int32_def)
  then show ?thesis
    using Base64encode_wraps [of "replicate 1610612734 b"] by (simp add: length_b64_spec)
qed

end
