(* ===== verification/Fips_Sha1.thy ===== *)
theory Fips_Sha1
  imports Ws_Prelude
begin

text \<open>
  SHA-1 of FIPS 180-4 as a function on byte lists, for \<open>Sha1_Hash\<close> to compare the code with, and test
  vectors that check it. The kernel computes with integer numerals much faster than with words, so
  for the vectors the block function is followed on integers, the values of its words.
\<close>

unbundle bit_operations_syntax

section \<open>The standard\<close>

text \<open>
  The functions, constants and message schedule of sections 4.1.1, 4.2.1 and 6.1.2 of the
  standard, the initial hash value of 5.3.1 and the padding of section 5.1.1, on messages of whole bytes. Nothing here
  is taken from the code; the test vectors at the end check it against values of the standard.
\<close>

definition fips_H0 :: "u32 list" where
  "fips_H0 = [0x67452301, 0xEFCDAB89, 0x98BADCFE, 0x10325476, 0xC3D2E1F0]"

definition fips_K :: "nat \<Rightarrow> u32" where
  "fips_K t =
     (if t \<le> 19 then 0x5A827999 else if t \<le> 39 then 0x6ED9EBA1
      else if t \<le> 59 then 0x8F1BBCDC else 0xCA62C1D6)"

type_synonym regs = "u32 \<times> u32 \<times> u32 \<times> u32 \<times> u32"

definition fips_f :: "nat \<Rightarrow> u32 \<Rightarrow> u32 \<Rightarrow> u32 \<Rightarrow> u32" where
  "fips_f t x y z =
     (if t < 20 then (x AND y) XOR (NOT x AND z)
      else if 40 \<le> t \<and> t < 60 then (x AND y) XOR (x AND z) XOR (y AND z)
      else x XOR y XOR z)"

definition be32 :: "byte \<Rightarrow> byte \<Rightarrow> byte \<Rightarrow> byte \<Rightarrow> u32" where
  "be32 a b c d = push_bit 24 (ucast a) OR push_bit 16 (ucast b) OR push_bit 8 (ucast c) OR ucast d"

fun be_words :: "bytes \<Rightarrow> u32 list" where
  "be_words (a # b # c # d # rest) = be32 a b c d # be_words rest"
| "be_words _ = []"

definition be_bytes :: "u32 \<Rightarrow> bytes" where
  "be_bytes w = [ucast (drop_bit 24 w), ucast (drop_bit 16 w), ucast (drop_bit 8 w), ucast w]"

primrec schedule :: "u32 list \<Rightarrow> nat \<Rightarrow> u32 list" where
  "schedule M 0 = M"
| "schedule M (Suc n) =
     (let ws = schedule M n
      in ws @ [word_rotl 1 (ws ! (n + 13) XOR ws ! (n + 8) XOR ws ! (n + 2) XOR ws ! n)])"

definition fips_step :: "u32 list \<Rightarrow> nat \<Rightarrow> regs \<Rightarrow> regs" where
  "fips_step ws t = (\<lambda>(a, b, c, d, e).
     (word_rotl 5 a + fips_f t b c d + e + fips_K t + ws ! t, a, word_rotl 30 b, c, d))"

definition fips_block :: "u32 list \<Rightarrow> bytes \<Rightarrow> u32 list" where
  "fips_block H M =
     (case fold (fips_step (schedule (be_words M) 64)) [0..<80] (H ! 0, H ! 1, H ! 2, H ! 3, H ! 4)
      of (a, b, c, d, e) \<Rightarrow> [a + H ! 0, b + H ! 1, c + H ! 2, d + H ! 3, e + H ! 4])"

function fips_blocks :: "u32 list \<Rightarrow> bytes \<Rightarrow> u32 list" where
  "fips_blocks H bs =
     (if length bs < 64 then H else fips_blocks (fips_block H (take 64 bs)) (drop 64 bs))"
  by pat_completeness auto
termination
  by (relation "measure (\<lambda>(H, bs). length bs)") auto

declare fips_blocks.simps [simp del]

definition be64_bytes :: "u64 \<Rightarrow> bytes" where
  "be64_bytes w = be_bytes (ucast (drop_bit 32 w)) @ be_bytes (ucast w)"

definition fips_pad :: "u64 \<Rightarrow> bytes \<Rightarrow> bytes" where
  "fips_pad bits msg =
     msg @ [0x80] @ replicate ((119 - length msg mod 64) mod 64) 0 @ be64_bytes bits"

definition fips_sha1 :: "bytes \<Rightarrow> bytes" where
  "fips_sha1 msg =
     concat (map be_bytes (fips_blocks fips_H0 (fips_pad (word_of_nat (8 * length msg)) msg)))"

lemma length_schedule [simp]: "length (schedule M n) = length M + n"
  by (induction n) (simp_all add: Let_def)

section \<open>The block function on integers\<close>

definition int_rotl :: "nat \<Rightarrow> int \<Rightarrow> int" where
  "int_rotl n x = take_bit 32 (push_bit n x) OR drop_bit (32 - n) x"

definition int_f :: "nat \<Rightarrow> int \<Rightarrow> int \<Rightarrow> int \<Rightarrow> int" where
  "int_f t x y z =
     (if t < 20 then z XOR (x AND (y XOR z))
      else if 40 \<le> t \<and> t < 60 then (x AND y) XOR (x AND z) XOR (y AND z)
      else x XOR y XOR z)"

definition int_K :: "nat \<Rightarrow> int" where
  "int_K t =
     (if t \<le> 19 then 0x5A827999 else if t \<le> 39 then 0x6ED9EBA1
      else if t \<le> 59 then 0x8F1BBCDC else 0xCA62C1D6)"

type_synonym int_regs = "int \<times> int \<times> int \<times> int \<times> int"

definition int_step :: "int list \<Rightarrow> nat \<Rightarrow> int_regs \<Rightarrow> int_regs" where
  "int_step ws t = (\<lambda>(a, b, c, d, e).
     (take_bit 32 (int_rotl 5 a + int_f t b c d + e + int_K t + ws ! t), a, int_rotl 30 b, c, d))"

primrec int_schedule :: "int list \<Rightarrow> nat \<Rightarrow> int list" where
  "int_schedule M 0 = M"
| "int_schedule M (Suc n) =
     (let ws = int_schedule M n
      in ws @ [int_rotl 1 (ws ! (n + 13) XOR ws ! (n + 8) XOR ws ! (n + 2) XOR ws ! n)])"

fun int_words :: "int list \<Rightarrow> int list" where
  "int_words (a # b # c # d # rest) = (push_bit 24 a OR push_bit 16 b OR push_bit 8 c OR d) # int_words rest"
| "int_words _ = []"

definition int_block :: "int list \<Rightarrow> int list \<Rightarrow> int list" where
  "int_block H M =
     (case fold (int_step (int_schedule (int_words M) 64)) [0..<80] (H ! 0, H ! 1, H ! 2, H ! 3, H ! 4)
      of (a, b, c, d, e) \<Rightarrow> map (take_bit 32) [a + H ! 0, b + H ! 1, c + H ! 2, d + H ! 3, e + H ! 4])"

section \<open>It follows the words\<close>

lemma word_rotl_bits:
  fixes w :: u32
  assumes "0 < n" and "n < 32"
  shows "word_rotl n w = push_bit n w OR drop_bit (32 - n) w"
proof (rule bit_word_eqI)
  fix m assume "m < LENGTH(32)"
  then have m: "m < 32" by simp
  have rot: "(m + (32 - n)) mod 32 = (if n \<le> m then m - n else m + (32 - n))"
    using m assms by (auto simp: mod_if)
  have high: "\<not> bit w (m + (32 - n))" if "n \<le> m"
    using that assms by (intro bit_u32_beyond) linarith
  have "bit (word_rotl n w) m \<longleftrightarrow> m < 32 \<and> bit w ((m + (32 - n mod 32)) mod 32)"
    unfolding bit_word_rotl_iff by simp
  then have r: "bit (word_rotl n w) m = bit w (if n \<le> m then m - n else m + (32 - n))"
    by (simp only: mod_less [OF assms(2)] rot m simp_thms)
  have "bit (push_bit n w OR drop_bit (32 - n) w) m \<longleftrightarrow> n \<le> m \<and> bit w (m - n) \<or> bit w (m + (32 - n))"
    using m by (simp add: bit_or_iff bit_push_bit_iff bit_drop_bit_eq comp_def add.commute)
  with high show "bit (word_rotl n w) m = bit (push_bit n w OR drop_bit (32 - n) w) m"
    unfolding r by (cases "n \<le> m") simp_all
qed

lemma uint_rotl:
  assumes "0 < n" and "n < 32"
  shows "uint (word_rotl n (w :: u32)) = int_rotl n (uint w)"
proof -
  have "take_bit 32 (uint w) = uint w" using uint_lt2p [of w] by (simp add: take_bit_int_eq_self)
  then show ?thesis
    by (simp add: word_rotl_bits [OF assms] int_rotl_def unsigned_or_eq unsigned_push_bit_eq unsigned_drop_bit_eq)
qed

lemma uint_f: "uint (fips_f t x y z) = int_f t (uint x) (uint y) (uint z)"
proof -
  have "(x AND y) XOR (NOT x AND z) = z XOR (x AND (y XOR z))"
    by (rule bit_word_eqI) (auto simp: bit_simps)
  then show ?thesis
    by (simp add: fips_f_def int_f_def unsigned_and_eq unsigned_xor_eq)
qed

lemma uint_K: "uint (fips_K t) = int_K t"
  by (simp add: fips_K_def int_K_def)

definition int_of_regs :: "regs \<Rightarrow> int_regs" where
  "int_of_regs = (\<lambda>(a, b, c, d, e). (uint a, uint b, uint c, uint d, uint e))"

lemma uint_add: "uint (x + y) = take_bit 32 (uint x + uint y)" for x y :: u32
  by (simp add: uint_word_ariths take_bit_eq_mod)

lemma uint_step: "t < length ws \<Longrightarrow> int_of_regs (fips_step ws t r) = int_step (map uint ws) t (int_of_regs r)"
  by (cases r)
    (simp add: int_of_regs_def fips_step_def int_step_def uint_add uint_rotl uint_f uint_K take_bit_eq_mod mod_simps)

lemma uint_steps:
  "\<forall>t \<in> set ts. t < length ws \<Longrightarrow>
    int_of_regs (fold (fips_step ws) ts r) = fold (int_step (map uint ws)) ts (int_of_regs r)"
  by (induction ts arbitrary: r) (simp_all add: uint_step)

lemma uint_schedule: "length M = 16 \<Longrightarrow> map uint (schedule M n) = int_schedule (map uint M) n"
proof (induction n)
  case (Suc n)
  then have "length (schedule M n) = 16 + n" by simp
  then show ?case
    using Suc by (simp add: Let_def uint_rotl unsigned_xor_eq flip: Suc.IH)
qed simp

lemma uint_be32:
  "uint (be32 a b c d) = push_bit 24 (uint a) OR push_bit 16 (uint b) OR push_bit 8 (uint c) OR uint d"
  by (rule bit_eqI) (auto simp: be32_def bit_simps dest: bit_imp_le_length)

lemma uint_words: "map uint (be_words bs) = int_words (map uint bs)"
  by (induction bs rule: be_words.induct) (simp_all add: uint_be32)

lemma length_be_words: "length (be_words bs) = length bs div 4"
  by (induction bs rule: be_words.induct) simp_all

lemma uint_block:
  assumes "length M = 64" and "length H = 5"
  shows "map uint (fips_block H M) = int_block (map uint H) (map uint M)"
proof -
  have len: "length (be_words M) = 16" using assms(1) by (simp add: length_be_words)
  obtain a b c d e where r: "fold (fips_step (schedule (be_words M) 64)) [0..<80] (H ! 0, H ! 1, H ! 2, H ! 3, H ! 4) = (a, b, c, d, e)"
    by (metis prod_cases5)
  have "int_of_regs (a, b, c, d, e) =
      fold (int_step (map uint (schedule (be_words M) 64))) [0..<80] (int_of_regs (H ! 0, H ! 1, H ! 2, H ! 3, H ! 4))"
    unfolding r [symmetric] using len by (intro uint_steps) simp
  then have "fold (int_step (int_schedule (int_words (map uint M)) 64)) [0..<80]
      (map uint H ! 0, map uint H ! 1, map uint H ! 2, map uint H ! 3, map uint H ! 4) = (uint a, uint b, uint c, uint d, uint e)"
    using assms(2) by (simp add: uint_schedule [OF len] uint_words int_of_regs_def)
  then show ?thesis
    using assms(2) by (simp add: fips_block_def r int_block_def uint_add del: One_nat_def)
qed

section \<open>Test vectors\<close>

lemma word_list_eqI: "map uint xs = map uint ys \<Longrightarrow> xs = (ys :: u32 list)"
  by (rule map_injective) (auto intro!: injI simp: word_uint_eq_iff)

lemma block_value:
  "length M = 64 \<Longrightarrow> length H = 5 \<Longrightarrow> int_block (map uint H) (map uint M) = map uint R \<Longrightarrow> fips_block H M = R"
  by (rule word_list_eqI) (simp add: uint_block)

lemma fips_blocks_one: "length bs = 64 \<Longrightarrow> fips_blocks H bs = fips_block H bs"
  by (simp add: fips_blocks.simps [of H bs] fips_blocks.simps [of _ "[]"])

text \<open>The example of the standard, \<^verbatim>\<open>abc\<close>, which takes one block.\<close>

lemma abc_block:
  "fips_block fips_H0 ([0x61, 0x62, 0x63, 0x80] @ replicate 59 0 @ [24]) =
    [0xA9993E36, 0x4706816A, 0xBA3E2571, 0x7850C26C, 0x9CD0D89D]"
  by (rule block_value) code_simp+

lemma abc_digest:
  "fips_sha1 [0x61, 0x62, 0x63] =
    [0xA9, 0x99, 0x3E, 0x36, 0x47, 0x06, 0x81, 0x6A, 0xBA, 0x3E, 0x25, 0x71, 0x78, 0x50, 0xC2, 0x6C, 0x9C, 0xD0, 0xD8, 0x9D]"
proof -
  have "fips_pad 24 [0x61, 0x62, 0x63] = [0x61, 0x62, 0x63, 0x80] @ replicate 59 0 @ [24]" by code_simp
  then have "fips_sha1 [0x61, 0x62, 0x63] = concat (map be_bytes [0xA9993E36, 0x4706816A, 0xBA3E2571, 0x7850C26C, 0x9CD0D89D])"
    by (simp add: fips_sha1_def fips_blocks_one abc_block [simplified])
  then show ?thesis by (simp add: be_bytes_def)
qed

text \<open>A message of two blocks, the key of the example of RFC 6455 with its identifier behind it.\<close>

lemma accept_blocks:
  "fips_sha1 (bytes_of_str ''dGhlIHNhbXBsZSBub25jZQ==258EAFA5-E914-47DA-95CA-C5AB0DC85B11'') =
    [0xB3, 0x7A, 0x4F, 0x2C, 0xC0, 0x62, 0x4F, 0x16, 0x90, 0xF6, 0x46, 0x06, 0xCF, 0x38, 0x59, 0x45, 0xB2, 0xBE, 0xC4, 0xEA]"
proof -
  let ?m = "bytes_of_str ''dGhlIHNhbXBsZSBub25jZQ==258EAFA5-E914-47DA-95CA-C5AB0DC85B11''"
  let ?b = "?m @ [0x80, 0, 0, 0]" and ?c = "replicate 62 0 @ [0x01, 0xE0]"
  have "fips_pad 480 ?m = ?b @ ?c" by code_simp
  moreover have "fips_block fips_H0 ?b = [0x5BCF7727, 0x7327416A, 0xBE7BFBF9, 0x5A781878, 0x5E46A4E2]"
    by (rule block_value) code_simp+
  moreover have "fips_block [0x5BCF7727, 0x7327416A, 0xBE7BFBF9, 0x5A781878, 0x5E46A4E2] ?c =
      [0xB37A4F2C, 0xC0624F16, 0x90F64606, 0xCF385945, 0xB2BEC4EA]"
    by (rule block_value) code_simp+
  moreover have "length ?m = 60" by simp
  ultimately have "fips_sha1 ?m = concat (map be_bytes [0xB37A4F2C, 0xC0624F16, 0x90F64606, 0xCF385945, 0xB2BEC4EA])"
    by (simp add: fips_sha1_def fips_blocks.simps [of fips_H0] fips_blocks_one del: replicate.simps)
  then show ?thesis by (simp add: be_bytes_def)
qed

end
