(* ===== verification/Sha1_Hash.thy ===== *)
theory Sha1_Hash
  imports Fips_Sha1
begin

text \<open>
  SHA-1 as src/src/sha1_portable.cpp (declared in src/src/sha1.h) computes it: class
  \<^verbatim>\<open>SecureHashAlgorithm\<close> with its byte-wise input, its union of the message block \<^verbatim>\<open>M\<close> and
  the word array \<^verbatim>\<open>W\<close>, and its in-place byte swaps, and the proof that the class computes the SHA-1 of
  FIPS 180-4 (\<open>Fips_Sha1\<close>), whatever the union held before.
\<close>

unbundle bit_operations_syntax

section \<open>The class\<close>

text \<open>
  The union \<^verbatim>\<open>{ uint32_t W[80]; uint8_t M[64]; }\<close> is kept as its words \<open>sW\<close>; \<^verbatim>\<open>M[i]\<close> is
  byte \<open>i mod 4\<close> of word \<open>i div 4\<close>, the least significant byte first (a little-endian
  machine, as the byte swaps of the code assume).
\<close>

record SecureHashAlgorithm =
  sA :: u32
  sB :: u32
  sC :: u32
  sD :: u32
  sE :: u32
  sH :: "u32 list"
  sW :: "u32 list"
  cursor :: nat
  sl :: u32

definition sha_f :: "nat \<Rightarrow> u32 \<Rightarrow> u32 \<Rightarrow> u32 \<Rightarrow> u32" where
  "sha_f t B C D =
     (if t < 20 then (B AND C) OR (NOT B AND D)
      else if t < 40 then B XOR C XOR D
      else if t < 60 then (B AND C) OR (B AND D) OR (C AND D)
      else B XOR C XOR D)"

definition sha_S :: "nat \<Rightarrow> u32 \<Rightarrow> u32" where
  "sha_S n X = push_bit n X OR drop_bit (32 - n) X"

definition sha_K :: "nat \<Rightarrow> u32" where
  "sha_K t =
     (if t < 20 then 0x5a827999 else if t < 40 then 0x6ed9eba1
      else if t < 60 then 0x8f1bbcdc else 0xca62c1d6)"

definition swapends :: "u32 \<Rightarrow> u32" where
  "swapends t =
     drop_bit 24 (t AND 0xff000000) OR drop_bit 8 (t AND 0xff0000) OR
     push_bit 8 (t AND 0xff00) OR push_bit 24 (t AND 0xff)"

definition sha_H0 :: "u32 list" where
  "sha_H0 = [0x67452301, 0xefcdab89, 0x98badcfe, 0x10325476, 0xc3d2e1f0]"

text \<open>The constructor leaves the union uninitialised: its content \<open>junk\<close> is an argument.\<close>

definition sha_Init :: "u32 list \<Rightarrow> SecureHashAlgorithm" where
  "sha_Init junk =
     \<lparr>sA = 0, sB = 0, sC = 0, sD = 0, sE = 0, sH = sha_H0, sW = junk, cursor = 0, sl = 0\<rparr>"

definition set_byte :: "u32 \<Rightarrow> nat \<Rightarrow> byte \<Rightarrow> u32" where
  "set_byte w k b = (w AND NOT (push_bit (8 * k) 0xFF)) OR push_bit (8 * k) (ucast b)"

definition put_M :: "nat \<Rightarrow> byte \<Rightarrow> SecureHashAlgorithm \<Rightarrow> SecureHashAlgorithm" where
  "put_M i b s = s\<lparr>sW := (sW s)[i div 4 := set_byte (sW s ! (i div 4)) (i mod 4) b]\<rparr>"

text \<open>\<^verbatim>\<open>M[cursor++] = b\<close>\<close>

definition push_M :: "byte \<Rightarrow> SecureHashAlgorithm \<Rightarrow> SecureHashAlgorithm" where
  "push_M b s = (put_M (cursor s) b s)\<lparr>cursor := cursor s + 1\<rparr>"

definition sha_step :: "u32 list \<Rightarrow> nat \<Rightarrow> regs \<Rightarrow> regs" where
  "sha_step W t = (\<lambda>(A, B, C, D, E).
     let TEMP = sha_S 5 A + sha_f t B C D + E + W ! t + sha_K t
     in (TEMP, A, sha_S 30 B, C, D))"

definition sha_Process :: "SecureHashAlgorithm \<Rightarrow> SecureHashAlgorithm" where
  "sha_Process s =
     (let W = fold (\<lambda>t W. W[t := swapends (W ! t)]) [0..<16] (sW s);
          W = fold (\<lambda>t W. W[t := sha_S 1 (W ! (t - 3) XOR W ! (t - 8) XOR W ! (t - 14) XOR W ! (t - 16))])
                [16..<80] W;
          H = sH s;
          (A, B, C, D, E) = fold (sha_step W) [0..<80] (H ! 0, H ! 1, H ! 2, H ! 3, H ! 4)
      in s\<lparr>sA := A, sB := B, sC := C, sD := D, sE := E,
           sH := [H ! 0 + A, H ! 1 + B, H ! 2 + C, H ! 3 + D, H ! 4 + E],
           sW := W, cursor := 0\<rparr>)"

fun sha_Update :: "bytes \<Rightarrow> SecureHashAlgorithm \<Rightarrow> SecureHashAlgorithm" where
  "sha_Update [] s = s"
| "sha_Update (d # ds) s =
     (let s = push_M d s;
          s = (if cursor s \<ge> 64 then sha_Process s else s);
          s = s\<lparr>sl := sl s + 8\<rparr>
      in sha_Update ds s)"

text \<open>\<^verbatim>\<open>while (cursor < n) M[cursor++] = 0\<close>\<close>

function fill_zero :: "nat \<Rightarrow> SecureHashAlgorithm \<Rightarrow> SecureHashAlgorithm" where
  "fill_zero n s = (if cursor s < n then fill_zero n (push_M 0 s) else s)"
  by pat_completeness auto
termination
  by (relation "measure (\<lambda>(n, s). n - cursor s)") (auto simp: push_M_def)

definition sha_Pad :: "SecureHashAlgorithm \<Rightarrow> SecureHashAlgorithm" where
  "sha_Pad s =
     (let s = push_M 0x80 s;
          s = (if cursor s > 64 - 8 then sha_Process (fill_zero 64 s) else s);
          s = fill_zero (64 - 4) s;
          s = put_M (64 - 4) (ucast (drop_bit 24 (sl s AND 0xff000000))) s;
          s = put_M (64 - 3) (ucast (drop_bit 16 (sl s AND 0xff0000))) s;
          s = put_M (64 - 2) (ucast (drop_bit 8 (sl s AND 0xff00))) s
      in put_M (64 - 1) (ucast (sl s AND 0xff)) s)"

definition sha_Final :: "SecureHashAlgorithm \<Rightarrow> SecureHashAlgorithm" where
  "sha_Final s =
     (let s = sha_Process (sha_Pad s) in s\<lparr>sH := map swapends (sH s)\<rparr>)"

definition le_bytes :: "u32 \<Rightarrow> bytes" where
  "le_bytes w = [ucast w, ucast (drop_bit 8 w), ucast (drop_bit 16 w), ucast (drop_bit 24 w)]"

text \<open>\<^verbatim>\<open>reinterpret_cast<const unsigned char*>(H)\<close>\<close>

definition sha_Digest :: "SecureHashAlgorithm \<Rightarrow> bytes" where
  "sha_Digest s = concat (map le_bytes (sH s))"

definition SHA1HashBytes :: "u32 list \<Rightarrow> bytes \<Rightarrow> bytes" where
  "SHA1HashBytes junk bs = sha_Digest (sha_Final (sha_Update bs (sha_Init junk)))"

definition SHA1HashString :: "u32 list \<Rightarrow> string \<Rightarrow> string" where
  "SHA1HashString junk str = str_of_bytes (SHA1HashBytes junk (bytes_of_str str))"

declare fill_zero.simps [simp del]

section \<open>Words\<close>

lemma sha_S_rotl: "0 < n \<Longrightarrow> n < 32 \<Longrightarrow> sha_S n w = word_rotl n w"
  by (simp add: sha_S_def word_rotl_bits)

lemma sha_K_fips: "sha_K t = fips_K t"
  by (simp add: sha_K_def fips_K_def)

lemma sha_H0_fips: "sha_H0 = fips_H0"
  by (simp add: sha_H0_def fips_H0_def)

lemma sha_f_fips: "sha_f t x y z = fips_f t x y z"
  by (auto simp: sha_f_def fips_f_def bit_simps intro: bit_word_eqI)

lemma swapends_be32:
  "swapends w = be32 (ucast w) (ucast (drop_bit 8 w)) (ucast (drop_bit 16 w)) (ucast (drop_bit 24 w))"
  by (simp add: swapends_def be32_def word_bits)

lemma le_bytes_swapends: "le_bytes (swapends w) = be_bytes w"
  by (simp add: swapends_def le_bytes_def be_bytes_def word_bits)

section \<open>One block\<close>

lemma sha_step_fips: "sha_step W t r = fips_step W t r"
  by (cases r) (simp add: sha_step_def fips_step_def sha_S_rotl sha_f_fips sha_K_fips Let_def ac_simps)

lemma fold_swapends:
  assumes "n \<le> length W"
  shows "fold (\<lambda>t W. W[t := g (W ! t)]) [0..<n] W = map g (take n W) @ drop n W"
  using assms
proof (induction n)
  case (Suc n)
  then have "n < length W" by simp
  with Suc show ?case
    by (simp add: nth_append list_update_append take_Suc_conv_app_nth Cons_nth_drop_Suc [symmetric])
qed simp

definition expand_step :: "nat \<Rightarrow> u32 list \<Rightarrow> u32 list" where
  "expand_step t W = W[t := sha_S 1 (W ! (t - 3) XOR W ! (t - 8) XOR W ! (t - 14) XOR W ! (t - 16))]"

lemma fold_schedule:
  assumes "length W = 80" and "n \<le> 64"
  shows "fold expand_step [16..<16 + n] W = schedule (take 16 W) n @ drop (16 + n) W"
  using assms(2)
proof (induction n)
  case 0
  then show ?case by simp
next
  case (Suc n)
  let ?ws = "schedule (take 16 W) n"
  have len: "length ?ws = 16 + n" using assms(1) by simp
  have IH: "fold expand_step [16..<16 + n] W = ?ws @ drop (16 + n) W"
    using Suc by simp
  have at: "(?ws @ drop (16 + n) W) ! (16 + n - k) = ?ws ! (16 + n - k)" if "0 < k" "k \<le> 16" for k
    using that len by (simp add: nth_append)
  have "drop (16 + n) W = W ! (16 + n) # drop (16 + Suc n) W"
    using assms(1) Suc.prems Cons_nth_drop_Suc [of "16 + n" W] by simp
  moreover have "[16..<16 + Suc n] = [16..<16 + n] @ [16 + n]"
    by (simp only: add_Suc_right upt_Suc_append le_add1)
  then have "fold expand_step [16..<16 + Suc n] W = expand_step (16 + n) (?ws @ drop (16 + n) W)"
    by (simp only: fold_append comp_apply fold_simps IH)
  moreover have "\<dots> = (?ws @ drop (16 + n) W)[16 + n :=
      word_rotl 1 (?ws ! (n + 13) XOR ?ws ! (n + 8) XOR ?ws ! (n + 2) XOR ?ws ! n)]"
    using at [of 3] at [of 8] at [of 14] at [of 16]
    by (simp add: expand_step_def sha_S_rotl add.commute)
  ultimately show ?case
    using len by (simp add: list_update_append Let_def)
qed

text \<open>The 64 bytes of the union through \<^verbatim>\<open>M\<close>.\<close>

definition M_view :: "u32 list \<Rightarrow> bytes" where
  "M_view W = map (\<lambda>i. ucast (drop_bit (8 * (i mod 4)) (W ! (i div 4)))) [0..<64]"

lemma length_M_view [simp]: "length (M_view W) = 64"
  by (simp add: M_view_def)

lemma set_byte_get:
  assumes "j < 4" and "k < 4"
  shows "(ucast (drop_bit (8 * j) (set_byte w k b)) :: byte) =
    (if j = k then b else ucast (drop_bit (8 * j) w))"
proof -
  have "k = 0 \<or> k = 1 \<or> k = 2 \<or> k = 3" and "j = 0 \<or> j = 1 \<or> j = 2 \<or> j = 3"
    using assms by linarith+
  then show ?thesis
    by (elim disjE) (simp_all add: set_byte_def word_bits)
qed

lemma M_view_put:
  assumes "length (sW s) = 80" and "i < 64"
  shows "M_view (sW (put_M i b s)) = (M_view (sW s))[i := b]"
proof (rule nth_equalityI)
  fix j assume "j < length (M_view (sW (put_M i b s)))"
  then have j: "j < 64" by simp
  have eq: "j = i \<longleftrightarrow> j div 4 = i div 4 \<and> j mod 4 = i mod 4"
    by (metis div_mult_mod_eq)
  show "M_view (sW (put_M i b s)) ! j = (M_view (sW s))[i := b] ! j"
  proof (cases "j div 4 = i div 4")
    case True
    then show ?thesis
      using assms j eq by (auto simp: M_view_def put_M_def set_byte_get nth_list_update)
  next
    case False
    then have "j \<noteq> i" by auto
    with False show ?thesis
      using assms j by (simp add: M_view_def put_M_def)
  qed
qed simp

lemma upt_16: "[0..<16] =
  [0, 1, 2, 3, 4, 5, 6, 7, 8, 9, 10, 11, 12, 13, 14, 15]"
  by code_simp

lemma upt_64: "[0..<64] =
  [0, 1, 2, 3, 4, 5, 6, 7, 8, 9, 10, 11, 12, 13, 14, 15, 16, 17, 18, 19, 20, 21, 22, 23, 24,
   25, 26, 27, 28, 29, 30, 31, 32, 33, 34, 35, 36, 37, 38, 39, 40, 41, 42, 43, 44, 45, 46,
   47, 48, 49, 50, 51, 52, 53, 54, 55, 56, 57, 58, 59, 60, 61, 62, 63]"
  by code_simp

lemma be_words_M_view:
  assumes "16 \<le> length W"
  shows "be_words (M_view W) = map swapends (take 16 W)"
proof -
  have "take 16 W = map (\<lambda>t. W ! t) [0..<16]"
    using assms by (intro nth_equalityI) auto
  then show ?thesis
    by (simp add: M_view_def upt_64 upt_16 swapends_be32)
qed

text \<open>\<^verbatim>\<open>Process()\<close> is the block function of the standard on the bytes of the union.\<close>

lemma sha_Process_spec:
  assumes "length (sW s) = 80"
  shows "sH (sha_Process s) = fips_block (sH s) (M_view (sW s))"
    and "cursor (sha_Process s) = 0" and "sl (sha_Process s) = sl s"
    and "length (sW (sha_Process s)) = 80"
proof -
  let ?W1 = "map swapends (take 16 (sW s)) @ drop 16 (sW s)"
  let ?W2 = "schedule (be_words (M_view (sW s))) 64"
  have W1: "fold (\<lambda>t W. W[t := swapends (W ! t)]) [0..<16] (sW s) = ?W1"
    using assms by (intro fold_swapends) simp
  have step: "(\<lambda>t W. W[t := sha_S 1 (W ! (t - 3) XOR W ! (t - 8) XOR W ! (t - 14) XOR W ! (t - 16))])
      = expand_step"
    by (simp add: fun_eq_iff expand_step_def)
  have W2: "fold expand_step [16..<80] ?W1 = ?W2"
    using fold_schedule [of ?W1 64] assms by (simp add: be_words_M_view)
  have round: "sha_step ?W2 = fips_step ?W2"
    by (simp add: fun_eq_iff sha_step_fips)
  have len: "length ?W2 = 80"
    using assms by (simp add: be_words_M_view)
  show "sH (sha_Process s) = fips_block (sH s) (M_view (sW s))"
    and "cursor (sha_Process s) = 0" and "sl (sha_Process s) = sl s"
    and "length (sW (sha_Process s)) = 80"
    using len unfolding sha_Process_def Let_def W1 step W2 round fips_block_def
    by (simp_all split: prod.split)
qed

section \<open>The input loop and the padding\<close>

lemma zeros_mod: "r < 64 \<Longrightarrow> (119 - r) mod 64 = (if r \<le> 55 then 55 - r else 119 - r)" for r :: nat
  by (simp add: mod_if)

lemma length_fips_pad: "length (fips_pad bits msg) mod 64 = 0"
proof -
  have "(m + 9 + (119 - m mod 64) mod 64) mod 64 = 0" for m :: nat
  proof -
    define q r where "q = m div 64" and "r = m mod 64"
    have m: "m = 64 * q + r" and r: "r < 64" by (simp_all add: q_def r_def)
    have "m + 9 + (119 - r) mod 64 = 64 * (if r \<le> 55 then q + 1 else q + 2)"
      using r unfolding zeros_mod [OF r] m by auto
    then have "(m + 9 + (119 - r) mod 64) mod 64 = 0"
      by (simp only: mod_mult_self1_is_0)
    then show ?thesis by (simp only: r_def)
  qed
  then show ?thesis
    by (simp add: fips_pad_def be64_bytes_def be_bytes_def algebra_simps)
qed

lemma fips_blocks_append:
  assumes "length xs mod 64 = 0"
  shows "fips_blocks H (xs @ ys) = fips_blocks (fips_blocks H xs) ys"
  using assms
proof (induction H xs rule: fips_blocks.induct)
  case (1 H xs)
  show ?case
  proof (cases "length xs < 64")
    case True
    with "1.prems" have "xs = []" by simp
    then show ?thesis by (simp add: fips_blocks.simps [of H "[]"])
  next
    case False
    then have "length (drop 64 xs) mod 64 = 0"
      using "1.prems" by (simp add: le_mod_geq)
    with False "1.IH" show ?thesis
      by (simp add: fips_blocks.simps [of H "xs @ ys"] fips_blocks.simps [of H xs])
  qed
qed

text \<open>
  The state after the bytes \<open>bs\<close>: whole blocks \<open>xs\<close> have gone through the block function, and
  the rest \<open>ys\<close> lies in the union below the cursor.
\<close>

definition absorbed :: "bytes \<Rightarrow> SecureHashAlgorithm \<Rightarrow> bool" where
  "absorbed bs s \<longleftrightarrow> length (sW s) = 80 \<and>
     (\<exists>xs ys. bs = xs @ ys \<and> length xs mod 64 = 0 \<and> length ys = cursor s \<and> cursor s \<le> 64 \<and>
        sH s = fips_blocks fips_H0 xs \<and> take (cursor s) (M_view (sW s)) = ys)"

lemma absorbedE:
  assumes "absorbed bs s"
  obtains xs ys where "length (sW s) = 80" "bs = xs @ ys" "length xs mod 64 = 0"
    "length ys = cursor s" "sH s = fips_blocks fips_H0 xs" "take (cursor s) (M_view (sW s)) = ys"
  using assms unfolding absorbed_def by (elim conjE exE) (rule that; assumption)

lemma absorbed_Init: "length junk = 80 \<Longrightarrow> absorbed [] (sha_Init junk)"
  by (simp add: absorbed_def sha_Init_def sha_H0_fips fips_blocks.simps [of _ "[]"])

lemma sl_update_simps [simp]:
  "absorbed bs (s\<lparr>sl := x\<rparr>) = absorbed bs s"
  by (simp add: absorbed_def)

lemma put_M_simps [simp]:
  "cursor (put_M i b s) = cursor s" "sl (put_M i b s) = sl s" "sH (put_M i b s) = sH s"
  "length (sW (put_M i b s)) = length (sW s)"
  by (simp_all add: put_M_def)

lemma push_M_simps [simp]:
  "cursor (push_M b s) = cursor s + 1" "sl (push_M b s) = sl s" "sH (push_M b s) = sH s"
  "sW (push_M b s) = sW (put_M (cursor s) b s)"
  by (simp_all add: push_M_def)

lemma absorbed_push:
  assumes "absorbed bs s" and "cursor s < 64"
  shows "absorbed (bs @ [b]) (push_M b s)"
proof -
  obtain xs ys where s: "length (sW s) = 80" "bs = xs @ ys" "length xs mod 64 = 0"
    "length ys = cursor s" "sH s = fips_blocks fips_H0 xs" "take (cursor s) (M_view (sW s)) = ys"
    using assms(1) by (rule absorbedE)
  let ?L = "(M_view (sW s))[cursor s := b]"
  have "take (Suc (cursor s)) ?L = take (cursor s) ?L @ [?L ! cursor s]"
    using assms(2) by (intro take_Suc_conv_app_nth) simp
  also have "\<dots> = ys @ [b]"
    using assms(2) by (simp add: s(6))
  finally have "take (cursor s + 1) ?L = ys @ [b]"
    by simp
  then show ?thesis
    using s assms(2) unfolding absorbed_def
    by (intro conjI exI [of _ xs] exI [of _ "ys @ [b]"]) (simp_all add: M_view_put)
qed

lemma absorbed_Process:
  assumes "absorbed bs s" and "cursor s = 64"
  shows "absorbed bs (sha_Process s)"
proof -
  obtain xs ys where s: "length (sW s) = 80" "bs = xs @ ys" "length xs mod 64 = 0"
    "length ys = 64" "sH s = fips_blocks fips_H0 xs" "take 64 (M_view (sW s)) = ys"
    using assms(1) by (rule absorbedE) (use assms(2) in auto)
  then have "fips_blocks fips_H0 bs = sH (sha_Process s)"
    by (simp add: fips_blocks_append fips_blocks_one sha_Process_spec)
  with s show ?thesis unfolding absorbed_def
    by (intro conjI exI [of _ bs] exI [of _ "[]"]) (simp_all add: sha_Process_spec mod_add_eq [symmetric])
qed

lemma sha_Update_spec:
  "absorbed bs s \<Longrightarrow> cursor s < 64 \<Longrightarrow>
    absorbed (bs @ ds) (sha_Update ds s) \<and> cursor (sha_Update ds s) < 64 \<and>
    sl (sha_Update ds s) = sl s + 8 * word_of_nat (length ds)"
proof (induction ds arbitrary: bs s)
  case (Cons d ds)
  let ?p = "push_M d s"
  let ?q = "if cursor ?p \<ge> 64 then sha_Process ?p else ?p"
  have "absorbed (bs @ [d]) ?p"
    using Cons.prems by (rule absorbed_push)
  moreover from this have "length (sW ?p) = 80"
    by (rule absorbedE)
  ultimately have q: "absorbed (bs @ [d]) ?q" "cursor ?q < 64" "sl ?q = sl s"
    using Cons.prems(2) by (auto simp: sha_Process_spec simp del: push_M_simps(4) intro: absorbed_Process)
  have "absorbed ((bs @ [d]) @ ds) (sha_Update ds (?q\<lparr>sl := sl ?q + 8\<rparr>)) \<and>
      cursor (sha_Update ds (?q\<lparr>sl := sl ?q + 8\<rparr>)) < 64 \<and>
      sl (sha_Update ds (?q\<lparr>sl := sl ?q + 8\<rparr>)) = sl (?q\<lparr>sl := sl ?q + 8\<rparr>) + 8 * word_of_nat (length ds)"
    by (rule Cons.IH) (use q in simp_all)
  moreover have "sha_Update (d # ds) s = sha_Update ds (?q\<lparr>sl := sl ?q + 8\<rparr>)"
    by (simp add: Let_def)
  ultimately show ?case
    using q(3) by (simp add: distrib_left)
qed simp

lemma fill_zero_spec:
  "absorbed bs s \<Longrightarrow> cursor s \<le> n \<Longrightarrow> n \<le> 64 \<Longrightarrow>
    absorbed (bs @ replicate (n - cursor s) 0) (fill_zero n s) \<and> cursor (fill_zero n s) = n \<and>
    sl (fill_zero n s) = sl s"
proof (induction n s arbitrary: bs rule: fill_zero.induct)
  case (1 n s)
  show ?case
  proof (cases "cursor s < n")
    case True
    have "n - cursor s = Suc (n - cursor (push_M 0 s))"
      using True by simp
    moreover have "absorbed (bs @ [0]) (push_M 0 s)"
      using "1.prems" True by (intro absorbed_push) auto
    ultimately show ?thesis
      using "1.IH" [OF True, of "bs @ [0]"] "1.prems" True
      by (simp add: fill_zero.simps [of n s])
  next
    case False
    with "1.prems" show ?thesis by (simp add: fill_zero.simps [of n s])
  qed
qed

text \<open>The four bytes of the length, written without moving the cursor.\<close>

lemma sha_Process_last:
  assumes "absorbed bs s" and "cursor s = 60"
  shows "sH (sha_Process (put_M 63 d (put_M 62 c (put_M 61 b (put_M 60 a s))))) =
    fips_blocks fips_H0 (bs @ [a, b, c, d])"
proof -
  let ?puts = "put_M 63 d (put_M 62 c (put_M 61 b (put_M 60 a s)))"
  let ?pushes = "push_M d (push_M c (push_M b (push_M a s)))"
  have put: "sW (put_M i x t) = sW (put_M i x u)" if "sW t = sW u" for i x t u
    using that by (simp add: put_M_def)
  have W: "sW ?puts = sW ?pushes" and H: "sH ?puts = sH ?pushes"
    using assms(2) by (simp_all add: put_M_def)
  have "absorbed ((((bs @ [a]) @ [b]) @ [c]) @ [d]) ?pushes"
    using assms by (intro absorbed_push) simp_all
  then have pushes: "absorbed (bs @ [a, b, c, d]) ?pushes" by simp
  then have len: "length (sW ?pushes) = 80" by (rule absorbedE)
  have "sH (sha_Process ?puts) = sH (sha_Process ?pushes)"
    using sha_Process_spec(1) [of ?puts] sha_Process_spec(1) [of ?pushes] len by (simp only: W H)
  moreover have "absorbed (bs @ [a, b, c, d]) (sha_Process ?pushes)"
    using pushes assms(2) by (intro absorbed_Process) simp_all
  moreover have "cursor (sha_Process ?pushes) = 0"
    using len by (rule sha_Process_spec)
  ultimately show ?thesis
    by (auto elim!: absorbedE)
qed

lemma length_bytes_l:
  fixes l :: u32
  shows "[ucast (drop_bit 24 (l AND 0xff000000)), ucast (drop_bit 16 (l AND 0xff0000)),
      ucast (drop_bit 8 (l AND 0xff00)), ucast (l AND 0xff)] = be_bytes l"
  by (simp add: be_bytes_def word_bits)

lemma be64_bytes_ucast: "be64_bytes (ucast (l :: u32)) = replicate 4 0 @ be_bytes l"
proof -
  have "drop_bit 32 (ucast l :: u64) = 0"
    by (rule bit_word_eqI) (simp add: bit_simps bit_u32_beyond)
  moreover have "ucast (ucast l :: u64) = l"
    by (rule bit_word_eqI) (simp add: bit_simps)
  moreover have "replicate 4 x = [x, x, x, x]" for x :: byte
    by (simp add: eval_nat_numeral)
  ultimately show ?thesis
    by (simp add: be64_bytes_def be_bytes_def)
qed

lemma sha_Pad_Process:
  assumes abs: "absorbed msg s" and c: "cursor s < 64"
  shows "sH (sha_Process (sha_Pad s)) = fips_blocks fips_H0 (fips_pad (ucast (sl s)) msg)"
proof -
  define c where "c = cursor s"
  have c64: "c < 64" using assms by (simp add: c_def)
  have mod: "length msg mod 64 = c"
    using abs by (rule absorbedE) (use c64 in \<open>simp add: c_def mod_add_eq [symmetric]\<close>)
  let ?s1 = "push_M 0x80 s"
  let ?s2 = "if cursor ?s1 > 64 - 8 then sha_Process (fill_zero 64 ?s1) else ?s1"
  define z2 where "z2 = (if c + 1 > 56 then 63 - c else 0)"
  have s1: "absorbed (msg @ [0x80]) ?s1" "cursor ?s1 = c + 1" "sl ?s1 = sl s"
    using absorbed_push [OF assms] by (simp_all add: c_def)
  have s2: "absorbed (msg @ 0x80 # replicate z2 0) ?s2 \<and> sl ?s2 = sl s \<and>
      cursor ?s2 = (if c + 1 > 56 then 0 else c + 1)"
  proof (cases "c + 1 > 56")
    case True
    have f: "absorbed ((msg @ [0x80]) @ replicate (64 - cursor ?s1) 0) (fill_zero 64 ?s1) \<and>
        cursor (fill_zero 64 ?s1) = 64 \<and> sl (fill_zero 64 ?s1) = sl ?s1"
      using s1 c64 by (intro fill_zero_spec) simp_all
    then have "length (sW (fill_zero 64 ?s1)) = 80" by (auto elim: absorbedE)
    with f True s1 show ?thesis
      using absorbed_Process [of "msg @ 0x80 # replicate z2 0" "fill_zero 64 ?s1"]
      by (simp add: z2_def sha_Process_spec del: push_M_simps)
  next
    case False
    with s1 show ?thesis by (simp add: z2_def del: push_M_simps)
  qed
  let ?s3 = "fill_zero 60 ?s2"
  define z3 where "z3 = (if c + 1 > 56 then 60 else 59 - c)"
  have le: "cursor ?s2 \<le> 60" and z3: "60 - cursor ?s2 = z3"
    using conjunct2 [OF conjunct2 [OF s2]] by (auto simp: z3_def simp del: push_M_simps)
  have fill: "absorbed ((msg @ 0x80 # replicate z2 0) @ replicate (60 - cursor ?s2) 0) ?s3 \<and>
      cursor ?s3 = 60 \<and> sl ?s3 = sl ?s2"
    by (rule fill_zero_spec [OF conjunct1 [OF s2] le]) simp
  have app: "(msg @ 0x80 # replicate z2 0) @ replicate z3 0 = msg @ 0x80 # replicate (z2 + z3) (0 :: byte)"
    by (simp add: replicate_add)
  have s3: "absorbed (msg @ 0x80 # replicate (z2 + z3) 0) ?s3" "cursor ?s3 = 60" "sl ?s3 = sl s"
    using fill conjunct1 [OF conjunct2 [OF s2]] unfolding z3 app by (blast, blast, metis)
  have zeros: "z2 + z3 = (119 - length msg mod 64) mod 64 + 4"
    unfolding mod zeros_mod [OF c64] using c64 by (simp add: z2_def z3_def)
  have "sha_Pad s = put_M 63 (ucast (sl s AND 0xff)) (put_M 62 (ucast (drop_bit 8 (sl s AND 0xff00)))
      (put_M 61 (ucast (drop_bit 16 (sl s AND 0xff0000)))
      (put_M 60 (ucast (drop_bit 24 (sl s AND 0xff000000))) ?s3)))"
    using s3(3) by (simp add: sha_Pad_def Let_def del: push_M_simps)
  then have "sH (sha_Process (sha_Pad s)) =
      fips_blocks fips_H0 ((msg @ 0x80 # replicate (z2 + z3) 0) @ be_bytes (sl s))"
    by (simp only: sha_Process_last [OF s3(1,2)] length_bytes_l)
  then show ?thesis
    by (simp add: fips_pad_def be64_bytes_ucast zeros replicate_add)
qed

text \<open>
  The class hashes as the standard does, but with a message length of 32 bits: the bit count
  is taken modulo \<open>2 ^ 32\<close> and the upper half of the length field is zero.
\<close>

lemma SHA1HashBytes_spec:
  assumes "length junk = 80"
  shows "SHA1HashBytes junk msg =
    concat (map be_bytes (fips_blocks fips_H0
      (fips_pad (ucast (word_of_nat (8 * length msg) :: u32)) msg)))"
proof -
  let ?s = "sha_Update msg (sha_Init junk)"
  have "absorbed ([] @ msg) ?s \<and> cursor ?s < 64 \<and>
      sl ?s = sl (sha_Init junk) + 8 * word_of_nat (length msg)"
    using absorbed_Init [OF assms] by (intro sha_Update_spec) (simp_all add: sha_Init_def)
  then have s: "absorbed msg ?s" "cursor ?s < 64" "sl ?s = word_of_nat (8 * length msg)"
    by (simp_all add: sha_Init_def)
  show ?thesis
    using sha_Pad_Process [OF s(1,2)]
    by (simp add: SHA1HashBytes_def sha_Digest_def sha_Final_def Let_def le_bytes_swapends s(3) comp_def)
qed

lemma SHA1HashBytes_fips:
  assumes "length junk = 80" and "length msg < 2 ^ 29"
  shows "SHA1HashBytes junk msg = fips_sha1 msg"
proof -
  have "8 * length msg < 2 ^ 32" using assms(2) by simp
  moreover have "(ucast (word_of_nat n :: u32) :: u64) = word_of_nat n" if "n < 2 ^ 32" for n
    using that by (intro word_unat_eq_iff [THEN iffD2]) (simp add: unsigned_ucast_eq unsigned_of_nat take_bit_nat_eq_self)
  ultimately have "(ucast (word_of_nat (8 * length msg) :: u32) :: u64) = word_of_nat (8 * length msg)"
    by blast
  then show ?thesis
    by (simp add: SHA1HashBytes_spec [OF assms(1)] fips_sha1_def)
qed

lemma length_fips_block [simp]: "length (fips_block H M) = 5"
  by (simp add: fips_block_def split: prod.split)

lemma length_fips_blocks: "length H = 5 \<Longrightarrow> length (fips_blocks H bs) = 5"
  by (induction H bs rule: fips_blocks.induct) (simp add: fips_blocks.simps)

lemma length_digest_words: "length (concat (map be_bytes (fips_blocks fips_H0 bs))) = 20"
proof -
  have "length (concat (map be_bytes ws)) = 4 * length ws" for ws
    by (induction ws) (simp_all add: be_bytes_def)
  moreover have "length fips_H0 = 5" by (simp add: fips_H0_def)
  ultimately show ?thesis by (simp add: length_fips_blocks)
qed

lemma length_SHA1HashBytes: "length junk = 80 \<Longrightarrow> length (SHA1HashBytes junk msg) = 20"
  by (simp only: SHA1HashBytes_spec length_digest_words)

lemma length_fips_sha1: "length (fips_sha1 msg) = 20"
  by (simp only: fips_sha1_def length_digest_words)

interpretation sha1: digest "\<lambda>junk. length junk = 80" SHA1HashBytes 20
  by unfold_locales (simp add: length_SHA1HashBytes, simp add: SHA1HashBytes_spec)

section \<open>Properties\<close>

text \<open>C10: for messages of less than 2^29 bytes, \<^verbatim>\<open>SHA1HashBytes\<close> computes the SHA-1 digest of
  FIPS 180-4, whatever bytes were in the union of the hash object before. The standard is that of \<open>Fips_Sha1\<close>, with
  constants of its own; its digest of "abc" is the one the standard gives (\<open>abc_digest\<close>), which the
  instance below has the code compute.\<close>

theorem SHA1HashBytes_is_fips180:
  assumes "length junk = 80" and "length msg < 2 ^ 29"
  shows "SHA1HashBytes junk msg = fips_sha1 msg"
  using assms by (rule SHA1HashBytes_fips)

theorem SHA1HashBytes_is_fips180_witness:
  "SHA1HashBytes (replicate 80 0xDEADBEEF) [0x61, 0x62, 0x63] =
    [0xA9, 0x99, 0x3E, 0x36, 0x47, 0x06, 0x81, 0x6A, 0xBA, 0x3E, 0x25, 0x71, 0x78, 0x50, 0xC2, 0x6C, 0x9C, 0xD0, 0xD8, 0x9D]"
  using SHA1HashBytes_is_fips180 [of "replicate 80 0xDEADBEEF" "[0x61, 0x62, 0x63]"] abc_digest by simp

text \<open>C24: for a message of any size, \<^verbatim>\<open>SHA1HashBytes\<close> is the FIPS hash function with the bit
  length reduced modulo 2^32, the width of the counter \<^verbatim>\<open>l\<close>: the padding, the block structure, the constants
  and the compression are those of \<open>Fips_Sha1\<close> for long messages too.\<close>

theorem SHA1HashBytes_any_length:
  assumes "length junk = 80"
  shows "SHA1HashBytes junk msg =
    concat (map be_bytes (fips_blocks fips_H0
      (fips_pad (ucast (word_of_nat (8 * length msg) :: u32)) msg)))"
  using assms by (rule SHA1HashBytes_spec)

theorem SHA1HashBytes_any_length_witness:
  "SHA1HashBytes (replicate 80 0) (replicate 536870912 0) =
    concat (map be_bytes (fips_blocks fips_H0 (fips_pad 0 (replicate 536870912 0))))"
  using SHA1HashBytes_any_length [of "replicate 80 0" "replicate 536870912 0"] by simp

end
