(* ===== verification/Ws_Packet.thy ===== *)
theory Ws_Packet
  imports Byte_Buffer Str_Helper Base64_Codec Sha1_Hash
begin

text \<open>
  Class \<^verbatim>\<open>WebSocketPacket\<close> (src/src/ws_packet.h, src/src/ws_packet.cpp): its fields, the
  methods that parse and pack a data frame, and the methods of the handshake. A field
  \<^verbatim>\<open>name_\<close> of the class is \<open>pk_name\<close>. Methods return the packet as they leave it, and the
  buffer they read or write.
\<close>

unbundle bit_operations_syntax

section \<open>The packet\<close>

datatype WSOpcodeType =
    WSOpcode_Continue
  | WSOpcode_Text
  | WSOpcode_Binary
  | WSOpcode_Close
  | WSOpcode_Ping
  | WSOpcode_Pong

fun opcode_val :: "WSOpcodeType \<Rightarrow> byte" where
  "opcode_val WSOpcode_Continue = 0x0"
| "opcode_val WSOpcode_Text = 0x1"
| "opcode_val WSOpcode_Binary = 0x2"
| "opcode_val WSOpcode_Close = 0x8"
| "opcode_val WSOpcode_Ping = 0x9"
| "opcode_val WSOpcode_Pong = 0xA"

record WebSocketPacket =
  pk_mothod :: string
  pk_uri :: string
  pk_version :: string
  pk_params :: "string \<rightharpoonup> string"
  pk_fin :: byte
  pk_rsv1 :: byte
  pk_rsv2 :: byte
  pk_rsv3 :: byte
  pk_opcode :: byte
  pk_mask :: byte
  pk_length_type :: byte
  pk_masking_key :: bytes
  pk_payload_length :: u64
  pk_hs_length :: u32
  pk_payload :: ByteBuffer

text \<open>
  What lies in memory that the code reads without having written it: the masking key and the
  handshake length of a new packet, and the union of the hash. The constructor does not
  initialise the first two (its statement \<^verbatim>\<open>masking_key_[4] = {0}\<close> writes the byte after the
  array, which is padding).
\<close>

record garbage =
  g_masking_key :: bytes
  g_hs_length :: u32
  g_sha_W :: "u32 list"

definition wf_garbage :: "garbage \<Rightarrow> bool" where
  "wf_garbage g \<longleftrightarrow> length (g_masking_key g) = 4 \<and> length (g_sha_W g) = 80"

definition WebSocketPacket_new :: "garbage \<Rightarrow> WebSocketPacket" where
  "WebSocketPacket_new g =
     \<lparr>pk_mothod = [], pk_uri = [], pk_version = [], pk_params = Map.empty,
      pk_fin = 0, pk_rsv1 = 0, pk_rsv2 = 0, pk_rsv3 = 0, pk_opcode = 0, pk_mask = 0,
      pk_length_type = 0, pk_masking_key = g_masking_key g, pk_payload_length = 0,
      pk_hs_length = g_hs_length g, pk_payload = ByteBuffer_new\<rparr>"

definition get_param :: "WebSocketPacket \<Rightarrow> string \<Rightarrow> string" where
  "get_param p name = (case pk_params p name of Some v \<Rightarrow> v | None \<Rightarrow> [])"

definition has_param :: "WebSocketPacket \<Rightarrow> string \<Rightarrow> bool" where
  "has_param p name = (pk_params p name \<noteq> None)"

definition set_param :: "string \<Rightarrow> string \<Rightarrow> WebSocketPacket \<Rightarrow> WebSocketPacket" where
  "set_param name v p = p\<lparr>pk_params := (pk_params p)(name \<mapsto> v)\<rparr>"

definition set_fin :: "byte \<Rightarrow> WebSocketPacket \<Rightarrow> WebSocketPacket" where
  "set_fin fin p = p\<lparr>pk_fin := fin\<rparr>"

definition set_opcode :: "byte \<Rightarrow> WebSocketPacket \<Rightarrow> WebSocketPacket" where
  "set_opcode opcode p = p\<lparr>pk_opcode := opcode\<rparr>"

definition set_mask :: "byte \<Rightarrow> WebSocketPacket \<Rightarrow> WebSocketPacket" where
  "set_mask mk p = p\<lparr>pk_mask := mk\<rparr>"

definition set_rsv1 :: "byte \<Rightarrow> WebSocketPacket \<Rightarrow> WebSocketPacket" where
  "set_rsv1 rsv1 p = p\<lparr>pk_rsv1 := rsv1\<rparr>"

definition set_rsv2 :: "byte \<Rightarrow> WebSocketPacket \<Rightarrow> WebSocketPacket" where
  "set_rsv2 rsv2 p = p\<lparr>pk_rsv2 := rsv2\<rparr>"

definition set_rsv3 :: "byte \<Rightarrow> WebSocketPacket \<Rightarrow> WebSocketPacket" where
  "set_rsv3 rsv3 p = p\<lparr>pk_rsv3 := rsv3\<rparr>"

definition set_payload_length :: "u64 \<Rightarrow> WebSocketPacket \<Rightarrow> WebSocketPacket" where
  "set_payload_length len p = p\<lparr>pk_payload_length := len\<rparr>"

definition set_mothod :: "string \<Rightarrow> WebSocketPacket \<Rightarrow> WebSocketPacket" where
  "set_mothod m p = p\<lparr>pk_mothod := m\<rparr>"

definition set_uri :: "string \<Rightarrow> WebSocketPacket \<Rightarrow> WebSocketPacket" where
  "set_uri u p = p\<lparr>pk_uri := u\<rparr>"

definition set_version :: "string \<Rightarrow> WebSocketPacket \<Rightarrow> WebSocketPacket" where
  "set_version v p = p\<lparr>pk_version := v\<rparr>"

definition set_payload :: "ptr \<Rightarrow> u64 \<Rightarrow> WebSocketPacket \<Rightarrow> fault + WebSocketPacket" where
  "set_payload buf sz p =
     bindE (append_bb (pk_payload p) buf (to_int32 (uint sz))) (\<lambda>payload.
     Inr (p\<lparr>pk_payload := payload, pk_payload_length := word_of_int (length_bb payload)\<rparr>))"

definition get_length_type :: "WebSocketPacket \<Rightarrow> byte" where
  "get_length_type p =
     (if pk_payload_length p < 126 then ucast (pk_payload_length p)
      else if pk_payload_length p \<ge> 126 \<and> pk_payload_length p \<le> 0xFFFF then 126
      else 127)"

text \<open>
  \<^verbatim>\<open>get_header_size\<close> computes the size of the header and ends without a \<^verbatim>\<open>return\<close>: what the
  caller gets is not determined by the code, an argument here. Nothing calls it.
\<close>

definition get_header_size :: "byte \<Rightarrow> WebSocketPacket \<Rightarrow> int \<times> byte" where
  "get_header_size returned p =
     (let header_size =
            (if get_length_type p < 126 then 2
             else if get_length_type p = 126 then 4
             else if get_length_type p = 127 then 2 + 8
             else 0);
          header_size = (if pk_mask p = 1 then header_size + 4 else header_size)
      in (header_size, returned))"

section \<open>Receiving a data frame\<close>

text \<open>
  The three forms of the payload length. The 64-bit length is read into the local \<^verbatim>\<open>len\<close> and
  never stored, so \<^verbatim>\<open>payload_length_\<close> keeps its value. (The shifts of that branch exceed the
  width of \<^verbatim>\<open>int\<close>; nothing uses their result.) The results of the reads are ignored.
\<close>

definition fetch_length :: "WebSocketPacket \<Rightarrow> ByteBuffer \<Rightarrow> fault + (WebSocketPacket \<times> ByteBuffer)" where
  "fetch_length p input =
     (if pk_length_type p < 126 then
        Inr (p\<lparr>pk_payload_length := ucast (pk_length_type p)\<rparr>, input)
      else if pk_length_type p = 126 then
        bindE (read_over [0, 0] input) (\<lambda>(array, input).
        let len = push_bit 8 (ucast (array ! 0)) OR ucast (array ! 1) :: u16
        in Inr (p\<lparr>pk_payload_length := ucast len\<rparr>, input))
      else if pk_length_type p = 127 then
        bindE (read_over [0, 0, 0, 0, 0, 0, 0, 0] input) (\<lambda>(array, input). Inr (p, input))
      else Inr (p, input))"

definition fetch_frame_info ::
  "WebSocketPacket \<Rightarrow> ByteBuffer \<Rightarrow> fault + (int \<times> WebSocketPacket \<times> ByteBuffer)" where
  "fetch_frame_info p input =
     bindE (read_over [0] input) (\<lambda>(onebyte, input).
     let p = p\<lparr>pk_fin := drop_bit 7 (onebyte ! 0), pk_opcode := onebyte ! 0 AND 0x7F\<rparr> in
     bindE (read_over onebyte input) (\<lambda>(onebyte, input).
     let p = p\<lparr>pk_mask := drop_bit 7 (onebyte ! 0) AND 0x01,
               pk_length_type := onebyte ! 0 AND 0x7F\<rparr> in
     bindE (fetch_length p input) (\<lambda>(p, input).
     bindE (if pk_mask p = 1 then
              bindE (read_over (pk_masking_key p) input) (\<lambda>(key, input).
              Inr (p\<lparr>pk_masking_key := key\<rparr>, input))
            else Inr (p, input)) (\<lambda>(p, input).
     Inr (getoft input, p, input)))))"

text \<open>
  The loop of \<^verbatim>\<open>fetch_payload\<close> and of \<^verbatim>\<open>pack_dataframe\<close>, from index \<open>i\<close> on with \<open>n\<close> rounds
  left: a byte is read from \<open>src\<close> over \<open>v\<close>, combined with the key and appended to \<open>dst\<close>.
\<close>

fun mask_loop ::
  "bytes \<Rightarrow> nat \<Rightarrow> nat \<Rightarrow> byte \<Rightarrow> ByteBuffer \<Rightarrow> ByteBuffer \<Rightarrow> fault + (ByteBuffer \<times> ByteBuffer)" where
  "mask_loop key i 0 v src dst = Inr (src, dst)"
| "mask_loop key i (Suc n) v src dst =
     bindE (read_over [v] src) (\<lambda>(real, src).
     let v = real ! 0 XOR key ! (i mod 4) in
     bindE (append_bb dst (Some [v]) 1) (\<lambda>dst.
     mask_loop key (Suc i) n v src dst))"

definition fetch_payload ::
  "WebSocketPacket \<Rightarrow> ByteBuffer \<Rightarrow> fault + (int \<times> WebSocketPacket \<times> ByteBuffer)" where
  "fetch_payload p input =
     (if pk_mask p = 1 then
        bindE (mask_loop (pk_masking_key p) 0 (unat (pk_payload_length p)) 0 input (pk_payload p))
          (\<lambda>(input, payload). Inr (0, p\<lparr>pk_payload := payload\<rparr>, input))
      else
        bindE (curat input) (\<lambda>cur.
        bindE (append_bb (pk_payload p) cur (to_int32 (uint (pk_payload_length p)))) (\<lambda>payload.
        let (_, input) = skip_x input (to_int32 (uint (pk_payload_length p)))
        in Inr (0, p\<lparr>pk_payload := payload\<rparr>, input))))"

text \<open>The comparison is unsigned, on 64 bits.\<close>

definition recv_dataframe ::
  "WebSocketPacket \<Rightarrow> ByteBuffer \<Rightarrow> fault + (u64 \<times> WebSocketPacket \<times> ByteBuffer)" where
  "recv_dataframe p input =
     bindE (fetch_frame_info p input) (\<lambda>(header_size, p, input).
     if pk_payload_length p + word_of_int header_size > word_of_int (length_bb input) then
       Inr (0, p, resetoft input)
     else
       bindE (fetch_payload p input) (\<lambda>(_, p, input).
       Inr (word_of_int (getoft input), p, input)))"

section \<open>Packing a data frame\<close>

definition append_byte :: "byte \<Rightarrow> ByteBuffer \<Rightarrow> fault + ByteBuffer" where
  "append_byte b output = append_bb output (Some [b]) 1"

definition pack_dataframe ::
  "WebSocketPacket \<Rightarrow> ByteBuffer \<Rightarrow> fault + (int \<times> WebSocketPacket \<times> ByteBuffer)" where
  "pack_dataframe p output =
     (let onebyte = push_bit 7 (pk_fin p) OR push_bit 6 (pk_rsv1 p) OR push_bit 5 (pk_rsv2 p) OR
                    push_bit 4 (pk_rsv3 p) OR (pk_opcode p AND 0x0F);
          plen = pk_payload_length p;
          maskbit = push_bit 7 (pk_mask p);
          length_type = get_length_type p in
      bindE (append_byte onebyte output) (\<lambda>output.
      bindE (if length_type < 126 then
               bindE (append_byte (maskbit OR ucast plen) output) (\<lambda>output. Inr (Some output))
             else if length_type = 126 then
               bindE (append_byte (maskbit OR length_type) output) (\<lambda>output.
               bindE (append_byte (ucast (drop_bit 8 plen AND 0xFF)) output) (\<lambda>output.
               bindE (append_byte (ucast (plen AND 0xFF)) output) (\<lambda>output. Inr (Some output))))
             else if length_type = 127 then
               bindE (append_byte (maskbit OR length_type) output) (\<lambda>output.
               bindE (append_byte (ucast (drop_bit 56 plen AND 0xFF)) output) (\<lambda>output.
               bindE (append_byte (ucast (drop_bit 48 plen AND 0xFF)) output) (\<lambda>output.
               bindE (append_byte (ucast (drop_bit 40 plen AND 0xFF)) output) (\<lambda>output.
               bindE (append_byte (ucast (drop_bit 32 plen AND 0xFF)) output) (\<lambda>output.
               bindE (append_byte (ucast (drop_bit 24 plen AND 0xFF)) output) (\<lambda>output.
               bindE (append_byte (ucast (drop_bit 16 plen AND 0xFF)) output) (\<lambda>output.
               bindE (append_byte (ucast (drop_bit 8 plen AND 0xFF)) output) (\<lambda>output.
               bindE (append_byte (ucast (plen AND 0xFF)) output) (\<lambda>output. Inr (Some output))))))))))
             else Inr None) (\<lambda>header.
      case header of
        None \<Rightarrow> Inr (-1, p, output)
      | Some output \<Rightarrow>
          if pk_mask p = 1 then
            bindE (append_bb output (Some (pk_masking_key p)) 4) (\<lambda>output.
            bindE (mask_loop (pk_masking_key p) 0 (unat plen) 0 (pk_payload p) output)
              (\<lambda>(payload, output). Inr (0, p\<lparr>pk_payload := payload\<rparr>, output)))
          else
            bindE (append_bb output (bytes_bb (pk_payload p)) (length_bb (pk_payload p)))
              (\<lambda>output. Inr (0, p, output)))))"

end
