(* ===== verification/Ws_Param.thy ===== *)
theory Ws_Param
  imports Ws_Packet
begin

text \<open>
  Parameters of a packet as values of other types: \<^verbatim>\<open>strHelper::valueOf\<close>
  (src/src/string_helper.inl) and the templates \<^verbatim>\<open>get_param\<close> and \<^verbatim>\<open>set_param\<close> of
  src/src/ws_packet.h that use it. Converting goes through a \<^verbatim>\<open>std::stringstream\<close>; the
  operators of the stream for the two types are arguments, with those for \<^verbatim>\<open>std::string\<close> and
  \<^verbatim>\<open>int\<close> below.
\<close>

section \<open>The operators of a stream\<close>

text \<open>What \<^verbatim>\<open><<\<close> appends for a value.\<close>

fun decimal :: "nat \<Rightarrow> string" where
  "decimal n = (if n < 10 then [char_of (48 + n)] else decimal (n div 10) @ [char_of (48 + n mod 10)])"

declare decimal.simps [simp del]

definition put_string :: "string \<Rightarrow> string" where
  "put_string s = s"

definition put_int :: "int \<Rightarrow> string" where
  "put_int n = (if n < 0 then CHR ''-'' # decimal (nat (- n)) else decimal (nat n))"

text \<open>
  What \<^verbatim>\<open>>>\<close> assigns: the first word for a string; for an \<^verbatim>\<open>int\<close> the number in front, held in
  the range of the type, and 0 when there is none. At the end of the stream nothing is assigned,
  and the variable keeps the value \<open>old\<close> it has.
\<close>

definition is_digit :: "char \<Rightarrow> bool" where
  "is_digit c \<longleftrightarrow> 48 \<le> (of_char c :: nat) \<and> (of_char c :: nat) \<le> 57"

definition get_string :: "string \<Rightarrow> string \<Rightarrow> string" where
  "get_string old s =
     (case dropWhile is_space s of [] \<Rightarrow> old | c # cs \<Rightarrow> takeWhile (\<lambda>c. \<not> is_space c) (c # cs))"

definition clamp_int :: "int \<Rightarrow> int" where
  "clamp_int n = max (- (2 ^ 31)) (min (2 ^ 31 - 1) n)"

definition get_int :: "int \<Rightarrow> string \<Rightarrow> int" where
  "get_int old s =
     (case dropWhile is_space s of
        [] \<Rightarrow> old
      | c # cs \<Rightarrow>
          clamp_int (if c = CHR ''-'' then - digits_value 0 cs
                     else if c = CHR ''+'' then digits_value 0 cs
                     else digits_value 0 (c # cs)))"

section \<open>The conversion and the templates\<close>

text \<open>\<open>uninit\<close> is the variable \<^verbatim>\<open>T t;\<close> before the stream assigns it.\<close>

definition valueOf :: "('s \<Rightarrow> string) \<Rightarrow> ('t \<Rightarrow> string \<Rightarrow> 't) \<Rightarrow> 't \<Rightarrow> 's \<Rightarrow> 't" where
  "valueOf put get uninit a = (let s = put a in get uninit s)"

definition get_param_as :: "('t \<Rightarrow> string \<Rightarrow> 't) \<Rightarrow> 't \<Rightarrow> WebSocketPacket \<Rightarrow> string \<Rightarrow> 't" where
  "get_param_as get uninit p name = valueOf put_string get uninit (get_param p name)"

text \<open>A \<^verbatim>\<open>std::string\<close> is empty from its constructor.\<close>

definition set_param_as :: "('s \<Rightarrow> string) \<Rightarrow> string \<Rightarrow> 's \<Rightarrow> WebSocketPacket \<Rightarrow> WebSocketPacket" where
  "set_param_as put name v p = set_param name (valueOf put get_string [] v) p"

section \<open>Numbers\<close>

lemma digit_char: "n < 10 \<Longrightarrow> (of_char (char_of (48 + n) :: char) :: nat) = 48 + n"
  by (simp add: of_char_of)

lemma digit_char_class:
  assumes n: "(n :: nat) < 10"
  shows "is_digit (char_of (48 + n)) \<and> \<not> is_space (char_of (48 + n))"
proof -
  have "char_of (48 + n) \<noteq> CHR '' ''"
  proof
    assume "char_of (48 + n) = CHR '' ''"
    then have "48 + n = (of_char (CHR '' '') :: nat)" using digit_char [OF n] by metis
    then show False by simp
  qed
  with digit_char [OF n] n show ?thesis by (simp add: is_digit_def is_space_def)
qed

lemma decimal_nonempty [simp]: "decimal n \<noteq> []"
  by (subst decimal.simps) simp

lemma decimal_digits: "c \<in> set (decimal n) \<Longrightarrow> is_digit c \<and> \<not> is_space c"
proof (induction n rule: decimal.induct)
  case (1 n)
  then show ?case using digit_char_class [of n] digit_char_class [of "n mod 10"]
    by (auto simp: decimal.simps [of n] split: if_splits)
qed

lemma digits_value_append: "(\<And>c. c \<in> set xs \<Longrightarrow> is_digit c) \<Longrightarrow> digits_value n (xs @ ys) = digits_value (digits_value n xs) ys"
  by (induction xs arbitrary: n) (auto simp: is_digit_def)

lemma digits_value_decimal: "digits_value 0 (decimal n) = int n"
proof (induction n rule: decimal.induct)
  case (1 n)
  show ?case
  proof (cases "n < 10")
    case True
    then show ?thesis using digit_char [OF True] by (simp add: decimal.simps [of n])
  next
    case False
    have d: "\<And>c. c \<in> set (decimal (n div 10)) \<Longrightarrow> is_digit c" using decimal_digits by blast
    have m: "n mod 10 < 10" by simp
    have "decimal n = decimal (n div 10) @ [char_of (48 + n mod 10)]"
      using False by (simp add: decimal.simps [of n])
    then have "digits_value 0 (decimal n) = digits_value (digits_value 0 (decimal (n div 10))) [char_of (48 + n mod 10)]"
      by (simp only: digits_value_append [OF d])
    also have "\<dots> = digits_value (int (n div 10)) [char_of (48 + n mod 10)]" by (simp only: 1 [OF False])
    also have "\<dots> = 10 * int (n div 10) + int (n mod 10)" using digit_char [OF m] m by simp
    also have "\<dots> = int n" by (simp add: zdiv_int zmod_int)
    finally show ?thesis .
  qed
qed

lemma word_kept:
  assumes "s \<noteq> []" and "\<And>c. c \<in> set s \<Longrightarrow> \<not> is_space c"
  shows "get_string old s = s" and "dropWhile is_space s = s"
proof -
  obtain c cs where s: "s = c # cs" using assms(1) by (cases s) auto
  show "dropWhile is_space s = s" using assms(2) s by simp
  then show "get_string old s = s" using assms(2) s by (simp add: get_string_def takeWhile_eq_all_conv)
qed

lemma put_int_word: "put_int n \<noteq> []" "c \<in> set (put_int n) \<Longrightarrow> \<not> is_space c"
  using decimal_digits by (auto simp: put_int_def is_space_def split: if_splits)

lemma get_put_int:
  assumes "- (2 ^ 31) \<le> n" and "n < 2 ^ 31"
  shows "get_int old (put_int n) = n"
proof -
  have drop: "dropWhile is_space (put_int n) = put_int n" by (rule word_kept(2) [OF put_int_word])
  show ?thesis
  proof (cases "n < 0")
    case True
    then show ?thesis using drop assms digits_value_decimal [of "nat (- n)"]
      by (simp add: get_int_def put_int_def clamp_int_def)
  next
    case False
    obtain c cs where c: "decimal (nat n) = c # cs" by (cases "decimal (nat n)") auto
    then have "is_digit c" using decimal_digits [of c "nat n"] by simp
    then have "c \<noteq> CHR ''-''" "c \<noteq> CHR ''+''" by (auto simp: is_digit_def)
    then show ?thesis using drop assms False c digits_value_decimal [of "nat n"]
      by (simp add: get_int_def put_int_def clamp_int_def)
  qed
qed

text \<open>A number that is set as a parameter is read back.\<close>

lemma param_int_roundtrip:
  assumes "- (2 ^ 31) \<le> n" and "n < 2 ^ 31"
  shows "get_param_as get_int old (set_param_as put_int name n p) name = n"
proof -
  have "get_string [] (put_int n) = put_int n" by (rule word_kept(1) [OF put_int_word])
  with get_put_int [OF assms] show ?thesis
    by (simp add: get_param_as_def set_param_as_def valueOf_def put_string_def get_param_def set_param_def)
qed

text \<open>Of a text only the first word is kept, and a parameter that is not there gives the variable as it was.\<close>

lemma param_text_first_word:
  assumes "w \<noteq> []" and "\<And>c. c \<in> set w \<Longrightarrow> \<not> is_space c" and "is_space c"
  shows "get_param (set_param_as put_string name (w @ c # rest) p) name = w"
proof -
  obtain x xs where w: "w = x # xs" using assms(1) by (cases w) auto
  have "takeWhile (\<lambda>c. \<not> is_space c) (w @ c # rest) = w"
    using assms(2,3) by (subst takeWhile_append2) simp_all
  then show ?thesis using assms(2) [of x] w
    by (simp add: set_param_as_def valueOf_def put_string_def get_string_def get_param_def set_param_def)
qed

lemma missing_param_uninitialised: "pk_params p name = None \<Longrightarrow> get_param_as get_int old p name = old"
  by (simp add: get_param_as_def valueOf_def put_string_def get_param_def get_int_def)

end
