(* ===== verification/Ws_Frame.thy ===== *)
theory Ws_Frame
  imports Ws_Packet
begin

text \<open>
  The data frame of RFC 6455, section 5.2, as an encoder and a parser on byte lists, and the
  relation of \<^verbatim>\<open>pack_dataframe\<close> and \<^verbatim>\<open>recv_dataframe\<close> to them: packing writes the RFC
  encoding; receiving refines the RFC parser when the whole header has arrived and the length
  is not in the 64-bit form, and departs from it in the other cases, which are stated too.
\<close>

unbundle bit_operations_syntax

section \<open>Masking\<close>

fun mask_bytes :: "bytes \<Rightarrow> nat \<Rightarrow> bytes \<Rightarrow> bytes" where
  "mask_bytes key i [] = []"
| "mask_bytes key i (x # xs) = (x XOR key ! (i mod 4)) # mask_bytes key (Suc i) xs"

lemma length_mask_bytes [simp]: "length (mask_bytes key i xs) = length xs"
  by (induction xs arbitrary: i) auto

lemma mask_bytes_involutive [simp]: "mask_bytes key i (mask_bytes key i xs) = xs"
  by (induction xs arbitrary: i) (auto simp: xor.assoc)

text \<open>The loop of the code masks the next bytes of the source and passes them.\<close>

lemma mask_loop_spec:
  "wf_buf src \<Longrightarrow> n \<le> length (unread src) \<Longrightarrow>
    mask_loop key i n v src dst =
      Inr (advance n src, dst\<lparr>data := data dst @ mask_bytes key i (take n (unread src))\<rparr>)"
proof (induction n arbitrary: i v src dst)
  case (Suc n)
  from Suc.prems(2) obtain x xs where xs: "unread src = x # xs" and n: "n \<le> length xs"
    by (cases "unread src") auto
  note step = bb_pass_one [OF Suc.prems(1) xs]
  have read: "read_over [v] src = Inr ([x], advance 1 src)"
    using bb_read_one [OF Suc.prems(1) xs] by (simp add: read_over_def)
  have "mask_loop key (Suc i) n (x XOR key ! (i mod 4)) (advance 1 src)
        (dst\<lparr>data := data dst @ [x XOR key ! (i mod 4)]\<rparr>) =
      Inr (advance n (advance 1 src), dst\<lparr>data := (data dst @ [x XOR key ! (i mod 4)]) @
        mask_bytes key (Suc i) (take n (unread (advance 1 src)))\<rparr>)"
    using step n by (subst Suc.IH) simp_all
  then show ?case
    using step xs by (simp add: read append_bb_def Let_def)
qed simp

section \<open>Big-endian lengths\<close>

definition be_nat :: "bytes \<Rightarrow> nat" where
  "be_nat bs = foldl (\<lambda>a b. 256 * a + unat b) 0 bs"

primrec be_enc :: "nat \<Rightarrow> nat \<Rightarrow> bytes" where
  "be_enc 0 n = []"
| "be_enc (Suc k) n = be_enc k (n div 256) @ [word_of_nat n]"

lemma length_be_enc [simp]: "length (be_enc k n) = k"
  by (induction k arbitrary: n) auto

lemma be_nat_snoc: "be_nat (bs @ [b]) = 256 * be_nat bs + unat b"
  by (simp add: be_nat_def)

lemma be_nat_enc: "n < 256 ^ k \<Longrightarrow> be_nat (be_enc k n) = n"
proof (induction k arbitrary: n)
  case (Suc k)
  then have "n div 256 < 256 ^ k"
    by (simp add: less_mult_imp_div_less mult.commute)
  with Suc.IH show ?case
    by (simp add: be_nat_snoc unat_of_nat)
qed (simp add: be_nat_def)

lemma byte_of_shift: "(ucast (drop_bit k (w :: u64) AND 0xFF) :: byte) = word_of_nat (unat w div 2 ^ k)"
proof -
  have "(ucast (drop_bit k w AND 0xFF) :: byte) = ucast (drop_bit k w)"
    by (simp add: word_bits)
  also have "\<dots> = word_of_nat (unat (drop_bit k w))"
    by simp
  also have "unat (drop_bit k w) = unat w div 2 ^ k"
    using unsigned_less [of w, where ?'a = nat]
    by (simp add: unsigned_drop_bit_eq take_bit_nat_eq_self flip: drop_bit_eq_div)
  finally show ?thesis .
qed

section \<open>The frame of the RFC\<close>

text \<open>
  The first byte of a frame holds FIN, the reserved bits and the opcode; the second the mask
  flag and the short length, which is the length itself, or 126 or 127 for a length in the
  next 2 or 8 bytes.
\<close>

definition masked :: "byte \<Rightarrow> bool" where
  "masked b1 \<longleftrightarrow> bit b1 7"

definition len7 :: "byte \<Rightarrow> nat" where
  "len7 b1 = unat (b1 AND 0x7F)"

definition ext_size :: "byte \<Rightarrow> nat" where
  "ext_size b1 = (if len7 b1 < 126 then 0 else if len7 b1 = 126 then 2 else 8)"

definition key_size :: "byte \<Rightarrow> nat" where
  "key_size b1 = (if masked b1 then 4 else 0)"

definition header_size :: "byte \<Rightarrow> nat" where
  "header_size b1 = 2 + ext_size b1 + key_size b1"

record frame =
  fr_fin :: bool
  fr_opcode :: byte
  fr_key :: "bytes option"
  fr_payload :: bytes

definition encode_len :: "bool \<Rightarrow> nat \<Rightarrow> bytes" where
  "encode_len m n =
     (let flag = (if m then 0x80 else 0) in
      if n < 126 then [flag OR word_of_nat n]
      else if n < 65536 then [flag OR 126] @ be_enc 2 n
      else [flag OR 127] @ be_enc 8 n)"

definition encode_frame :: "frame \<Rightarrow> bytes" where
  "encode_frame f =
     [(if fr_fin f then 0x80 else 0) OR fr_opcode f] @
     encode_len (fr_key f \<noteq> None) (length (fr_payload f)) @
     (case fr_key f of None \<Rightarrow> fr_payload f | Some key \<Rightarrow> key @ mask_bytes key 0 (fr_payload f))"

definition wf_frame :: "frame \<Rightarrow> bool" where
  "wf_frame f \<longleftrightarrow> unat (fr_opcode f) < 16 \<and> (\<forall>key. fr_key f = Some key \<longrightarrow> length key = 4) \<and>
     length (fr_payload f) < 2 ^ 64"

text \<open>The parser: the frame at the front of the bytes and its size, or \<open>None\<close> for too few bytes.\<close>

definition payload_len :: "byte \<Rightarrow> bytes \<Rightarrow> nat" where
  "payload_len b1 rest = (if len7 b1 < 126 then len7 b1 else be_nat (take (ext_size b1) rest))"

definition parse_frame :: "bytes \<Rightarrow> (frame \<times> nat) option" where
  "parse_frame bs =
     (case bs of
        b0 # b1 # rest \<Rightarrow>
          (let h = header_size b1; n = payload_len b1 rest;
               key = take 4 (drop (ext_size b1) rest); body = take n (drop h bs) in
           if length bs < h then None
           else if length bs < h + n then None
           else Some (\<lparr>fr_fin = bit b0 7, fr_opcode = b0 AND 0x0F,
                       fr_key = (if masked b1 then Some key else None),
                       fr_payload = (if masked b1 then mask_bytes key 0 body else body)\<rparr>, h + n))
      | _ \<Rightarrow> None)"

lemma len7_cases: "len7 b1 < 126 \<or> len7 b1 = 126 \<or> len7 b1 = 127"
proof -
  have "b1 AND 0x7F \<le> 0x7F" by (rule word_and_le1)
  then show ?thesis by (auto simp: len7_def word_le_nat_alt)
qed

lemma len7_flag:
  assumes "n < 128"
  shows "len7 ((if m then 0x80 else 0) OR word_of_nat n) = n"
    and "masked ((if m then 0x80 else 0) OR word_of_nat n) = m"
proof -
  have n: "unat (word_of_nat n :: byte) = n" using assms by (simp add: unat_of_nat)
  have "(word_of_nat n :: byte) = take_bit 7 (word_of_nat n)"
  proof (rule word_unat_eq_iff [THEN iffD2])
    show "unat (word_of_nat n :: byte) = unat (take_bit 7 (word_of_nat n :: byte))"
      using assms n by (simp add: unsigned_take_bit_eq take_bit_nat_eq_self)
  qed
  then have high: "\<not> bit (word_of_nat n :: byte) 7"
    by (metis bit_take_bit_iff less_irrefl)
  have "((if m then 0x80 else 0) OR word_of_nat n) AND 0x7F = (word_of_nat n :: byte)"
    using high by (simp add: word_bits)
  then show "len7 ((if m then 0x80 else 0) OR word_of_nat n) = n"
    by (simp only: len7_def n)
  show "masked ((if m then 0x80 else 0) OR word_of_nat n) = m"
    using high by (simp add: masked_def bit_simps)
qed

lemma len7_flag_126 [simp]: "len7 ((if m then 0x80 else 0) OR 126) = 126"
    "masked ((if m then 0x80 else 0) OR 126) = m"
  using len7_flag [of 126 m] by simp_all

lemma len7_flag_127 [simp]: "len7 ((if m then 0x80 else 0) OR 127) = 127"
    "masked ((if m then 0x80 else 0) OR 127) = m"
  using len7_flag [of 127 m] by simp_all

lemma opcode_byte:
  fixes op :: byte
  assumes "unat op < 16"
  shows "((if f then 0x80 else 0) OR op) AND 0x0F = op" and "bit ((if f then 0x80 else 0) OR op) 7 = f"
    and "drop_bit 7 ((if f then 0x80 else 0) OR op) = (if f then 1 else 0)"
    and "((if f then 0x80 else 0) OR op) AND 0x7F = op"
proof -
  have "op = take_bit 4 op"
    using assms by (intro word_unat_eq_iff [THEN iffD2]) (simp add: unsigned_take_bit_eq take_bit_nat_eq_self)
  then have "\<not> bit op n" if "4 \<le> n" for n
    using that by (metis bit_take_bit_iff not_le)
  then have "\<not> bit op 4" "\<not> bit op 5" "\<not> bit op 6" "\<not> bit op 7" by simp_all
  then show "((if f then 0x80 else 0) OR op) AND 0x0F = op" "bit ((if f then 0x80 else 0) OR op) 7 = f"
    "drop_bit 7 ((if f then 0x80 else 0) OR op) = (if f then 1 else 0)"
    "((if f then 0x80 else 0) OR op) AND 0x7F = op"
    by (simp_all add: word_bits)
qed

text \<open>Parsing undoes encoding, whatever follows the frame.\<close>

lemma parse_encode_frame:
  assumes "wf_frame f"
  shows "parse_frame (encode_frame f @ rest) = Some (f, length (encode_frame f))"
proof -
  let ?n = "length (fr_payload f)" and ?m = "fr_key f \<noteq> None"
  let ?b0 = "(if fr_fin f then 0x80 else 0) OR fr_opcode f"
  let ?body = "case fr_key f of None \<Rightarrow> fr_payload f | Some key \<Rightarrow> key @ mask_bytes key 0 (fr_payload f)"
  from assms have op: "unat (fr_opcode f) < 16" and n: "?n < 256 ^ 8"
    and key: "\<And>k. fr_key f = Some k \<Longrightarrow> length k = 4"
    by (auto simp: wf_frame_def)
  obtain b1 ext where len: "encode_len ?m ?n = b1 # ext" and m: "masked b1 = ?m"
    and ext: "length ext = ext_size b1" and plen: "\<And>xs. payload_len b1 (ext @ xs) = ?n"
  proof (cases "?n < 126")
    case True
    then show thesis
      using len7_flag [of ?n ?m]
      by (intro that [of "(if ?m then 0x80 else 0) OR word_of_nat ?n" "[]"])
        (simp_all add: encode_len_def Let_def ext_size_def payload_len_def)
  next
    case False
    then show thesis
      using be_nat_enc [of ?n 2] be_nat_enc [OF n]
      by (cases "?n < 65536")
        (rule that [of "(if ?m then 0x80 else 0) OR 126" "be_enc 2 ?n"];
          simp add: encode_len_def Let_def ext_size_def payload_len_def;
          fail |
         rule that [of "(if ?m then 0x80 else 0) OR 127" "be_enc 8 ?n"];
          simp add: encode_len_def Let_def ext_size_def payload_len_def)+
  qed
  have enc: "encode_frame f = ?b0 # b1 # ext @ ?body"
    using len by (simp add: encode_frame_def del: not_None_eq)
  show ?thesis
  proof (cases "fr_key f")
    case None
    then show ?thesis
      using op ext plen [of "fr_payload f @ rest"] m
      by (simp add: enc parse_frame_def header_size_def key_size_def Let_def opcode_byte)
  next
    case (Some k)
    have skip: "drop (6 + ext_size b1) (z # b1 # ext @ k @ xs) = xs" for z xs
    proof -
      have "6 + ext_size b1 = length (z # b1 # ext @ k)"
        using ext key [OF Some] by simp
      then show ?thesis by (metis append_Cons append_assoc append_eq_conv_conj)
    qed
    from Some show ?thesis
      using op ext plen [of "k @ mask_bytes k 0 (fr_payload f) @ rest"] m key [OF Some]
      by (simp add: enc parse_frame_def header_size_def key_size_def Let_def opcode_byte skip)
  qed
qed

section \<open>Reading a header\<close>

text \<open>The packet after a header that has arrived as a whole.\<close>

definition header_packet :: "WebSocketPacket \<Rightarrow> byte \<Rightarrow> byte \<Rightarrow> bytes \<Rightarrow> bytes \<Rightarrow> WebSocketPacket" where
  "header_packet p b0 b1 ext key =
     p\<lparr>pk_fin := drop_bit 7 b0, pk_opcode := b0 AND 0x7F,
       pk_mask := (if masked b1 then 1 else 0), pk_length_type := b1 AND 0x7F,
       pk_payload_length :=
         (if len7 b1 < 126 then word_of_nat (len7 b1)
          else if len7 b1 = 126 then word_of_nat (be_nat ext) else pk_payload_length p),
       pk_masking_key := (if masked b1 then key else pk_masking_key p)\<rparr>"

lemma mask_flag: "drop_bit 7 b1 AND 0x01 = (if masked b1 then 1 else 0)" for b1 :: byte
  by (simp add: masked_def word_bits)

lemma len16: "(ucast (push_bit 8 (ucast (a :: byte)) OR ucast (b :: byte) :: u16) :: u64) = word_of_nat (be_nat [a, b])"
proof -
  have ab: "unat a < 2 ^ 8" "unat b < 2 ^ 8"
    using unsigned_less [of a, where ?'a = nat] unsigned_less [of b, where ?'a = nat] by simp_all
  have "push_bit 8 (ucast a) OR ucast b = push_bit 8 (ucast a) + (ucast b :: u16)"
    by (rule disjunctive_add [symmetric]) (auto simp: bit_simps bit_byte_beyond dest: bit_imp_le_length)
  moreover have "unat (push_bit 8 (ucast a) + (ucast b :: u16)) = 256 * unat a + unat b"
    using ab by (simp add: unat_word_ariths unsigned_push_bit_eq unsigned_ucast_eq push_bit_eq_mult
        take_bit_nat_eq_self mult.commute take_bit_eq_mod)
  ultimately have "unat (push_bit 8 (ucast a) OR ucast b :: u16) = 256 * unat a + unat b"
    by simp
  then have "word_of_nat (unat (push_bit 8 (ucast a) OR ucast b :: u16)) = (word_of_nat (be_nat [a, b]) :: u64)"
    by (simp add: be_nat_def)
  then show ?thesis by simp
qed

lemma length_type_tests:
  "b1 AND 0x7F < (126 :: byte) \<longleftrightarrow> len7 b1 < 126"
  "b1 AND 0x7F = (126 :: byte) \<longleftrightarrow> len7 b1 = 126"
  "b1 AND 0x7F = (127 :: byte) \<longleftrightarrow> len7 b1 = 127"
  by (auto simp: len7_def word_less_nat_alt word_unat_eq_iff)

lemma unread_at [simp]:
  "length bs < 2 ^ 31 \<Longrightarrow> n \<le> length bs \<Longrightarrow> unread (advance n (buf_of bs)) = drop n bs"
  "length bs < 2 ^ 31 \<Longrightarrow> n \<le> length bs \<Longrightarrow> wf_buf (advance n (buf_of bs))"
  by (simp_all add: unread_advance wf_advance)

lemma fetch_length_complete:
  assumes bs: "length bs < 2 ^ 31" and k: "k \<le> length bs"
    and ext: "drop k bs = ext @ suf" and size: "length ext = ext_size b1"
    and lt: "pk_length_type p = b1 AND 0x7F"
  shows "fetch_length p (advance k (buf_of bs)) =
    Inr (p\<lparr>pk_payload_length :=
         (if len7 b1 < 126 then word_of_nat (len7 b1)
          else if len7 b1 = 126 then word_of_nat (be_nat ext) else pk_payload_length p)\<rparr>,
       advance (k + ext_size b1) (buf_of bs))"
proof -
  have room: "k + length ext \<le> length bs"
    using arg_cong [OF ext, of length] k by simp
  have read: "read_over dst (advance k (buf_of bs)) = Inr (ext, advance (k + length ext) (buf_of bs))"
    if "length dst = length ext" "0 < length ext" "length ext \<le> 8" for dst
    using that bs k ext room by (simp add: read_over_wf)
  consider (short) "len7 b1 < 126" | (two) "len7 b1 = 126" | (eight) "len7 b1 = 127"
    using len7_cases by blast
  then show ?thesis
  proof cases
    case short
    then show ?thesis
      by (simp add: fetch_length_def lt length_type_tests ext_size_def len7_def)
  next
    case two
    with size obtain a b where "ext = [a, b]"
      by (auto simp: ext_size_def length_Suc_conv numeral_2_eq_2)
    with two read [of "[0, 0]"] size show ?thesis
      by (simp add: fetch_length_def lt length_type_tests ext_size_def len16 Let_def)
  next
    case eight
    with read [of "[0, 0, 0, 0, 0, 0, 0, 0]"] size show ?thesis
      by (simp add: fetch_length_def lt length_type_tests ext_size_def)
  qed
qed

lemma fetch_frame_info_complete:
  assumes len: "length bs < 2 ^ 31" and bs: "bs = b0 # b1 # ext @ key @ body"
    and ext: "length ext = ext_size b1" and key: "length key = key_size b1"
    and pkey: "length (pk_masking_key p) = 4"
  shows "fetch_frame_info p (buf_of bs) =
    Inr (int (header_size b1), header_packet p b0 b1 ext key, advance (header_size b1) (buf_of bs))"
proof -
  let ?p1 = "p\<lparr>pk_fin := drop_bit 7 b0, pk_opcode := b0 AND 0x7F,
    pk_mask := (if masked b1 then 1 else 0), pk_length_type := b1 AND 0x7F\<rparr>"
  let ?p2 = "?p1\<lparr>pk_payload_length := (if len7 b1 < 126 then word_of_nat (len7 b1)
          else if len7 b1 = 126 then word_of_nat (be_nat ext) else pk_payload_length p)\<rparr>"
  define in1 in2 in3 in4 where "in1 = advance 1 (buf_of bs)" and "in2 = advance 2 (buf_of bs)"
    and "in3 = advance (2 + ext_size b1) (buf_of bs)"
    and "in4 = advance (header_size b1) (buf_of bs)"
  have room: "2 + ext_size b1 + key_size b1 \<le> length bs"
    using bs ext key by simp
  have r0: "read_over [0] (buf_of bs) = Inr ([b0], in1)"
    using len bs by (simp add: read_over_wf in1_def)
  have r1: "read_over [b0] in1 = Inr ([b1], in2)"
    using len bs by (simp add: read_over_wf in1_def in2_def numeral_2_eq_2)
  have r2: "fetch_length ?p1 in2 = Inr (?p2, in3)"
    unfolding in2_def in3_def using len bs ext
    by (subst fetch_length_complete [where suf = "key @ body" and ext = ext and ?b1.0 = b1]) simp_all
  have rest: "drop (2 + ext_size b1) bs = key @ body"
    using bs ext by simp
  have r3: "read_over (pk_masking_key p) in3 = Inr (key, in4)" if "masked b1"
    using that len room rest key pkey
    by (simp add: read_over_wf key_size_def header_size_def in3_def in4_def)
  have r4: "in3 = in4" if "\<not> masked b1"
    using that by (simp add: in3_def in4_def header_size_def key_size_def)
  have "wf_buf in4"
    using len room by (simp add: header_size_def in4_def)
  then have off: "getoft in4 = int (header_size b1)"
    using len room by (simp add: getoft_wf uint_oft_advance header_size_def in4_def)
  show ?thesis
    unfolding in4_def [symmetric]
    using r2 r3 r4 off by (cases "masked b1")
      (simp_all add: fetch_frame_info_def r0 r1 mask_flag header_packet_def Let_def)
qed

section \<open>Receiving a frame\<close>

definition complete_header :: "bytes \<Rightarrow> bool" where
  "complete_header bs \<longleftrightarrow> (case bs of b0 # b1 # rest \<Rightarrow> header_size b1 \<le> length bs | _ \<Rightarrow> False)"

lemma complete_headerE:
  assumes "complete_header bs"
  obtains b0 b1 ext key body where "bs = b0 # b1 # ext @ key @ body"
    "length ext = ext_size b1" "length key = key_size b1"
proof -
  obtain b0 b1 rest where bs: "bs = b0 # b1 # rest" and size: "header_size b1 \<le> length bs"
    using assms by (auto simp: complete_header_def split: list.splits)
  let ?ext = "take (ext_size b1) rest" and ?r = "drop (ext_size b1) rest"
  have "bs = b0 # b1 # ?ext @ take (key_size b1) ?r @ drop (key_size b1) ?r"
    by (simp only: bs append_take_drop_id)
  moreover have "length ?ext = ext_size b1" "length (take (key_size b1) ?r) = key_size b1"
    using size by (simp_all add: bs header_size_def)
  ultimately show thesis by (rule that)
qed

lemma u64_compare:
  assumes "n < 2 ^ 62" and "h < 2 ^ 62" and "l < 2 ^ 62"
  shows "(word_of_nat n :: u64) + word_of_nat h > word_of_nat l \<longleftrightarrow> l < n + h"
proof -
  have "(word_of_nat n :: u64) + word_of_nat h = word_of_nat (n + h)" by simp
  moreover have "unat (word_of_nat (n + h) :: u64) = n + h" "unat (word_of_nat l :: u64) = l"
    using assms by (simp_all add: unat_of_nat del: of_nat_add)
  ultimately show ?thesis by (simp only: word_less_nat_alt)
qed

lemma recv_dataframe_complete:
  assumes len: "length bs < 2 ^ 31" and bs: "bs = b0 # b1 # ext @ key @ body"
    and ext: "length ext = ext_size b1" and key: "length key = key_size b1"
    and pkey: "length (pk_masking_key p) = 4"
    and q: "q = header_packet p b0 b1 ext key" and n: "pk_payload_length q = word_of_nat n" "n < 2 ^ 31"
    and h: "h = header_size b1"
  shows "recv_dataframe p (buf_of bs) =
    (if length body < n then Inr (0, q, buf_of bs)
     else if masked b1 then
       Inr (word_of_nat (h + n),
         q\<lparr>pk_payload := (pk_payload p)\<lparr>data := data (pk_payload p) @ mask_bytes key 0 (take n body)\<rparr>\<rparr>,
         advance (h + n) (buf_of bs))
     else if body = [] then Inl Out_of_range
     else Inr (word_of_nat (h + n),
         q\<lparr>pk_payload := (pk_payload p)\<lparr>data := data (pk_payload p) @ take n body\<rparr>\<rparr>,
         advance (h + n) (buf_of bs)))"
proof -
  have hlen: "length bs = h + length body"
    using bs ext key h by (simp add: header_size_def)
  have ne: "bs \<noteq> []" using bs by simp
  have h32: "h \<le> 14"
    using h by (simp add: header_size_def ext_size_def key_size_def)
  have info: "fetch_frame_info p (buf_of bs) = Inr (int h, q, advance h (buf_of bs))"
    unfolding q h by (rule fetch_frame_info_complete [OF len bs ext key pkey])
  have un: "unat (pk_payload_length q) = n" and ui: "to_int32 (uint (pk_payload_length q)) = int n"
    using n by (simp_all add: unat_of_nat uint_nat)
  have body: "unread (advance h (buf_of bs)) = body" "wf_buf (advance h (buf_of bs))"
    using len hlen bs ext key h by (simp_all add: header_size_def)
  have "length_bb (advance h (buf_of bs)) = int (length bs)"
    using len by (simp add: length_bb_wf)
  then have cmp: "pk_payload_length q + word_of_nat h >
      word_of_int (length_bb (advance h (buf_of bs))) \<longleftrightarrow> length body < n"
    using n h32 len hlen by (simp add: u64_compare del: of_nat_add)
  have reset: "resetoft (advance h (buf_of bs)) = buf_of bs"
    by (simp add: resetoft_def advance_def buf_of_def)
  have off: "getoft (advance (h + n) (buf_of bs)) = int (h + n)" if "n \<le> length body"
    using that len hlen by (simp add: getoft_wf uint_oft_advance)
  have q_simps: "pk_mask q = (if masked b1 then 1 else 0)" "pk_payload q = pk_payload p"
    "masked b1 \<Longrightarrow> pk_masking_key q = key"
    by (simp_all add: q header_packet_def)
  consider (wait) "length body < n" | (masked) "n \<le> length body" "masked b1"
    | (throw) "n \<le> length body" "\<not> masked b1" "body = []"
    | (plain) "n \<le> length body" "\<not> masked b1" "body \<noteq> []" by fastforce
  then show ?thesis
  proof cases
    case wait
    then show ?thesis by (simp add: recv_dataframe_def info cmp reset)
  next
    case masked
    then have "fetch_payload q (advance h (buf_of bs)) = Inr (0,
        q\<lparr>pk_payload := (pk_payload p)\<lparr>data := data (pk_payload p) @ mask_bytes key 0 (take n body)\<rparr>\<rparr>,
        advance (h + n) (buf_of bs))"
      using body by (simp add: fetch_payload_def q_simps un mask_loop_spec)
    with masked show ?thesis by (simp add: recv_dataframe_def info cmp off)
  next
    case throw
    then show ?thesis
      using body ne by (simp add: recv_dataframe_def info cmp fetch_payload_def q_simps curat_wf)
  next
    case plain
    then have "fetch_payload q (advance h (buf_of bs)) = Inr (0,
        q\<lparr>pk_payload := (pk_payload p)\<lparr>data := data (pk_payload p) @ take n body\<rparr>\<rparr>,
        advance (h + n) (buf_of bs))"
      using body ne n(2) by (simp add: fetch_payload_def q_simps ui curat_wf append_bb_Some skip_x_wf)
    with plain show ?thesis by (simp add: recv_dataframe_def info cmp off)
  qed
qed

section \<open>Packing a frame\<close>

text \<open>A packet whose fields, set by the setters of the class, describe the frame \<open>f\<close>.\<close>

definition describes :: "WebSocketPacket \<Rightarrow> frame \<Rightarrow> bool" where
  "describes p f \<longleftrightarrow>
     pk_fin p = (if fr_fin f then 1 else 0) \<and> pk_rsv1 p = 0 \<and> pk_rsv2 p = 0 \<and> pk_rsv3 p = 0 \<and>
     pk_opcode p = fr_opcode f \<and>
     (case fr_key f of None \<Rightarrow> pk_mask p = 0 | Some key \<Rightarrow> pk_mask p = 1 \<and> pk_masking_key p = key) \<and>
     pk_payload p = buf_of (fr_payload f) \<and> pk_payload_length p = word_of_nat (length (fr_payload f))"

lemma append_byte_eq [simp]: "append_byte b out = Inr (out\<lparr>data := data out @ [b]\<rparr>)"
  by (simp add: append_byte_def append_bb_def)

lemma low_byte: "(ucast ((w :: u64) AND 0xFF) :: byte) = word_of_nat (unat w)"
  using byte_of_shift [of 0 w] by simp

lemma be_enc_numeral:
  "be_enc (numeral k) n = be_enc (pred_numeral k) (n div 256) @ [word_of_nat n]"
  by (simp only: numeral_eq_Suc [of k] be_enc.simps)

lemma be_enc_2: "be_enc 2 n = [word_of_nat (n div 256), word_of_nat n]"
  by (simp add: be_enc_numeral)

lemma div_256_256: "n div m div 256 = n div (m * 256)" for n m :: nat
  by (rule div_mult2_eq [symmetric])

lemma be_enc_8:
  "be_enc 8 n = [word_of_nat (n div 2 ^ 56), word_of_nat (n div 2 ^ 48), word_of_nat (n div 2 ^ 40),
     word_of_nat (n div 2 ^ 32), word_of_nat (n div 2 ^ 24), word_of_nat (n div 2 ^ 16),
     word_of_nat (n div 2 ^ 8), word_of_nat n]"
  by (simp add: be_enc_numeral div_256_256)

text \<open>The first byte and the length field that the code writes are those of the RFC.\<close>

lemma pack_first_byte:
  assumes "unat op < 16"
  shows "push_bit 7 (if f then 1 else 0) OR push_bit 6 0 OR push_bit 5 0 OR push_bit 4 0 OR (op AND 0x0F) =
    (if f then 0x80 else 0) OR (op :: byte)"
proof -
  have "op AND 0x0F = op"
    using opcode_byte(1) [OF assms, of False] by simp
  then show ?thesis by simp
qed

definition pack_length :: "WebSocketPacket \<Rightarrow> bytes" where
  "pack_length p = encode_len (pk_mask p = 1) (unat (pk_payload_length p))"

lemma pack_dataframe_spec:
  assumes mask: "pk_mask p = 0 \<or> pk_mask p = 1"
    and payload: "pk_mask p = 1 \<longrightarrow> wf_buf (pk_payload p) \<and> length (pk_masking_key p) = 4 \<and>
        unat (pk_payload_length p) \<le> length (unread (pk_payload p))"
    and len: "length (data (pk_payload p)) < 2 ^ 31"
    and b: "b = push_bit 7 (pk_fin p) OR push_bit 6 (pk_rsv1 p) OR push_bit 5 (pk_rsv2 p) OR
        push_bit 4 (pk_rsv3 p) OR (pk_opcode p AND 0x0F)"
    and n: "n = unat (pk_payload_length p)"
  shows "pack_dataframe p out = Inr (0,
      (if pk_mask p = 1 then p\<lparr>pk_payload := advance n (pk_payload p)\<rparr> else p),
      out\<lparr>data := data out @ [b] @ pack_length p @
        (if pk_mask p = 1
         then pk_masking_key p @ mask_bytes (pk_masking_key p) 0 (take n (unread (pk_payload p)))
         else data (pk_payload p))\<rparr>)"
proof -
  let ?plen = "pk_payload_length p"
  have flag: "push_bit 7 (pk_mask p) = (if pk_mask p = 1 then 0x80 else 0)"
    using mask by auto
  have lt: "get_length_type p = (if n < 126 then word_of_nat n else if n < 65536 then 126 else 127)"
    by (simp add: get_length_type_def n word_less_nat_alt word_le_nat_alt)
  have small: "unat (word_of_nat n :: byte) = n" if "n < 126"
    using that by (simp add: unat_of_nat)
  have ucast: "(ucast ?plen :: byte) = word_of_nat n"
    by (simp add: n)
  have shift: "(ucast (drop_bit k ?plen AND 0xFF) :: byte) = word_of_nat (n div 2 ^ k)" for k
    by (simp only: byte_of_shift n)
  have low: "(ucast (?plen AND 0xFF) :: byte) = word_of_nat n"
    by (simp only: low_byte n)
  have body: "bindE (append_bb o' (Some (pk_masking_key p)) 4) (\<lambda>output.
        bindE (mask_loop (pk_masking_key p) 0 n 0 (pk_payload p) output)
          (\<lambda>(payload, output). Inr (0, p\<lparr>pk_payload := payload\<rparr>, output))) =
      Inr (0, p\<lparr>pk_payload := advance n (pk_payload p)\<rparr>,
        o'\<lparr>data := data o' @ pk_masking_key p @
          mask_bytes (pk_masking_key p) 0 (take n (unread (pk_payload p)))\<rparr>)"
    if "pk_mask p = 1" for o'
    using that payload n by (simp add: append_bb_Some mask_loop_spec)
  have plain: "append_bb o' (bytes_bb (pk_payload p)) (length_bb (pk_payload p)) =
      Inr (o'\<lparr>data := data o' @ data (pk_payload p)\<rparr>)" for o'
    using len by (rule append_whole)
  consider (short) "n < 126" | (two) "126 \<le> n" "n < 65536" | (eight) "65536 \<le> n" by linarith
  then show ?thesis
  proof cases
    case short
    then show ?thesis
      using small
      by (cases "pk_mask p = 1") (simp_all add: body plain pack_dataframe_def Let_def lt word_less_nat_alt flag ucast pack_length_def
          encode_len_def b n [symmetric])
  next
    case two
    then show ?thesis
      by (cases "pk_mask p = 1") (simp_all add: body plain pack_dataframe_def Let_def lt flag shift low be_enc_2 pack_length_def
          encode_len_def b n [symmetric])
  next
    case eight
    then show ?thesis
      by (cases "pk_mask p = 1") (simp_all add: body plain pack_dataframe_def Let_def lt flag shift low be_enc_8 pack_length_def
          encode_len_def b n [symmetric])
  qed
qed

section \<open>The frame parser on the parts of a frame\<close>

lemma parse_frame_parts:
  assumes bs: "bs = b0 # b1 # ext @ key @ body"
    and ext: "length ext = ext_size b1" and key: "length key = key_size b1"
    and n: "n = (if len7 b1 < 126 then len7 b1 else be_nat ext)"
  shows "parse_frame bs =
    (if length body < n then None
     else Some (\<lparr>fr_fin = bit b0 7, fr_opcode = b0 AND 0x0F,
                 fr_key = (if masked b1 then Some key else None),
                 fr_payload = (if masked b1 then mask_bytes key 0 (take n body) else take n body)\<rparr>,
               header_size b1 + n))"
proof -
  have plen: "payload_len b1 (ext @ key @ body) = n"
    using ext n by (simp add: payload_len_def)
  have size: "header_size b1 = length (b0 # b1 # ext @ key)"
    using ext key by (simp add: header_size_def)
  have skip: "drop (header_size b1) bs = body"
    unfolding size bs by simp
  have len: "length bs = header_size b1 + length body"
    unfolding size bs by simp
  have k: "take 4 (drop (ext_size b1) (ext @ key @ body)) = key" if "masked b1"
    using that ext key by (simp add: key_size_def)
  show ?thesis
    using skip len plen k unfolding parse_frame_def bs by (simp add: Let_def)
qed

lemma be_nat_bound: "be_nat bs < 256 ^ length bs"
proof (induction bs rule: rev_induct)
  case (snoc b bs)
  have "unat b < 256" using unsigned_less [of b, where ?'a = nat] by simp
  with snoc show ?case by (simp add: be_nat_snoc)
qed (simp add: be_nat_def)

text \<open>The payload length that the code works with, when the length has not the 64-bit form.\<close>

lemma header_packet_length:
  assumes "length ext = ext_size b1" and "len7 b1 \<noteq> 127"
    and "n = (if len7 b1 < 126 then len7 b1 else be_nat ext)"
  shows "pk_payload_length (header_packet p b0 b1 ext key) = word_of_nat n" and "n < 2 ^ 16"
proof -
  show "pk_payload_length (header_packet p b0 b1 ext key) = word_of_nat n"
    using assms len7_cases [of b1] by (auto simp: header_packet_def)
  show "n < 2 ^ 16"
    using assms len7_cases [of b1] be_nat_bound [of ext] by (auto simp: ext_size_def split: if_splits)
qed

section \<open>Properties\<close>

text \<open>What a received packet holds of a frame.\<close>

definition holds_frame :: "WebSocketPacket \<Rightarrow> frame \<Rightarrow> bool" where
  "holds_frame p f \<longleftrightarrow>
     pk_fin p = (if fr_fin f then 1 else 0) \<and> pk_opcode p = fr_opcode f \<and>
     pk_payload p = buf_of (fr_payload f)"

lemma fin_bit: "drop_bit 7 b0 = (if bit b0 7 then 1 else 0)" for b0 :: byte
  by (simp add: word_bits)

lemma opcode_rsv0: "b0 AND 0x70 = 0 \<Longrightarrow> b0 AND 0x7F = b0 AND 0x0F" for b0 :: byte
  by (simp add: word_bits)

lemma fresh_packet [simp]:
  "pk_payload (WebSocketPacket_new g) = buf_of []" "pk_payload_length (WebSocketPacket_new g) = 0"
  "pk_masking_key (WebSocketPacket_new g) = g_masking_key g"
  by (simp_all add: WebSocketPacket_new_def ByteBuffer_new_buf_of)

lemma wf_garbage_key: "wf_garbage g \<Longrightarrow> length (g_masking_key g) = 4"
  by (simp add: wf_garbage_def)

lemma pack_frame_bytes:
  assumes "describes p f" and "wf_frame f" and "length (fr_payload f) < 2 ^ 31"
  shows "\<exists>p'. pack_dataframe p out = Inr (0, p', out\<lparr>data := data out @ encode_frame f\<rparr>)"
proof -
  have p: "pk_payload p = buf_of (fr_payload f)" "pk_payload_length p = word_of_nat (length (fr_payload f))"
    "pk_mask p = (if fr_key f = None then 0 else 1)"
    "\<And>key. fr_key f = Some key \<Longrightarrow> pk_masking_key p = key \<and> length key = 4"
    using assms(1,2) by (auto simp: describes_def wf_frame_def split: option.splits)
  have len: "unat (pk_payload_length p) = length (fr_payload f)"
    using assms(3) p(2) by (simp add: unat_of_nat)
  have first: "push_bit 7 (pk_fin p) OR push_bit 6 (pk_rsv1 p) OR push_bit 5 (pk_rsv2 p) OR
      push_bit 4 (pk_rsv3 p) OR (pk_opcode p AND 0x0F) = (if fr_fin f then 0x80 else 0) OR fr_opcode f"
    using assms(1,2) pack_first_byte [of "fr_opcode f" "fr_fin f"]
    by (simp add: describes_def wf_frame_def)
  have "pack_dataframe p out = Inr (0,
      (if pk_mask p = 1 then p\<lparr>pk_payload := advance (unat (pk_payload_length p)) (pk_payload p)\<rparr> else p),
      out\<lparr>data := data out @ [(if fr_fin f then 0x80 else 0) OR fr_opcode f] @ pack_length p @
        (if pk_mask p = 1
         then pk_masking_key p @ mask_bytes (pk_masking_key p) 0
           (take (unat (pk_payload_length p)) (unread (pk_payload p)))
         else data (pk_payload p))\<rparr>)"
    using p len assms(3) by (intro pack_dataframe_spec first [symmetric] refl) auto
  moreover have "[(if fr_fin f then 0x80 else 0) OR fr_opcode f] @ pack_length p @
        (if pk_mask p = 1
         then pk_masking_key p @ mask_bytes (pk_masking_key p) 0
           (take (unat (pk_payload_length p)) (unread (pk_payload p)))
         else data (pk_payload p)) = encode_frame f"
    using p len by (cases "fr_key f") (simp_all add: encode_frame_def pack_length_def)
  ultimately show ?thesis by simp
qed

lemma recv_refines:
  assumes len: "length bs < 2 ^ 31" and header: "complete_header bs" and form: "len7 (bs ! 1) \<noteq> 127"
    and rsv: "bs ! 0 AND 0x70 = 0" and g: "wf_garbage g"
    and not_last: "masked (bs ! 1) \<or> header_size (bs ! 1) < length bs"
  shows "case parse_frame bs of
      None \<Rightarrow> \<exists>p. recv_dataframe (WebSocketPacket_new g) (buf_of bs) = Inr (0, p, buf_of bs)
    | Some (f, used) \<Rightarrow> \<exists>p. recv_dataframe (WebSocketPacket_new g) (buf_of bs) =
          Inr (word_of_nat used, p, advance used (buf_of bs)) \<and> holds_frame p f"
proof -
  obtain b0 b1 ext key body where bs: "bs = b0 # b1 # ext @ key @ body"
    and ext: "length ext = ext_size b1" and key: "length key = key_size b1"
    using header by (rule complete_headerE)
  define n where "n = (if len7 b1 < 126 then len7 b1 else be_nat ext)"
  define q where "q = header_packet (WebSocketPacket_new g) b0 b1 ext key"
  have n: "pk_payload_length q = word_of_nat n" "n < 2 ^ 31"
    using header_packet_length [OF ext _ n_def] form bs by (auto simp: q_def)
  note recv = recv_dataframe_complete [OF len bs ext key _ q_def n refl]
  have body: "masked b1 \<or> body \<noteq> []"
    using not_last bs ext key by (auto simp: header_size_def)
  show ?thesis
    using recv body rsv wf_garbage_key [OF g] unfolding parse_frame_parts [OF bs ext key n_def]
    by (auto simp: q_def header_packet_def holds_frame_def buf_of_def fin_bit opcode_rsv0 bs)
qed

lemma rsv_free: "b0 AND 0x0F = op \<Longrightarrow> b0 AND 0x7F = op \<Longrightarrow> b0 AND 0x70 = 0" for b0 :: byte
  by (auto simp: word_bits)

lemma first_second_byte:
  assumes "wf_frame f"
  shows "\<exists>b1 ext. encode_len (fr_key f \<noteq> None) (length (fr_payload f)) = b1 # ext \<and>
      masked b1 = (fr_key f \<noteq> None) \<and> (length (fr_payload f) < 65536 \<longrightarrow> len7 b1 \<noteq> 127) \<and>
      length ext = ext_size b1"
proof -
  let ?n = "length (fr_payload f)" and ?m = "fr_key f \<noteq> None"
  consider "?n < 126" | "126 \<le> ?n" "?n < 65536" | "65536 \<le> ?n" by linarith
  then show ?thesis
    using len7_flag [of ?n ?m]
    by cases (simp_all add: encode_len_def Let_def ext_size_def)
qed

lemma recv_encoded:
  assumes f: "wf_frame f" and g: "wf_garbage g"
    and small: "length (fr_payload f) < 65536" and masked_or: "fr_key f \<noteq> None \<or> fr_payload f \<noteq> []"
    and room: "length (encode_frame f @ rest) < 2 ^ 31"
  shows "\<exists>q. recv_dataframe (WebSocketPacket_new g) (buf_of (encode_frame f @ rest)) =
      Inr (word_of_nat (length (encode_frame f)), q,
        advance (length (encode_frame f)) (buf_of (encode_frame f @ rest))) \<and> holds_frame q f"
proof -
  let ?bs = "encode_frame f @ rest"
  obtain b1 ext where len: "encode_len (fr_key f \<noteq> None) (length (fr_payload f)) = b1 # ext"
    and m: "masked b1 = (fr_key f \<noteq> None)" and form: "len7 b1 \<noteq> 127" and ext: "length ext = ext_size b1"
    using first_second_byte [OF f] small by blast
  have op: "unat (fr_opcode f) < 16" and key: "\<And>k. fr_key f = Some k \<Longrightarrow> length k = 4"
    using f by (auto simp: wf_frame_def)
  have enc: "encode_frame f = ((if fr_fin f then 0x80 else 0) OR fr_opcode f) # b1 # ext @
      (case fr_key f of None \<Rightarrow> fr_payload f | Some key \<Rightarrow> key @ mask_bytes key 0 (fr_payload f))"
    using len by (simp add: encode_frame_def del: not_None_eq)
  have head: "?bs ! 1 = b1" "?bs ! 0 = (if fr_fin f then 0x80 else 0) OR fr_opcode f"
    by (simp_all add: enc)
  have rsv: "?bs ! 0 AND 0x70 = 0"
    using opcode_byte(1) [OF op, of "fr_fin f"] opcode_byte(4) [OF op, of "fr_fin f"] head(2)
    by (metis rsv_free)
  have size: "length (encode_frame f) = header_size b1 + length (fr_payload f)"
    using ext key m by (cases "fr_key f") (simp_all add: enc header_size_def key_size_def)
  have "complete_header ?bs"
    using size enc by (simp add: complete_header_def)
  moreover have "masked b1 \<or> header_size b1 < length ?bs"
    using masked_or m size by auto
  ultimately show ?thesis
    using recv_refines [OF room _ _ rsv g] form parse_encode_frame [OF f, of rest]
    by (simp only: head) auto
qed

section \<open>Receiving any bytes\<close>

text \<open>Whatever the buffer holds, a read moves at most to its end.\<close>

lemma read_over_any:
  assumes "length bs < 2 ^ 31" and "k \<le> length bs" and "0 < length dst" and "length dst \<le> 8"
  obtains x k' where "read_over dst (advance k (buf_of bs)) = Inr (x, advance k' (buf_of bs))"
    "length x = length dst" "k \<le> k'" "k' \<le> length bs" "k' \<le> k + length dst"
    "length dst \<le> length bs - k \<longrightarrow> k' = k + length dst"
proof (cases "length dst \<le> length bs - k")
  case True
  with assms show ?thesis
    by (intro that [of "take (length dst) (drop k bs)" "k + length dst"]) (simp_all add: read_over_wf)
next
  case False
  with assms show ?thesis by (intro that [of dst k]) (simp_all add: read_over_wf)
qed

lemma length16: "unat (ucast (l :: u16) :: u64) < 65536"
  using unsigned_less [of l, where ?'a = nat] by (simp add: unsigned_ucast_eq take_bit_nat_eq_self)

lemma length7: "unat (ucast (b :: byte) :: u64) < 65536"
  using unsigned_less [of b, where ?'a = nat] by (simp add: unsigned_ucast_eq take_bit_nat_eq_self)

lemma fetch_length_any:
  assumes len: "length bs < 2 ^ 31" and k: "k \<le> length bs" and zero: "pk_payload_length p = 0"
  obtains l k' where "fetch_length p (advance k (buf_of bs)) =
      Inr (p\<lparr>pk_payload_length := l\<rparr>, advance k' (buf_of bs))"
    "unat l < 65536" "k \<le> k'" "k' \<le> length bs" "k' \<le> k + 8"
proof -
  have same: "p\<lparr>pk_payload_length := 0\<rparr> = p" using zero by simp
  consider "pk_length_type p < 126" | "pk_length_type p = 126" | "pk_length_type p = 127"
    | "\<not> pk_length_type p < 126" "pk_length_type p \<noteq> 126" "pk_length_type p \<noteq> 127" by blast
  then show ?thesis
  proof cases
    case 1
    then show ?thesis
      using k by (intro that [of "ucast (pk_length_type p)" k]) (simp_all add: fetch_length_def length7)
  next
    case 2
    obtain x k' where "read_over [0, 0] (advance k (buf_of bs)) = Inr (x, advance k' (buf_of bs))"
      "k \<le> k'" "k' \<le> length bs" "k' \<le> k + length [0 :: byte, 0]"
      by (rule read_over_any [OF len k, of "[0, 0]"]) auto
    with 2 show ?thesis
      by (intro that [of "ucast (push_bit 8 (ucast (x ! 0)) OR ucast (x ! 1) :: u16)" k'])
        (simp_all add: fetch_length_def Let_def length16)
  next
    case 3
    obtain x k' where "read_over [0, 0, 0, 0, 0, 0, 0, 0] (advance k (buf_of bs)) = Inr (x, advance k' (buf_of bs))"
      "k \<le> k'" "k' \<le> length bs" "k' \<le> k + length [0 :: byte, 0, 0, 0, 0, 0, 0, 0]"
      by (rule read_over_any [OF len k, of "[0, 0, 0, 0, 0, 0, 0, 0]"]) auto
    with 3 same show ?thesis
      by (intro that [of 0 k']) (simp_all add: fetch_length_def)
  next
    case 4
    with same k show ?thesis by (intro that [of 0 k]) (simp_all add: fetch_length_def)
  qed
qed

lemma mask_bit_01: "drop_bit 7 b AND 0x01 = (0 :: byte) \<or> drop_bit 7 b AND 0x01 = (1 :: byte)"
  by (simp add: mask_flag)

lemma fetch_frame_info_any:
  assumes len: "length bs < 2 ^ 31" and zero: "pk_payload_length p = 0"
    and key: "length (pk_masking_key p) = 4"
  obtains h q where "fetch_frame_info p (buf_of bs) = Inr (int h, q, advance h (buf_of bs))"
    "h \<le> length bs" "h \<le> 14" "bs \<noteq> [] \<longrightarrow> 1 \<le> h" "pk_mask q = 0 \<or> pk_mask q = 1"
    "length (pk_masking_key q) = 4" "pk_payload q = pk_payload p" "unat (pk_payload_length q) < 65536"
proof -
  obtain x1 k1 where read1: "read_over [0] (advance 0 (buf_of bs)) = Inr (x1, advance k1 (buf_of bs))"
    "length x1 = length [0 :: byte]" "k1 \<le> length bs" "k1 \<le> 0 + length [0 :: byte]"
    "length [0 :: byte] \<le> length bs - 0 \<longrightarrow> k1 = 0 + length [0 :: byte]"
    by (rule read_over_any [OF len, of 0 "[0]"]) auto
  then have r1: "read_over [0] (buf_of bs) = Inr (x1, advance k1 (buf_of bs))"
    "length x1 = 1" "k1 \<le> length bs" "k1 \<le> 1" "bs \<noteq> [] \<longrightarrow> 1 \<le> k1"
    by (simp_all add: Suc_le_eq)
  obtain x2 k2 where r2: "read_over x1 (advance k1 (buf_of bs)) = Inr (x2, advance k2 (buf_of bs))"
    "k1 \<le> k2" "k2 \<le> length bs" "k2 \<le> k1 + 1"
    by (rule read_over_any [OF len r1(3), of x1]) (use r1(2) in auto)
  let ?p1 = "p\<lparr>pk_fin := drop_bit 7 (x1 ! 0), pk_opcode := x1 ! 0 AND 0x7F,
    pk_mask := drop_bit 7 (x2 ! 0) AND 0x01, pk_length_type := x2 ! 0 AND 0x7F\<rparr>"
  have "pk_payload_length ?p1 = 0" using zero by simp
  from fetch_length_any [OF len r2(3) this] obtain l k3 where r3:
    "fetch_length ?p1 (advance k2 (buf_of bs)) = Inr (?p1\<lparr>pk_payload_length := l\<rparr>, advance k3 (buf_of bs))"
    "unat l < 65536" "k2 \<le> k3" "k3 \<le> length bs" "k3 \<le> k2 + 8" .
  obtain x4 k4 where r4: "read_over (pk_masking_key p) (advance k3 (buf_of bs)) = Inr (x4, advance k4 (buf_of bs))"
    "length x4 = 4" "k3 \<le> k4" "k4 \<le> length bs" "k4 \<le> k3 + 4"
    by (rule read_over_any [OF len r3(4), of "pk_masking_key p"]) (use key in auto)
  have off: "getoft (advance k (buf_of bs)) = int k" if "k \<le> length bs" for k
    using that len by (simp add: getoft_wf uint_oft_advance)
  show ?thesis
  proof (cases "masked (x2 ! 0)")
    case True
    then show ?thesis
      using r1 r2 r3 r4 off [OF r4(4)]
      by (intro that [of k4 "?p1\<lparr>pk_payload_length := l, pk_masking_key := x4\<rparr>"])
        (simp_all add: fetch_frame_info_def Let_def mask_flag)
  next
    case False
    then show ?thesis
      using r1 r2 r3 key off [OF r3(4)]
      by (intro that [of k3 "?p1\<lparr>pk_payload_length := l\<rparr>"])
        (simp_all add: fetch_frame_info_def Let_def mask_flag)
  qed
qed

definition recv_result_ok :: "bytes \<Rightarrow> fault + (u64 \<times> WebSocketPacket \<times> ByteBuffer) \<Rightarrow> bool" where
  "recv_result_ok bs r \<longleftrightarrow>
     (case r of
        Inl e \<Rightarrow> e = Out_of_range
      | Inr (ndf, q, input) \<Rightarrow>
          unat ndf \<le> length bs \<and> input = advance (unat ndf) (buf_of bs) \<and>
          length (data (pk_payload q)) < 65536)"

lemma recv_dataframe_any:
  assumes len: "length bs < 2 ^ 31" and zero: "pk_payload_length p = 0"
    and key: "length (pk_masking_key p) = 4" and empty: "pk_payload p = buf_of []"
  shows "recv_result_ok bs (recv_dataframe p (buf_of bs))"
proof -
  obtain h q where info: "fetch_frame_info p (buf_of bs) = Inr (int h, q, advance h (buf_of bs))"
    and h: "h \<le> length bs" "h \<le> 14" and q: "pk_mask q = 0 \<or> pk_mask q = 1"
    "pk_payload q = buf_of []" "unat (pk_payload_length q) < 65536"
    by (rule fetch_frame_info_any [OF len zero key]) (use empty in auto)
  define n where "n = unat (pk_payload_length q)"
  have "uint (pk_payload_length q) = int n" by (simp add: n_def)
  moreover have "n < 65536" using q(3) by (simp add: n_def)
  moreover have "pk_payload_length q = word_of_nat n" by (simp add: n_def)
  ultimately have n: "pk_payload_length q = word_of_nat n" "n < 65536"
    "to_int32 (uint (pk_payload_length q)) = int n"
    by simp_all
  have body: "unread (advance h (buf_of bs)) = drop h bs" "wf_buf (advance h (buf_of bs))"
    using len h by simp_all
  have "length_bb (advance h (buf_of bs)) = int (length bs)"
    using len by (simp add: length_bb_wf)
  then have cmp: "pk_payload_length q + word_of_nat h > word_of_int (length_bb (advance h (buf_of bs))) \<longleftrightarrow>
      length bs < n + h"
    using n h len by (simp add: u64_compare del: of_nat_add)
  have reset: "resetoft (advance h (buf_of bs)) = buf_of bs"
    by (simp add: resetoft_def advance_def buf_of_def)
  have off: "getoft (advance (h + n) (buf_of bs)) = int (h + n)" if "n + h \<le> length bs"
    using that len by (simp add: getoft_wf uint_oft_advance)
  have size: "unat (word_of_nat (h + n) :: u64) = h + n"
    using n(2) h(2) by (simp add: unat_of_nat del: of_nat_add)
  consider (wait) "length bs < n + h" | (masked) "n + h \<le> length bs" "pk_mask q = 1"
    | (none) "n + h \<le> length bs" "pk_mask q = 0" "bs = []"
    | (throw) "n + h \<le> length bs" "pk_mask q = 0" "bs \<noteq> []" "h = length bs"
    | (plain) "n + h \<le> length bs" "pk_mask q = 0" "h < length bs"
    using q(1) h(1) by fastforce
  then show ?thesis
  proof cases
    case wait
    then show ?thesis by (simp add: recv_dataframe_def info cmp reset recv_result_ok_def q(2))
  next
    case masked
    then have "fetch_payload q (advance h (buf_of bs)) = Inr (0,
        q\<lparr>pk_payload := buf_of (mask_bytes (pk_masking_key q) 0 (take n (drop h bs)))\<rparr>,
        advance (h + n) (buf_of bs))"
      using body by (simp add: fetch_payload_def n_def [symmetric] mask_loop_spec q(2))
    with masked off size n(2) show ?thesis
      by (simp add: recv_dataframe_def info cmp recv_result_ok_def del: of_nat_add)
  next
    case none
    then have z: "h = 0" "n = 0" by simp_all
    have "fetch_payload q (advance h (buf_of bs)) = Inr (0, q, advance (h + n) (buf_of bs))"
      using none(2,3) body n z by (simp add: fetch_payload_def curat_wf append_bb_zero skip_x_wf)
    with none(1) off size show ?thesis
      by (simp add: recv_dataframe_def info cmp recv_result_ok_def q(2) del: of_nat_add)
  next
    case throw
    then have "fetch_payload q (advance h (buf_of bs)) = Inl Out_of_range"
      using body by (simp add: fetch_payload_def curat_wf)
    with throw(1) show ?thesis
      by (simp add: recv_dataframe_def info cmp recv_result_ok_def)
  next
    case plain
    then have "fetch_payload q (advance h (buf_of bs)) = Inr (0,
        q\<lparr>pk_payload := buf_of (take n (drop h bs))\<rparr>, advance (h + n) (buf_of bs))"
      using body n by (simp add: fetch_payload_def curat_wf append_bb_Some skip_x_wf q(2)) (auto simp: buf_of_def)
    with plain off size n(2) show ?thesis
      by (simp add: recv_dataframe_def info cmp recv_result_ok_def del: of_nat_add)
  qed
qed

section \<open>A sample\<close>

text \<open>The masked text frame ``Hello'' of RFC 6455, section 5.7, for the witnesses.\<close>

definition hello_frame :: frame where
  "hello_frame = \<lparr>fr_fin = True, fr_opcode = 1, fr_key = Some [0x37, 0xFA, 0x21, 0x3D],
     fr_payload = [0x48, 0x65, 0x6C, 0x6C, 0x6F]\<rparr>"

definition hello_bytes :: bytes where
  "hello_bytes = [0x81, 0x85, 0x37, 0xFA, 0x21, 0x3D, 0x7F, 0x9F, 0x4D, 0x51, 0x58]"

definition zero_garbage :: garbage where
  "zero_garbage = \<lparr>g_masking_key = [0, 0, 0, 0], g_hs_length = 0, g_sha_W = replicate 80 0\<rparr>"

definition hello_packet :: WebSocketPacket where
  "hello_packet = (WebSocketPacket_new zero_garbage)\<lparr>pk_fin := 1, pk_opcode := 1, pk_mask := 1,
     pk_masking_key := [0x37, 0xFA, 0x21, 0x3D], pk_payload_length := 5,
     pk_payload := buf_of (fr_payload hello_frame)\<rparr>"

lemma wf_zero_garbage [simp]: "wf_garbage zero_garbage"
  by (simp add: wf_garbage_def zero_garbage_def)

lemma wf_hello_frame [simp]: "wf_frame hello_frame"
  by (simp add: wf_frame_def hello_frame_def)

lemma hello_encoded: "encode_frame hello_frame = hello_bytes"
  by (simp add: encode_frame_def hello_frame_def hello_bytes_def encode_len_def)

lemma hello_described [simp]: "describes hello_packet hello_frame"
  by (simp add: describes_def hello_packet_def hello_frame_def WebSocketPacket_new_def)

lemma hello_small [simp]: "length (fr_payload hello_frame) = 5" "fr_key hello_frame = Some [0x37, 0xFA, 0x21, 0x3D]"
  "length hello_bytes = 11"
  by (simp_all add: hello_frame_def hello_bytes_def)

lemma hello_parsed: "parse_frame hello_bytes = Some (hello_frame, 11)"
  using parse_encode_frame [OF wf_hello_frame, of "[]"] by (simp add: hello_encoded)

lemma hello_header:
  "complete_header hello_bytes" "len7 (hello_bytes ! 1) = 5" "masked (hello_bytes ! 1)"
  "hello_bytes ! 0 AND 0x70 = 0"
  by (simp_all add: complete_header_def hello_bytes_def header_size_def ext_size_def key_size_def
      len7_def masked_def bit_iff_odd_drop_bit)

section \<open>Properties of a single frame\<close>

text \<open>C5: packing. For a packet whose fields describe an RFC 6455 frame, \<^verbatim>\<open>pack_dataframe\<close>
  returns 0 and appends exactly the RFC encoding of that frame to the output buffer, for each of
  the three length forms, masked or not.\<close>

theorem pack_dataframe_writes_rfc_frame:
  assumes "describes p f" and "wf_frame f" and "length (fr_payload f) < 2 ^ 31"
  shows "\<exists>p'. pack_dataframe p out = Inr (0, p', out\<lparr>data := data out @ encode_frame f\<rparr>)"
  using assms by (rule pack_frame_bytes)

theorem pack_dataframe_writes_rfc_frame_witness:
  "\<exists>p'. pack_dataframe hello_packet (buf_of [0xFF]) = Inr (0, p', buf_of (0xFF # hello_bytes))"
  using pack_dataframe_writes_rfc_frame [of hello_packet hello_frame "buf_of [0xFF]"]
  by (simp add: hello_encoded buf_of_def)

text \<open>C4: receiving refines the RFC parser. When the whole header has arrived, its length is not
  in the 64-bit form, the reserved bits are zero and the frame is masked or not at the very end of
  the buffer, \<^verbatim>\<open>recv_dataframe\<close> returns 0 and leaves the buffer as it was if the frame is
  incomplete; otherwise it returns the size of the frame, has moved past it, and the packet holds
  its FIN flag, opcode and unmasked payload.\<close>

theorem recv_dataframe_refines_parser:
  assumes len: "length bs < 2 ^ 31" and header: "complete_header bs" and form: "len7 (bs ! 1) \<noteq> 127"
    and rsv: "bs ! 0 AND 0x70 = 0" and g: "wf_garbage g"
    and not_last: "masked (bs ! 1) \<or> header_size (bs ! 1) < length bs"
  shows "case parse_frame bs of
      None \<Rightarrow> \<exists>p. recv_dataframe (WebSocketPacket_new g) (buf_of bs) = Inr (0, p, buf_of bs)
    | Some (f, used) \<Rightarrow> \<exists>p. recv_dataframe (WebSocketPacket_new g) (buf_of bs) =
          Inr (word_of_nat used, p, advance used (buf_of bs)) \<and> holds_frame p f"
  using assms by (rule recv_refines)

theorem recv_dataframe_refines_parser_witness:
  "\<exists>p. recv_dataframe (WebSocketPacket_new zero_garbage) (buf_of hello_bytes) =
    Inr (11, p, advance 11 (buf_of hello_bytes)) \<and> holds_frame p hello_frame"
  using recv_dataframe_refines_parser [of hello_bytes zero_garbage]
  by (simp add: hello_header [unfolded One_nat_def] hello_parsed)

text \<open>C6: round trip. What \<^verbatim>\<open>pack_dataframe\<close> writes for a frame of at most 65535 bytes that is
  masked or not empty, \<^verbatim>\<open>recv_dataframe\<close> of a new packet reads back: it consumes exactly those
  bytes, whatever follows them, and the packet holds the FIN flag, the opcode and the payload.\<close>

theorem pack_recv_roundtrip:
  assumes p: "describes p f" and f: "wf_frame f" and g: "wf_garbage g"
    and small: "length (fr_payload f) < 65536" and masked_or: "fr_key f \<noteq> None \<or> fr_payload f \<noteq> []"
    and room: "length (encode_frame f @ rest) < 2 ^ 31"
  shows "\<exists>p' out q. pack_dataframe p ByteBuffer_new = Inr (0, p', out) \<and>
    recv_dataframe (WebSocketPacket_new g) (buf_of (data out @ rest)) =
      Inr (word_of_nat (length (data out)), q, advance (length (data out)) (buf_of (data out @ rest))) \<and>
    holds_frame q f"
proof -
  obtain p' where pack: "pack_dataframe p ByteBuffer_new = Inr (0, p', buf_of (encode_frame f))"
    using pack_frame_bytes [OF p f, of "buf_of []"] small by (auto simp: ByteBuffer_new_buf_of buf_of_def)
  with recv_encoded [OF f g small masked_or room] show ?thesis by auto
qed

theorem pack_recv_roundtrip_witness:
  "\<exists>p' out q. pack_dataframe hello_packet ByteBuffer_new = Inr (0, p', out) \<and>
    recv_dataframe (WebSocketPacket_new zero_garbage) (buf_of (data out @ [0x88])) =
      Inr (word_of_nat (length (data out)), q, advance (length (data out)) (buf_of (data out @ [0x88]))) \<and>
    holds_frame q hello_frame"
  by (rule pack_recv_roundtrip) (simp_all add: hello_encoded)

text \<open>C19: the 64-bit length form. For a masked frame whose length is in the 64-bit form,
  \<^verbatim>\<open>recv_dataframe\<close> drops the length: it returns the size of the header, 14, with an empty
  payload, and leaves the payload in the buffer, to be read as the next frame.\<close>

theorem recv_dataframe_drops_64bit_length:
  assumes "length bs < 2 ^ 31" and "complete_header bs" and "len7 (bs ! 1) = 127"
    and "masked (bs ! 1)" and "wf_garbage g"
  shows "\<exists>p. recv_dataframe (WebSocketPacket_new g) (buf_of bs) = Inr (14, p, advance 14 (buf_of bs)) \<and>
    data (pk_payload p) = []"
proof -
  obtain b0 b1 ext key body where bs: "bs = b0 # b1 # ext @ key @ body"
    and ext: "length ext = ext_size b1" and key: "length key = key_size b1"
    using assms(2) by (rule complete_headerE)
  define q where "q = header_packet (WebSocketPacket_new g) b0 b1 ext key"
  have n: "pk_payload_length q = word_of_nat 0"
    using assms(3) by (simp add: q_def header_packet_def bs)
  note recv = recv_dataframe_complete [OF assms(1) bs ext key _ q_def n _ refl]
  show ?thesis
    using recv assms(3,4) wf_garbage_key [OF assms(5)]
    by (simp add: bs header_size_def ext_size_def key_size_def)
qed

theorem recv_dataframe_drops_64bit_length_witness:
  "\<exists>p. recv_dataframe (WebSocketPacket_new zero_garbage)
        (buf_of ([0x82, 0xFF, 0, 0, 0, 0, 0, 1, 0, 0, 1, 2, 3, 4] @ replicate 65536 7)) =
      Inr (14, p, advance 14 (buf_of ([0x82, 0xFF, 0, 0, 0, 0, 0, 1, 0, 0, 1, 2, 3, 4] @ replicate 65536 7))) \<and>
    data (pk_payload p) = []"
  by (rule recv_dataframe_drops_64bit_length)
    (simp_all add: complete_header_def header_size_def ext_size_def key_size_def len7_def masked_def
      bit_iff_odd_drop_bit)

text \<open>C20: a header that arrives in two reads. When only the first two bytes of a masked frame have
  arrived and the length has an extended form (or is zero), the RFC parser waits, but
  \<^verbatim>\<open>recv_dataframe\<close> ignores that the length and the key could not be read and returns a frame of
  two bytes with an empty payload.\<close>

theorem recv_dataframe_accepts_split_header:
  assumes "masked b1" and "len7 b1 = 0 \<or> 126 \<le> len7 b1" and "wf_garbage g"
  shows "parse_frame [b0, b1] = None \<and>
    (\<exists>p. recv_dataframe (WebSocketPacket_new g) (buf_of [b0, b1]) =
      Inr (2, p, advance 2 (buf_of [b0, b1])) \<and> data (pk_payload p) = [])"
proof
  show "parse_frame [b0, b1] = None"
    using assms(1) by (simp add: parse_frame_def header_size_def key_size_def Let_def)
  define p where "p = (WebSocketPacket_new g)\<lparr>pk_fin := drop_bit 7 b0, pk_opcode := b0 AND 0x7F,
    pk_mask := 1, pk_length_type := b1 AND 0x7F, pk_payload_length := 0\<rparr>"
  have key: "length (pk_masking_key p) = 4" and zero: "pk_payload_length p = 0" "pk_mask p = 1"
    and empty: "data (pk_payload p) = []"
    using wf_garbage_key [OF assms(3)] by (simp_all add: p_def WebSocketPacket_new_def ByteBuffer_new_def)
  define end_buf where "end_buf = advance 2 (buf_of [b0, b1])"
  have wf: "wf_buf end_buf" "unread end_buf = []" "getoft end_buf = 2" "length_bb end_buf = 2"
    by (simp_all add: end_buf_def getoft_wf uint_oft_advance length_bb_wf)
  have none: "read_over dst end_buf = Inr (dst, end_buf)" if "0 < length dst" "length dst \<le> 8" for dst
    using that wf by (simp add: read_over_wf)
  have lt: "pk_length_type p = b1 AND 0x7F" "p\<lparr>pk_payload_length := 0\<rparr> = p"
    by (simp_all add: p_def)
  consider "len7 b1 = 0" | "len7 b1 = 126" | "len7 b1 = 127"
    using assms(2) len7_cases [of b1] by linarith
  then have len: "fetch_length p end_buf = Inr (p, end_buf)"
  proof cases
    case 1
    then have "b1 AND 0x7F = 0" by (simp add: len7_def unat_eq_0)
    with lt show ?thesis by (simp add: fetch_length_def)
  qed (use lt in \<open>simp_all add: fetch_length_def length_type_tests none\<close>)
  define in1 where "in1 = advance 1 (buf_of [b0, b1])"
  have reads: "read_over [0] (buf_of [b0, b1]) = Inr ([b0], in1)" "read_over [b0] in1 = Inr ([b1], end_buf)"
    by (simp_all add: in1_def end_buf_def read_over_wf) (simp add: numeral_2_eq_2)
  have p: "(WebSocketPacket_new g)\<lparr>pk_fin := drop_bit 7 b0, pk_opcode := b0 AND 0x7F,
      pk_mask := 1, pk_length_type := b1 AND 0x7F\<rparr> = p"
    by (simp add: p_def WebSocketPacket_new_def)
  have info: "fetch_frame_info (WebSocketPacket_new g) (buf_of [b0, b1]) = Inr (2, p, end_buf)"
    using assms(1) key zero(2) wf(3)
    by (simp add: fetch_frame_info_def reads mask_flag p len none Let_def)
  then show "\<exists>p. recv_dataframe (WebSocketPacket_new g) (buf_of [b0, b1]) =
      Inr (2, p, advance 2 (buf_of [b0, b1])) \<and> data (pk_payload p) = []"
    using empty wf unfolding end_buf_def [symmetric]
    by (simp add: recv_dataframe_def fetch_payload_def zero)
qed

theorem recv_dataframe_accepts_split_header_witness:
  "parse_frame [0x82, 0xFE] = None \<and>
    (\<exists>p. recv_dataframe (WebSocketPacket_new zero_garbage) (buf_of [0x82, 0xFE]) =
      Inr (2, p, advance 2 (buf_of [0x82, 0xFE])) \<and> data (pk_payload p) = [])"
  by (rule recv_dataframe_accepts_split_header) (simp_all add: len7_def masked_def bit_iff_odd_drop_bit)

text \<open>C21: an empty frame that is not masked, at the very end of the buffer, makes
  \<^verbatim>\<open>recv_dataframe\<close> throw \<^verbatim>\<open>std::out_of_range\<close>, which nothing catches, although the frame is
  complete.\<close>

theorem recv_dataframe_throws_on_empty_tail:
  assumes "len7 b1 = 0" and "\<not> masked b1" and "wf_garbage g"
  shows "recv_dataframe (WebSocketPacket_new g) (buf_of [b0, b1]) = Inl Out_of_range"
proof -
  let ?q = "header_packet (WebSocketPacket_new g) b0 b1 [] []"
  have "header_size b1 = 2" "ext_size b1 = 0" "key_size b1 = 0" "pk_payload_length ?q = word_of_nat 0"
    using assms by (simp_all add: header_size_def ext_size_def key_size_def header_packet_def)
  then show ?thesis
    using assms wf_garbage_key [OF assms(3)]
    by (subst recv_dataframe_complete [where ext = "[]" and key = "[]" and body = "[]" and n = 0 and q = ?q])
      simp_all
qed

theorem recv_dataframe_throws_on_empty_tail_witness:
  "recv_dataframe (WebSocketPacket_new zero_garbage) (buf_of [0x89, 0x00]) = Inl Out_of_range"
  by (rule recv_dataframe_throws_on_empty_tail) (simp_all add: len7_def masked_def)

text \<open>C7: on any bytes whatever, complete frames or not, \<^verbatim>\<open>recv_dataframe\<close> of a new packet
  returns or throws \<^verbatim>\<open>std::out_of_range\<close>, never reads outside the buffer, returns the number
  of bytes it moved past, at most those in the buffer, and extracts less than 65536 bytes.\<close>

theorem recv_dataframe_stays_in_buffer:
  assumes "length bs < 2 ^ 31" and "wf_garbage g"
  shows "case recv_dataframe (WebSocketPacket_new g) (buf_of bs) of
      Inl e \<Rightarrow> e = Out_of_range
    | Inr (ndf, q, input) \<Rightarrow> unat ndf \<le> length bs \<and> input = advance (unat ndf) (buf_of bs) \<and>
        length (data (pk_payload q)) < 65536"
  using recv_dataframe_any [OF assms(1), of "WebSocketPacket_new g"] wf_garbage_key [OF assms(2)]
  by (simp add: recv_result_ok_def)

theorem recv_dataframe_stays_in_buffer_witness:
  "case recv_dataframe (WebSocketPacket_new zero_garbage) (buf_of [0x81, 0xFF, 1, 2]) of
      Inl e \<Rightarrow> e = Out_of_range
    | Inr (ndf, q, input) \<Rightarrow> unat ndf \<le> length [0x81, 0xFF, 1, 2 :: byte] \<and>
        input = advance (unat ndf) (buf_of [0x81, 0xFF, 1, 2]) \<and> length (data (pk_payload q)) < 65536"
  by (rule recv_dataframe_stays_in_buffer) simp_all

section \<open>The packet class as a codec\<close>

text \<open>
  The sequence of calls that sends a message (constructor, \<^verbatim>\<open>set_fin\<close>, \<^verbatim>\<open>set_opcode\<close>,
  \<^verbatim>\<open>set_payload\<close>, \<^verbatim>\<open>pack_dataframe\<close> into a new buffer), as in
  \<^verbatim>\<open>WebSocketEndpoint::user_defined_process\<close>, and the one that receives it.
\<close>

definition message_packet :: "garbage \<Rightarrow> byte \<Rightarrow> byte \<Rightarrow> ptr \<Rightarrow> u64 \<Rightarrow> fault + WebSocketPacket" where
  "message_packet g fin opcode payload len =
     set_payload payload len (set_opcode opcode (set_fin fin (WebSocketPacket_new g)))"

definition message_bytes :: "garbage \<Rightarrow> byte \<times> byte \<times> bytes \<Rightarrow> fault + bytes" where
  "message_bytes g = (\<lambda>(fin, opcode, payload).
     bindE (message_packet g fin opcode (Some payload) (word_of_nat (length payload))) (\<lambda>p.
     bindE (pack_dataframe p ByteBuffer_new) (\<lambda>(_, _, output). Inr (data output))))"

definition message_of_bytes :: "garbage \<Rightarrow> fault + bytes \<Rightarrow> fault + (byte \<times> byte \<times> bytes)" where
  "message_of_bytes g m =
     bindE m (\<lambda>bs.
     bindE (recv_dataframe (WebSocketPacket_new g) (buf_of bs)) (\<lambda>(_, p, _).
     Inr (pk_fin p, pk_opcode p, data (pk_payload p))))"

definition sendable :: "byte \<times> byte \<times> bytes \<Rightarrow> bool" where
  "sendable = (\<lambda>(fin, opcode, payload). fin \<le> 1 \<and> unat opcode < 16 \<and> 0 < length payload \<and> length payload < 65536)"

lemma message_packet_describes:
  assumes "fin \<le> 1" and "length payload < 2 ^ 31"
  shows "\<exists>p. message_packet g fin opcode (if payload = [] then None else Some payload) (word_of_nat (length payload)) = Inr p \<and>
    message_packet g fin opcode (Some payload) (word_of_nat (length payload)) = Inr p \<and>
    describes p \<lparr>fr_fin = (fin = 1), fr_opcode = opcode, fr_key = None, fr_payload = payload\<rparr>"
proof -
  have "fin = 0 \<or> fin = 1"
    using assms(1) by (simp add: word_le_nat_alt word_unat_eq_iff) linarith
  moreover have "uint (word_of_nat (length payload) :: u64) = int (length payload)"
    using assms(2) by (simp add: uint_nat unat_of_nat)
  ultimately show ?thesis
    using assms(2)
    by (auto simp: message_packet_def set_payload_def set_opcode_def set_fin_def WebSocketPacket_new_def
        ByteBuffer_new_def append_bb_def describes_def length_bb_def buf_of_def mem_read_def)
qed

lemma message_roundtrip:
  assumes "wf_garbage g'" and "sendable m"
  shows "message_of_bytes g' (message_bytes g m) = Inr m"
proof -
  obtain fin opcode payload where m: "m = (fin, opcode, payload)" by (cases m)
  let ?f = "\<lparr>fr_fin = (fin = 1), fr_opcode = opcode, fr_key = None, fr_payload = payload\<rparr>"
  have s: "fin \<le> 1" "unat opcode < 16" "payload \<noteq> []" "length payload < 65536"
    using assms(2) by (auto simp: sendable_def m)
  have fin: "(if fin = 1 then 1 else 0) = fin"
    using s(1) by (simp add: word_le_nat_alt word_unat_eq_iff)
  have f: "wf_frame ?f" using s by (simp add: wf_frame_def)
  have size: "length (encode_frame ?f) < 2 ^ 31"
    using s(4) by (simp add: encode_frame_def encode_len_def Let_def)
  obtain p where p: "message_packet g fin opcode (Some payload) (word_of_nat (length payload)) = Inr p"
    and d: "describes p ?f"
    using message_packet_describes [of fin payload g opcode] s by auto
  obtain p' where pack: "pack_dataframe p (buf_of []) = Inr (0, p', buf_of (encode_frame ?f))"
    using pack_frame_bytes [OF d f, of "buf_of []"] s by (auto simp: buf_of_def)
  obtain q where "recv_dataframe (WebSocketPacket_new g') (buf_of (encode_frame ?f)) =
      Inr (word_of_nat (length (encode_frame ?f)), q, advance (length (encode_frame ?f)) (buf_of (encode_frame ?f)))"
    and "holds_frame q ?f"
    using recv_encoded [OF f assms(1), of "[]"] s size by auto
  then show ?thesis
    using p pack fin
    by (simp add: m message_bytes_def message_of_bytes_def ByteBuffer_new_buf_of holds_frame_def)
qed

interpretation frame_codec: codec "\<lambda>m. wf_garbage g' \<and> sendable m" "message_bytes g" "message_of_bytes g'"
  for g g' :: garbage
  by unfold_locales (simp add: message_roundtrip)

text \<open>Two different messages, of 1 to 65535 bytes, are never sent as the same bytes: what the
  packet class writes determines the FIN flag, the opcode and the payload.\<close>

theorem message_bytes_distinguishes:
  assumes "sendable m" and "sendable m'" and "m \<noteq> m'"
  shows "message_bytes g m \<noteq> message_bytes g m'"
  using frame_codec.enc_inj [of zero_garbage m m' g] assms by auto

theorem message_bytes_distinguishes_witness:
  "message_bytes zero_garbage (1, 1, [0x48]) \<noteq> message_bytes zero_garbage (0, 1, [0x48])"
  by (rule message_bytes_distinguishes) (simp_all add: sendable_def)

end
