(* ===== verification/Ws_Handshake.thy ===== *)
theory Ws_Handshake
  imports Ws_Packet
begin

text \<open>
  The handshake methods of \<^verbatim>\<open>WebSocketPacket\<close> (src/src/ws_packet.cpp): the scan of the HTTP
  request, the checks of its header fields and the reply. Then a request as a syntactic object
  with its rendering, and what the code makes of it.
\<close>

section \<open>The methods\<close>

definition SP :: string where "SP = '' ''"

definition EOL :: string where "EOL = [CHR 0x0D, CHR 0x0A]"

definition WS_ERROR_INVALID_HANDSHAKE_PARAMS :: int where
  "WS_ERROR_INVALID_HANDSHAKE_PARAMS = 10070"

definition WS_MAX_HANDSHAKE_FRAME_SIZE :: int where
  "WS_MAX_HANDSHAKE_FRAME_SIZE = 1024 * 1000"

text \<open>One header line: the text before the first colon and the text after it, both trimmed.\<close>

definition hs_line :: "string \<Rightarrow> WebSocketPacket \<Rightarrow> WebSocketPacket" where
  "hs_line line p =
     (case find_first_of line (CHR '':'') of
        None \<Rightarrow> p
      | Some pos \<Rightarrow>
          (let k = trim (take pos line) (CHR '' ''); v = drop (pos + 1) line in
           if k = [] then p
           else let v = trim v (CHR '' '') in
             if v = [] then p else set_param k v p))"

text \<open>The loop that passes the blank lines at the front trims each line it looks at, in place.\<close>

fun skip_blank :: "string list \<Rightarrow> string list" where
  "skip_blank [] = []"
| "skip_blank (l # ls) = (let l = trim l (CHR '' '') in if l = [] then skip_blank ls else l # ls)"

definition fetch_hs_element :: "string \<Rightarrow> WebSocketPacket \<Rightarrow> fault + (int \<times> WebSocketPacket)" where
  "fetch_hs_element msg p =
     (case str_find msg (EOL @ EOL) 0 of
        None \<Rightarrow> Inr (-1, p)
      | Some endpos \<Rightarrow>
          bindE (splitStr [] (take endpos msg) (Some EOL)) (\<lambda>(count, lines).
          if count < 2 then Inr (-1, p)
          else case skip_blank lines of
              [] \<Rightarrow> Inl Deref_end
            | l # ls \<Rightarrow>
                bindE (splitStr [] l (Some SP)) (\<lambda>(count, reqLineParams).
                if count < 3 then Inr (-1, p)
                else
                  let p = p\<lparr>pk_mothod := trim (reqLineParams ! 0) (CHR '' ''),
                            pk_uri := trim (reqLineParams ! 1) (CHR '' ''),
                            pk_version := trim (reqLineParams ! 2) (CHR '' '')\<rparr>
                  in Inr (to_int32 (int endpos + 4), fold hs_line ls p))))"

definition recv_handshake ::
  "WebSocketPacket \<Rightarrow> ByteBuffer \<Rightarrow> fault + (int \<times> WebSocketPacket \<times> ByteBuffer)" where
  "recv_handshake p input =
     (if length_bb input > WS_MAX_HANDSHAKE_FRAME_SIZE then
        Inr (WS_MAX_HANDSHAKE_FRAME_SIZE, p, input)
      else
        bindE (if length_bb input < 0 then Inl Length_error
               else mem_read (bytes_bb input) (nat (length_bb input))) (\<lambda>inputbytes.
        bindE (fetch_hs_element (str_of_bytes inputbytes) p) (\<lambda>(frame_size, p).
        if frame_size \<le> 0 then Inr (0, p, resetoft input)
        else if get_param p ''Upgrade'' \<noteq> ''websocket'' \<or> get_param p ''Connection'' \<noteq> ''Upgrade'' \<or>
                get_param p ''Sec-WebSocket-Version'' \<noteq> ''13'' \<or> get_param p ''Sec-WebSocket-Key'' = []
        then Inr (WS_ERROR_INVALID_HANDSHAKE_PARAMS, p, resetoft input)
        else
          let p = p\<lparr>pk_hs_length := word_of_int frame_size\<rparr>;
              (_, input) = skip_x input (to_int32 (uint (pk_hs_length p)))
          in Inr (0, p, input))))"

definition magic_key :: string where
  "magic_key = ''258EAFA5-E914-47DA-95CA-C5AB0DC85B11''"

text \<open>
  \<^verbatim>\<open>accept_key\<close> is an array of 128 characters, zero at first, that \<^verbatim>\<open>Base64encode\<close> writes
  and the stream prints up to its NUL.
\<close>

definition accept_key :: "u32 list \<Rightarrow> string \<Rightarrow> string" where
  "accept_key junk raw_key =
     (let sha1_key = SHA1HashString junk raw_key
      in snd (Base64encode (bytes_of_str sha1_key) (int (length sha1_key))))"

definition pack_handshake_rsp :: "u32 list \<Rightarrow> WebSocketPacket \<Rightarrow> string" where
  "pack_handshake_rsp junk p =
     (let raw_key = get_param p ''Sec-WebSocket-Key'' @ magic_key in
      ''HTTP/1.1 101 Switching Protocols'' @ EOL @
      ''Connection: upgrade'' @ EOL @
      ''Upgrade: websocket'' @ EOL @
      ''Sec-WebSocket-Accept: '' @ c_str (accept_key junk raw_key) @ EOL @
      (if get_param p ''Sec-WebSocket-Protocol'' \<noteq> []
       then ''Sec-WebSocket-Protocol: chat'' @ EOL else []) @
      EOL)"

section \<open>Requests\<close>

text \<open>
  A request as a client builds it: the words of the request line and the header fields, in
  order, and the text that is sent for it, with the line end of HTTP (nothing of it is taken from the code).
\<close>

definition CRLF :: string where
  "CRLF = [CHR 0x0D, CHR 0x0A]"

record http_request =
  rq_method :: string
  rq_uri :: string
  rq_version :: string
  rq_headers :: "(string \<times> string) list"

definition header_line :: "string \<times> string \<Rightarrow> string" where
  "header_line = (\<lambda>(k, v). k @ '': '' @ v)"

definition request_lines :: "http_request \<Rightarrow> string list" where
  "request_lines r = (rq_method r @ '' '' @ rq_uri r @ '' '' @ rq_version r) # map header_line (rq_headers r)"

definition render_request :: "http_request \<Rightarrow> string" where
  "render_request r = terminated CRLF (request_lines r) @ CRLF"

definition word :: "string \<Rightarrow> bool" where
  "word w \<longleftrightarrow> w \<noteq> [] \<and> CHR '' '' \<notin> set w \<and> CHR 0x0D \<notin> set w"

definition field_text :: "string \<Rightarrow> bool" where
  "field_text s \<longleftrightarrow> s \<noteq> [] \<and> hd s \<noteq> CHR '' '' \<and> last s \<noteq> CHR '' '' \<and> CHR 0x0D \<notin> set s"

definition wf_request :: "http_request \<Rightarrow> bool" where
  "wf_request r \<longleftrightarrow> word (rq_method r) \<and> word (rq_uri r) \<and> word (rq_version r) \<and>
     rq_headers r \<noteq> [] \<and>
     list_all (\<lambda>(k, v). field_text k \<and> CHR '':'' \<notin> set k \<and> field_text v) (rq_headers r)"

text \<open>A field that is sent twice has the value that came last.\<close>

definition request_params :: "http_request \<Rightarrow> (string \<rightharpoonup> string) \<Rightarrow> string \<rightharpoonup> string" where
  "request_params r m = m ++ map_of (rev (rq_headers r))"

lemma EOL_simps [simp]: "EOL \<noteq> []" "hd EOL = CHR 0x0D" "length EOL = 2"
  by (simp_all add: EOL_def)

lemma SP_simps [simp]: "SP \<noteq> []" "hd SP = CHR '' ''" "length SP = 1" "set SP = {CHR '' ''}"
  by (simp_all add: SP_def)

text \<open>The code has the same separators.\<close>

lemma CRLF_EOL: "CRLF = EOL"
  by (simp add: CRLF_def EOL_def)

lemma request_lines_SP: "request_lines r = (rq_method r @ SP @ rq_uri r @ SP @ rq_version r) # map header_line (rq_headers r)"
  by (simp add: request_lines_def SP_def)

lemma render_request_EOL: "render_request r = terminated EOL (request_lines r) @ EOL"
  by (simp add: render_request_def CRLF_EOL)

lemma strip_field [simp]:
  assumes "s \<noteq> []" and "hd s \<noteq> c" and "last s \<noteq> c"
  shows "strip c s = s"
proof -
  have "dropWhile (\<lambda>x. x = c) s = s"
    using assms by (cases s) auto
  moreover have "dropWhile (\<lambda>x. x = c) (rev s) = rev s"
    using assms by (cases s rule: rev_cases) auto
  ultimately show ?thesis by (simp add: strip_def)
qed

lemma strip_Cons [simp]: "strip c (c # s) = strip c s"
  by (simp add: strip_def)

lemma word_field: "word w \<Longrightarrow> field_text w"
  by (auto simp: word_def field_text_def dest: hd_in_set last_in_set)

section \<open>Finding the end of a request\<close>

lemma find_from_skip:
  "pat \<noteq> [] \<Longrightarrow> hd pat \<notin> set l \<Longrightarrow> find_from pat (l @ t) i = find_from pat t (i + length l)"
proof (induction l arbitrary: i)
  case (Cons c l)
  then have "take (length pat) (c # l @ t) \<noteq> pat"
    by (cases pat) auto
  with Cons show ?case by simp
qed simp

text \<open>Lines that are not empty hide no end of a request.\<close>

lemma find_double_EOL:
  "ls \<noteq> [] \<Longrightarrow> \<forall>l \<in> set ls. l \<noteq> [] \<and> CHR 0x0D \<notin> set l \<Longrightarrow>
    find_from (EOL @ EOL) (terminated EOL ls @ EOL @ rest) i = Some (i + length (terminated EOL ls) - 2)"
proof (induction ls arbitrary: i)
  case (Cons l ls)
  have skip: "find_from (EOL @ EOL) (l @ t) i = find_from (EOL @ EOL) t (i + length l)" for t
    using Cons.prems by (intro find_from_skip) auto
  show ?case
  proof (cases ls)
    case Nil
    then show ?thesis by (simp add: skip) (simp add: EOL_def)
  next
    case (Cons l' ls')
    then obtain c l'' where l': "l' = c # l''" and c: "c \<noteq> CHR 0x0D"
      using Cons.prems(2) by (cases l') auto
    have "find_from (EOL @ EOL) (EOL @ c # t) j = find_from (EOL @ EOL) (c # t) (j + 2)" for t j
      using c by (simp add: EOL_def)
    then show ?thesis
      using Cons.IH [of "i + length l + 2"] Cons.prems(2) Cons l' by (simp add: skip)
  qed
qed simp


lemma request_lines_wf:
  assumes "wf_request r"
  shows "\<forall>l \<in> set (request_lines r). l \<noteq> [] \<and> CHR 0x0D \<notin> set l"
  using assms by (auto simp: wf_request_def request_lines_SP header_line_def word_def field_text_def
      list_all_iff)

lemma request_end:
  assumes "wf_request r"
  shows "str_find (render_request r @ rest) (EOL @ EOL) 0 = Some (length (render_request r) - 4)"
proof -
  have "request_lines r \<noteq> []" by (simp add: request_lines_SP)
  from find_double_EOL [OF this request_lines_wf [OF assms], of rest 0] show ?thesis
    by (simp add: str_find_def render_request_EOL)
qed

lemma terminated_last:
  assumes "ls \<noteq> []"
  shows "terminated d ls = terminated d (butlast ls) @ last ls @ d"
  using assms by (metis append_butlast_last_id append_Nil2 terminated_simps)

lemma split_lines:
  assumes ne: "ls \<noteq> []" and lines: "\<forall>l \<in> set ls. l \<noteq> [] \<and> CHR 0x0D \<notin> set l"
  shows "splitStr [] (take (length (terminated EOL ls) - 2) (terminated EOL ls @ t)) (Some EOL) =
    Inr (length ls, ls)"
proof -
  note last = terminated_last [OF ne, of EOL]
  have body: "take (length (terminated EOL ls) - 2) (terminated EOL ls @ t) =
      terminated EOL (butlast ls) @ last ls"
    by (simp add: last)
  have l: "last ls \<noteq> []" "\<forall>l \<in> set (last ls # butlast ls). hd EOL \<notin> set l"
    using ne lines by (auto dest: in_set_butlastD)
  have "splitStr [] (terminated EOL (butlast ls) @ last ls) (Some EOL) =
      Inr (length (pieces (butlast ls) (last ls)), [] @ pieces (butlast ls) (last ls))"
    using l by (intro splitStr_terminated) auto
  moreover have "pieces (butlast ls) (last ls) = ls"
    using l(1) ne by (simp add: pieces_def)
  ultimately show ?thesis unfolding body by simp
qed

lemma request_split:
  assumes "wf_request r"
  shows "splitStr [] (take (length (render_request r) - 4) (render_request r)) (Some EOL) =
    Inr (length (request_lines r), request_lines r)"
proof -
  have ne: "request_lines r \<noteq> []" by (simp add: request_lines_SP)
  from split_lines [OF ne request_lines_wf [OF assms], of EOL] show ?thesis
    by (simp add: render_request_EOL)
qed

lemma three_words:
  assumes "word a" and "word b" and "word c"
  shows "splitStr [] (a @ SP @ b @ SP @ c) (Some SP) = Inr (3, [a, b, c])"
  using assms splitStr_terminated [of SP c "[a, b]" "[]"] by (auto simp: word_def pieces_def)

lemma find_index_skip: "\<forall>x \<in> set l. \<not> P x \<Longrightarrow> find_index P (l @ t) i = find_index P t (i + length l)"
  by (induction l arbitrary: i) auto

lemma hs_line_field:
  assumes "field_text k" and "CHR '':'' \<notin> set k" and "field_text v"
  shows "hs_line (header_line (k, v)) p = set_param k v p"
proof -
  have "find_index (\<lambda>x. x = CHR '':'') (k @ '': '' @ v) 0 = Some (length k)"
    using assms(2) by (subst find_index_skip) auto
  then show ?thesis
    using assms(1,3) by (simp add: hs_line_def header_line_def find_first_of_def trim_strip field_text_def)
qed

lemma fold_hs_line:
  assumes "list_all (\<lambda>(k, v). field_text k \<and> CHR '':'' \<notin> set k \<and> field_text v) hs"
  shows "fold hs_line (map header_line hs) p =
    p\<lparr>pk_params := pk_params p ++ map_of (rev hs)\<rparr>"
  using assms
proof (induction hs arbitrary: p)
  case (Cons h hs)
  obtain k v where h: "h = (k, v)" by (cases h)
  have "(pk_params p)(k \<mapsto> v) ++ map_of (rev hs) = pk_params p ++ map_of (rev (h # hs))"
    by (simp add: h map_of_append)
  with Cons h show ?case by (simp add: hs_line_field set_param_def)
qed simp

text \<open>The packet after a request has been parsed.\<close>

definition request_packet :: "http_request \<Rightarrow> WebSocketPacket \<Rightarrow> WebSocketPacket" where
  "request_packet r p =
     p\<lparr>pk_mothod := rq_method r, pk_uri := rq_uri r, pk_version := rq_version r,
       pk_params := request_params r (pk_params p)\<rparr>"

lemma fetch_request:
  assumes r: "wf_request r" and len: "length (render_request r) < 2 ^ 31"
  shows "fetch_hs_element (render_request r @ rest) p =
    Inr (int (length (render_request r)), request_packet r p)"
proof -
  let ?l = "rq_method r @ SP @ rq_uri r @ SP @ rq_version r"
  have w: "word (rq_method r)" "word (rq_uri r)" "word (rq_version r)"
    and h: "list_all (\<lambda>(k, v). field_text k \<and> CHR '':'' \<notin> set k \<and> field_text v) (rq_headers r)"
    and ne: "rq_headers r \<noteq> []"
    using r by (auto simp: wf_request_def)
  have count: "\<not> length (request_lines r) < 2"
    using ne by (cases "rq_headers r") (simp_all add: request_lines_SP)
  have "field_text (rq_method r)" "field_text (rq_version r)" "field_text (rq_uri r)"
    using w by (simp_all add: word_field)
  then have trims: "trim ?l (CHR '' '') = ?l" "trim (rq_method r) (CHR '' '') = rq_method r"
    "trim (rq_uri r) (CHR '' '') = rq_uri r" "trim (rq_version r) (CHR '' '') = rq_version r" "?l \<noteq> []"
    by (simp_all add: trim_strip field_text_def)
  have skip: "skip_blank (request_lines r) = ?l # map header_line (rq_headers r)"
    using trims(1,5) by (simp add: request_lines_SP)
  have size: "to_int32 (int (length (render_request r) - 4) + 4) = int (length (render_request r))"
  proof -
    have "4 \<le> length (render_request r)"
      by (simp add: render_request_EOL request_lines_SP)
    then have "int (length (render_request r) - 4) + 4 = int (length (render_request r))" by simp
    then show ?thesis using len by (simp only: to_int32_of_nat)
  qed
  show ?thesis
    using count
    by (simp add: fetch_hs_element_def request_end [OF r] request_split [OF r] skip three_words w trims
        fold_hs_line [OF h] size request_packet_def request_params_def)
qed


section \<open>Receiving a request\<close>

definition upgrade_ok :: "(string \<rightharpoonup> string) \<Rightarrow> bool" where
  "upgrade_ok m \<longleftrightarrow> m ''Upgrade'' = Some ''websocket'' \<and> m ''Connection'' = Some ''Upgrade'' \<and>
     m ''Sec-WebSocket-Version'' = Some ''13'' \<and> (\<exists>k. m ''Sec-WebSocket-Key'' = Some k \<and> k \<noteq> [])"

lemma get_param_eq: "v \<noteq> [] \<Longrightarrow> get_param p n = v \<longleftrightarrow> pk_params p n = Some v"
  by (auto simp: get_param_def split: option.splits)

lemma get_param_Nil: "get_param p n \<noteq> [] \<longleftrightarrow> (\<exists>v. pk_params p n = Some v \<and> v \<noteq> [])"
  by (auto simp: get_param_def split: option.splits)

lemma upgrade_checks:
  "(get_param p ''Upgrade'' \<noteq> ''websocket'' \<or> get_param p ''Connection'' \<noteq> ''Upgrade'' \<or>
    get_param p ''Sec-WebSocket-Version'' \<noteq> ''13'' \<or> get_param p ''Sec-WebSocket-Key'' = []) =
   (\<not> upgrade_ok (pk_params p))"
proof -
  have "get_param p ''Upgrade'' = ''websocket'' \<longleftrightarrow> pk_params p ''Upgrade'' = Some ''websocket''"
    "get_param p ''Connection'' = ''Upgrade'' \<longleftrightarrow> pk_params p ''Connection'' = Some ''Upgrade''"
    "get_param p ''Sec-WebSocket-Version'' = ''13'' \<longleftrightarrow> pk_params p ''Sec-WebSocket-Version'' = Some ''13''"
    by (simp_all add: get_param_eq)
  with get_param_Nil [of p "''Sec-WebSocket-Key''"] show ?thesis
    unfolding upgrade_ok_def by blast
qed

lemma whole_buffer:
  assumes "length bs \<le> 1024000"
  shows "\<not> length_bb (buf_of bs) > WS_MAX_HANDSHAKE_FRAME_SIZE" "\<not> length_bb (buf_of bs) < 0"
    "mem_read (bytes_bb (buf_of bs)) (nat (length_bb (buf_of bs))) = Inr bs"
  using assms by (simp_all add: length_bb_wf bytes_bb_wf WS_MAX_HANDSHAKE_FRAME_SIZE_def)

lemma request_size: "6 \<le> length (render_request r)"
  by (simp add: render_request_EOL request_lines_SP)

lemma recv_request:
  assumes r: "wf_request r" and bs: "bs = bytes_of_str (render_request r) @ rest"
    and len: "length bs \<le> 1024000" and q: "q = request_packet r p"
    and n: "n = length (render_request r)"
  shows "recv_handshake p (buf_of bs) =
    Inr (if upgrade_ok (pk_params q)
         then (0, q\<lparr>pk_hs_length := word_of_nat n\<rparr>, advance n (buf_of bs))
         else (WS_ERROR_INVALID_HANDSHAKE_PARAMS, q, buf_of bs))"
proof -
  have size: "6 \<le> n" "n \<le> 1024000" "n \<le> length bs"
    using request_size [of r] n bs len by simp_all
  have "fetch_hs_element (str_of_bytes bs) p = Inr (int n, q)"
    using fetch_request [OF r, of "str_of_bytes rest" p] size by (simp add: bs n q)
  moreover have "to_int32 (uint (word_of_nat n :: u32)) = int n"
    using size by (simp add: uint_nat unat_of_nat)
  moreover have "skip_x (buf_of bs) (int n) = (True, advance n (buf_of bs))"
    using size len by (simp add: skip_x_wf)
  moreover have "resetoft (buf_of bs) = buf_of bs"
    by (simp add: resetoft_def buf_of_def)
  ultimately show ?thesis
    using whole_buffer [OF len] size unfolding recv_handshake_def upgrade_checks by (simp add: Let_def)
qed

lemma recv_incomplete:
  assumes "str_find (str_of_bytes bs) (EOL @ EOL) 0 = None" and "length bs \<le> 1024000"
  shows "recv_handshake p (buf_of bs) = Inr (0, p, buf_of bs)"
  using whole_buffer [OF assms(2)] assms(1)
  by (simp add: recv_handshake_def fetch_hs_element_def resetoft_def buf_of_def)

lemma find_in_prefix:
  assumes "str_find (xs @ ys) pat 0 = Some k" and "length xs < k + length pat" and "pat \<noteq> []"
  shows "str_find xs pat 0 = None"
proof (cases "str_find xs pat 0")
  case (Some m)
  then have m: "occurs_at xs pat m" "m + length pat \<le> length xs"
    using str_find_bound [OF Some] by (simp_all add: str_find_Some_iff)
  then have "occurs_at (xs @ ys) pat m" by (simp add: occurs_at_def)
  with assms m(2) show ?thesis by (auto simp: str_find_Some_iff)
qed

lemma request_prefix_incomplete:
  assumes "wf_request r" and "n < length (render_request r)"
  shows "str_find (take n (render_request r)) (EOL @ EOL) 0 = None"
proof (rule find_in_prefix)
  show "str_find (take n (render_request r) @ drop n (render_request r)) (EOL @ EOL) 0 =
      Some (length (render_request r) - 4)"
    using request_end [OF assms(1), of "[]"] by simp
qed (use assms(2) request_size [of r] in simp_all)

section \<open>The accept key\<close>

context digest
begin

lemma length_b64_digest:
  "valid mem \<Longrightarrow> digest_size < 2 ^ 31 \<Longrightarrow> length (snd (Base64encode (hash mem msg) (int (length (hash mem msg))))) =
    (digest_size + 2) div 3 * 4 + 1"
  using Base64encode_wraps [of "hash mem msg"] by (simp add: length_b64_spec length_hash)

lemma b64_digest_deterministic:
  "valid mem \<Longrightarrow> valid mem' \<Longrightarrow>
    Base64encode (hash mem msg) (int (length (hash mem msg))) =
    Base64encode (hash mem' msg) (int (length (hash mem' msg)))"
  using hash_deterministic [of mem mem' msg] by simp

end

lemma accept_key_alt:
  "accept_key junk s = snd (Base64encode (SHA1HashBytes junk (bytes_of_str s))
     (int (length (SHA1HashBytes junk (bytes_of_str s)))))"
  by (simp add: accept_key_def SHA1HashString_def)

text \<open>The identifier of RFC 6455, section 1.3, the \<^verbatim>\<open>Sec-WebSocket-Accept\<close> value of section 4.2.2, and the reply.\<close>

definition rfc_GUID :: string where
  "rfc_GUID = ''258EAFA5-E914-47DA-95CA-C5AB0DC85B11''"

definition rfc_accept :: "string \<Rightarrow> string" where
  "rfc_accept key = b64_spec (fips_sha1 (bytes_of_str (key @ rfc_GUID)))"

definition rfc_reply :: "string \<Rightarrow> string" where
  "rfc_reply key =
     ''HTTP/1.1 101 Switching Protocols'' @ CRLF @ ''Connection: upgrade'' @ CRLF @
     ''Upgrade: websocket'' @ CRLF @ ''Sec-WebSocket-Accept: '' @ rfc_accept key @ CRLF @ CRLF"

lemma rfc_reply_EOL:
  "rfc_reply key =
     ''HTTP/1.1 101 Switching Protocols'' @ EOL @ ''Connection: upgrade'' @ EOL @
     ''Upgrade: websocket'' @ EOL @ ''Sec-WebSocket-Accept: '' @ rfc_accept key @ EOL @ EOL"
  by (simp add: rfc_reply_def CRLF_EOL)

lemma magic_key_GUID: "magic_key = rfc_GUID"
  by (simp add: magic_key_def rfc_GUID_def)

text \<open>The example of RFC 6455, section 1.3.\<close>

lemma rfc_accept_sample: "rfc_accept ''dGhlIHNhbXBsZSBub25jZQ=='' = ''s3pPLMBiTxaQ9kYGzzhZRbK+xOo=''"
proof -
  have e: "rfc_accept ''dGhlIHNhbXBsZSBub25jZQ=='' = b64_spec (fips_sha1 (bytes_of_str
      ''dGhlIHNhbXBsZSBub25jZQ==258EAFA5-E914-47DA-95CA-C5AB0DC85B11''))"
    by (simp only: rfc_accept_def rfc_GUID_def append.simps)
  show ?thesis unfolding e accept_blocks by code_simp
qed

lemma accept_key_rfc:
  assumes "length junk = 80" and "length key + 36 < 2 ^ 29"
  shows "accept_key junk (key @ magic_key) = rfc_accept key @ [CHR 0x00]"
  using assms Base64encode_spec [of "fips_sha1 (bytes_of_str (key @ rfc_GUID))"]
  by (simp add: accept_key_alt rfc_accept_def SHA1HashBytes_fips length_fips_sha1 magic_key_GUID rfc_GUID_def
      del: bytes_of_str_append)

lemma key_length:
  assumes "(k, v) \<in> set (rq_headers r)"
  shows "length v \<le> length (render_request r)"
proof -
  have "header_line (k, v) \<in> set (request_lines r)"
    using assms by (auto simp: request_lines_SP)
  then obtain ls ls' where "request_lines r = ls @ header_line (k, v) # ls'"
    by (meson split_list)
  then show ?thesis by (simp add: render_request_EOL header_line_def)
qed

lemma handshake_answer:
  assumes r: "wf_request r" and ok: "upgrade_ok (request_params r Map.empty)"
    and bs: "bs = bytes_of_str (render_request r) @ rest" and len: "length bs \<le> 1024000"
    and key: "map_of (rev (rq_headers r)) ''Sec-WebSocket-Key'' = Some key"
    and no_proto: "map_of (rev (rq_headers r)) ''Sec-WebSocket-Protocol'' = None"
    and g: "wf_garbage g"
  shows "\<exists>q. recv_handshake (WebSocketPacket_new g) (buf_of bs) =
      Inr (0, q, advance (length (render_request r)) (buf_of bs)) \<and>
    unat (pk_hs_length q) = length (render_request r) \<and>
    pack_handshake_rsp (g_sha_W g) q = rfc_reply key"
proof -
  let ?q = "(request_packet r (WebSocketPacket_new g))\<lparr>pk_hs_length := word_of_nat (length (render_request r))\<rparr>"
  have params: "pk_params (request_packet r (WebSocketPacket_new g)) = request_params r Map.empty"
    by (simp add: request_packet_def WebSocketPacket_new_def)
  have recv: "recv_handshake (WebSocketPacket_new g) (buf_of bs) =
      Inr (0, ?q, advance (length (render_request r)) (buf_of bs))"
    using recv_request [OF r bs len refl refl, of "WebSocketPacket_new g"] ok params by simp
  have n: "length (render_request r) \<le> 1024000"
    using len bs by simp
  then have "unat (word_of_nat (length (render_request r)) :: u32) = length (render_request r)"
    by (simp add: unat_of_nat)
  moreover have "length key \<le> length (render_request r)"
    by (rule key_length) (use key in \<open>auto dest: map_of_SomeD\<close>)
  then have "accept_key (g_sha_W g) (key @ magic_key) = rfc_accept key @ [CHR 0x00]"
    using n g by (intro accept_key_rfc) (simp_all add: wf_garbage_def)
  moreover have "CHR 0x00 \<notin> set (rfc_accept key)"
    by (simp add: rfc_accept_def)
  moreover have "get_param ?q ''Sec-WebSocket-Key'' = key" "get_param ?q ''Sec-WebSocket-Protocol'' = []"
    using key no_proto params by (simp_all add: get_param_def request_params_def)
  ultimately show ?thesis
    using recv by (simp add: pack_handshake_rsp_def rfc_reply_EOL)
qed

section \<open>A sample\<close>

definition get_request :: http_request where
  "get_request = \<lparr>rq_method = ''GET'', rq_uri = ''/chat'', rq_version = ''HTTP/1.1'',
     rq_headers = [(''Host'', ''server.example.com''), (''Upgrade'', ''websocket''),
       (''Connection'', ''Upgrade''), (''Sec-WebSocket-Key'', ''dGhlIHNhbXBsZSBub25jZQ==''),
       (''Sec-WebSocket-Version'', ''13'')]\<rparr>"

lemma wf_get_request [simp]: "wf_request get_request"
  by (simp add: wf_request_def get_request_def word_def field_text_def)

lemma length_get_request [simp]: "length (render_request get_request) = 161"
  by (simp add: render_request_EOL get_request_def request_lines_SP header_line_def)

lemma upgrade_get_request: "upgrade_ok (request_params get_request Map.empty)"
  by (simp add: upgrade_ok_def request_params_def get_request_def)

lemma get_request_params:
  "map_of (rev (rq_headers get_request)) ''Sec-WebSocket-Key'' = Some ''dGhlIHNhbXBsZSBub25jZQ==''"
  "map_of (rev (rq_headers get_request)) ''Sec-WebSocket-Protocol'' = None"
  by (simp_all add: get_request_def)

definition keep_alive_request :: http_request where
  "keep_alive_request = get_request\<lparr>rq_headers := [(''Upgrade'', ''websocket''),
     (''Connection'', ''keep-alive, Upgrade''), (''Sec-WebSocket-Key'', ''dGhlIHNhbXBsZSBub25jZQ==''),
     (''Sec-WebSocket-Version'', ''13'')]\<rparr>"

definition sample_garbage :: garbage where
  "sample_garbage = \<lparr>g_masking_key = [0, 0, 0, 0], g_hs_length = 0xDEADBEEF, g_sha_W = replicate 80 0\<rparr>"

section \<open>Properties\<close>

text \<open>C12: parsing a request undoes rendering it. For every well-formed request and whatever
  follows it, \<^verbatim>\<open>fetch_hs_element\<close> returns the size of the request and stores the method, the
  URI, the version and every header field, the last value of a field winning.\<close>

theorem fetch_hs_element_parses_request:
  assumes "wf_request r" and "length (render_request r) < 2 ^ 31"
  shows "fetch_hs_element (render_request r @ rest) p =
    Inr (int (length (render_request r)),
      p\<lparr>pk_mothod := rq_method r, pk_uri := rq_uri r, pk_version := rq_version r,
        pk_params := pk_params p ++ map_of (rev (rq_headers r))\<rparr>)"
  using fetch_request [OF assms, of rest p] by (simp add: request_packet_def request_params_def)

theorem fetch_hs_element_parses_request_witness:
  "fetch_hs_element (render_request get_request @ ''xy'') (WebSocketPacket_new sample_garbage) =
    Inr (int (length (render_request get_request)),
      (WebSocketPacket_new sample_garbage)\<lparr>pk_mothod := rq_method get_request, pk_uri := rq_uri get_request,
        pk_version := rq_version get_request,
        pk_params := pk_params (WebSocketPacket_new sample_garbage) ++ map_of (rev (rq_headers get_request))\<rparr>)"
  by (rule fetch_hs_element_parses_request) simp_all

text \<open>C13: a well-formed request whose fields are exactly those the code asks for (\<^verbatim>\<open>Upgrade\<close>, \<^verbatim>\<open>Connection\<close>,
  version 13, a key, all in this spelling) and that asks for no \<^verbatim>\<open>Sec-WebSocket-Protocol\<close> is accepted when it has arrived
  as a whole, in a buffer of at most 1024000 bytes, whatever follows it: \<^verbatim>\<open>recv_handshake\<close> returns 0, records the size of
  the request as the handshake length, moves past it, and the reply that \<^verbatim>\<open>pack_handshake_rsp\<close> then writes
  carries the accept value of RFC 6455 for the key of the request.\<close>

theorem handshake_accepted_and_answered:
  assumes r: "wf_request r" and ok: "upgrade_ok (request_params r Map.empty)"
    and bs: "bs = bytes_of_str (render_request r) @ rest" and len: "length bs \<le> 1024000"
    and key: "map_of (rev (rq_headers r)) ''Sec-WebSocket-Key'' = Some key"
    and no_proto: "map_of (rev (rq_headers r)) ''Sec-WebSocket-Protocol'' = None"
    and g: "wf_garbage g"
  shows "\<exists>q. recv_handshake (WebSocketPacket_new g) (buf_of bs) =
      Inr (0, q, advance (length (render_request r)) (buf_of bs)) \<and>
    unat (pk_hs_length q) = length (render_request r) \<and>
    pack_handshake_rsp (g_sha_W g) q =
      ''HTTP/1.1 101 Switching Protocols'' @ CRLF @ ''Connection: upgrade'' @ CRLF @
      ''Upgrade: websocket'' @ CRLF @ ''Sec-WebSocket-Accept: '' @ rfc_accept key @ CRLF @ CRLF"
  using handshake_answer [OF assms] by (simp add: rfc_reply_def)

theorem handshake_accepted_and_answered_witness:
  "\<exists>q. recv_handshake (WebSocketPacket_new sample_garbage) (buf_of (bytes_of_str (render_request get_request) @ [0x81])) =
      Inr (0, q, advance (length (render_request get_request))
        (buf_of (bytes_of_str (render_request get_request) @ [0x81]))) \<and>
    unat (pk_hs_length q) = length (render_request get_request) \<and>
    pack_handshake_rsp (g_sha_W sample_garbage) q =
      ''HTTP/1.1 101 Switching Protocols'' @ CRLF @ ''Connection: upgrade'' @ CRLF @
      ''Upgrade: websocket'' @ CRLF @ ''Sec-WebSocket-Accept: '' @
      ''s3pPLMBiTxaQ9kYGzzhZRbK+xOo='' @ CRLF @ CRLF"
  unfolding rfc_accept_sample [symmetric]
  by (rule handshake_accepted_and_answered [OF wf_get_request upgrade_get_request refl])
    (simp_all add: get_request_params wf_garbage_def sample_garbage_def)



text \<open>While a request arrives, \<^verbatim>\<open>recv_handshake\<close> waits: on every proper prefix of a well-formed
  request it returns 0, leaves the buffer as it was and changes nothing of the packet.\<close>

theorem handshake_prefix_waits:
  assumes "wf_request r" and "n < length (render_request r)" and "n \<le> 1024000"
  shows "recv_handshake p (buf_of (bytes_of_str (take n (render_request r)))) =
    Inr (0, p, buf_of (bytes_of_str (take n (render_request r))))"
  by (rule recv_incomplete) (use assms request_prefix_incomplete [OF assms(1,2)] in simp_all)

theorem handshake_prefix_waits_witness:
  "recv_handshake (WebSocketPacket_new sample_garbage) (buf_of (bytes_of_str (take 160 (render_request get_request)))) =
    Inr (0, WebSocketPacket_new sample_garbage, buf_of (bytes_of_str (take 160 (render_request get_request))))"
  by (rule handshake_prefix_waits) simp_all

text \<open>C23: a request that consists of blank lines only, at least two of them, makes
  \<^verbatim>\<open>fetch_hs_element\<close> read the string behind the last line of its vector.\<close>

theorem blank_request_dereferences_end:
  assumes "2 \<le> length ns" and "0 \<notin> set ns"
  shows "fetch_hs_element (terminated EOL (map (\<lambda>n. replicate n (CHR '' '')) ns) @ EOL @ rest) p = Inl Deref_end"
proof -
  let ?ls = "map (\<lambda>n. replicate n (CHR '' '')) ns"
  have ls: "?ls \<noteq> []" "\<forall>l \<in> set ?ls. l \<noteq> [] \<and> CHR 0x0D \<notin> set l"
    using assms by (auto split: if_splits intro!: gr0I)
  have blank: "skip_blank ?ls = []"
    by (induction ns) (simp_all add: trim_strip strip_def dropWhile_eq_Nil_conv)
  have find: "str_find (terminated EOL ?ls @ EOL @ rest) (EOL @ EOL) 0 = Some (length (terminated EOL ?ls) - 2)"
    using find_double_EOL [OF ls, of rest 0] by (simp add: str_find_def)
  have "splitStr [] (take (length (terminated EOL ?ls) - 2) (terminated EOL ?ls @ EOL @ rest)) (Some EOL) =
      Inr (length ?ls, ?ls)"
    by (rule split_lines [OF ls])
  then show ?thesis
    using assms(1) blank by (simp add: fetch_hs_element_def find)
qed

theorem blank_request_dereferences_end_witness:
  "fetch_hs_element (terminated EOL (map (\<lambda>n. replicate n (CHR '' '')) [1, 1]) @ EOL @ []) (WebSocketPacket_new sample_garbage) = Inl Deref_end"
  by (rule blank_request_dereferences_end) simp_all

text \<open>The accept key, with its NUL, has 29 characters for every key and whatever memory the
  hash finds, so it fits the array of 128 that \<^verbatim>\<open>Base64encode\<close> writes to.\<close>

theorem accept_key_fits:
  assumes "length junk = 80"
  shows "length (accept_key junk s) = 29 \<and> length (accept_key junk s) \<le> 128"
  using sha1.length_b64_digest [OF assms, of "bytes_of_str s"] by (simp add: accept_key_alt)

theorem accept_key_fits_witness:
  "length (accept_key (replicate 80 7) ''key'') = 29 \<and> length (accept_key (replicate 80 7) ''key'') \<le> 128"
  by (rule accept_key_fits) simp

end
