(* ===== verification/Ws_Endpoint.thy ===== *)
theory Ws_Endpoint
  imports Ws_Frame Ws_Handshake
begin

text \<open>
  Class \<^verbatim>\<open>WebSocketEndpoint\<close> (src/src/ws_endpoint.h, src/src/ws_endpoint.cpp): one peer. It
  collects the bytes of the connection, answers the handshake, and echoes each message. The
  virtual functions are those of the class itself.

  The write callback is a function on the object behind \<^verbatim>\<open>nt_work_data_\<close>, which has a type
  \<open>'w\<close> of its own here; the object is threaded through the calls as a field of the endpoint.
  The output on \<^verbatim>\<open>std::cout\<close> is left out.
\<close>

section \<open>State and construction\<close>

type_synonym 'w write_cb = "bytes \<Rightarrow> int \<Rightarrow> 'w \<Rightarrow> fault + 'w"

record 'w WebSocketEndpoint =
  ws_handshake_completed :: bool
  fromwire_buf :: ByteBuffer
  message_data :: ByteBuffer
  nt_write_cb :: "'w write_cb option"
  nt_work_data :: "'w option"

text \<open>The constructors leave \<^verbatim>\<open>nt_work_data_\<close> as it is in memory, an argument here.\<close>

definition WebSocketEndpoint_new :: "'w option \<Rightarrow> 'w WebSocketEndpoint" where
  "WebSocketEndpoint_new wd =
     \<lparr>ws_handshake_completed = False, fromwire_buf = ByteBuffer_new, message_data = ByteBuffer_new,
      nt_write_cb = None, nt_work_data = wd\<rparr>"

definition WebSocketEndpoint_new_cb :: "'w write_cb option \<Rightarrow> 'w option \<Rightarrow> 'w WebSocketEndpoint" where
  "WebSocketEndpoint_new_cb write_cb wd =
     \<lparr>ws_handshake_completed = False, fromwire_buf = ByteBuffer_new, message_data = ByteBuffer_new,
      nt_write_cb = write_cb, nt_work_data = wd\<rparr>"

section \<open>Sending\<close>

definition to_wire :: "ptr \<Rightarrow> int \<Rightarrow> 'w WebSocketEndpoint \<Rightarrow> fault + 'w WebSocketEndpoint" where
  "to_wire writebuf sz ep =
     (case (nt_write_cb ep, nt_work_data ep, writebuf) of
        (Some cb, Some wd, Some buf) \<Rightarrow>
          (if sz \<le> 0 then Inr ep
           else bindE (cb buf sz wd) (\<lambda>wd. Inr (ep\<lparr>nt_work_data := Some wd\<rparr>)))
      | _ \<Rightarrow> Inr ep)"

text \<open>
  \<^verbatim>\<open>user_defined_process\<close> echoes the message as one frame. Its first statement copies the
  payload into a string, which throws for a negative length. \<open>g\<close> is the memory of the local
  packet.
\<close>

definition user_defined_process ::
  "garbage \<Rightarrow> WebSocketPacket \<Rightarrow> ByteBuffer \<Rightarrow> 'w WebSocketEndpoint \<Rightarrow> fault + 'w WebSocketEndpoint" where
  "user_defined_process g packet frame_payload ep =
     bindE (if length_bb frame_payload < 0 then Inl Length_error
            else mem_read (bytes_bb frame_payload) (nat (length_bb frame_payload))) (\<lambda>str_recv.
     let wspacket = set_opcode (pk_opcode packet) (set_fin 1 (WebSocketPacket_new g)) in
     bindE (set_payload (bytes_bb frame_payload) (word_of_int (length_bb frame_payload)) wspacket) (\<lambda>wspacket.
     bindE (pack_dataframe wspacket ByteBuffer_new) (\<lambda>(_, wspacket, output).
     to_wire (bytes_bb output) (length_bb output) ep)))"

definition process_message_data ::
  "garbage \<Rightarrow> WebSocketPacket \<Rightarrow> ByteBuffer \<Rightarrow> 'w WebSocketEndpoint \<Rightarrow> fault + 'w WebSocketEndpoint" where
  "process_message_data g packet frame_payload ep =
     (let opcode = pk_opcode packet in
      if opcode = opcode_val WSOpcode_Continue then user_defined_process g packet frame_payload ep
      else if opcode = opcode_val WSOpcode_Text then user_defined_process g packet frame_payload ep
      else if opcode = opcode_val WSOpcode_Binary then user_defined_process g packet frame_payload ep
      else if opcode = opcode_val WSOpcode_Close then user_defined_process g packet frame_payload ep
      else if opcode = opcode_val WSOpcode_Ping then user_defined_process g packet frame_payload ep
      else if opcode = opcode_val WSOpcode_Pong then user_defined_process g packet frame_payload ep
      else Inr ep)"

section \<open>Receiving\<close>

text \<open>
  \<^verbatim>\<open>parse_packet\<close> is called with \<^verbatim>\<open>fromwire_buf_\<close> as its argument. \<open>g\<close> is the memory of its
  packet and \<open>g'\<close> that of the packet of the reply.
\<close>

definition parse_packet ::
  "garbage \<Rightarrow> garbage \<Rightarrow> 'w WebSocketEndpoint \<Rightarrow> fault + (int \<times> 'w WebSocketEndpoint)" where
  "parse_packet g g' ep =
     (if \<not> ws_handshake_completed ep then
        bindE (recv_handshake (WebSocketPacket_new g) (fromwire_buf ep)) (\<lambda>(nstatus, wspacket, input).
        let ep = ep\<lparr>fromwire_buf := input\<rparr> in
        if nstatus \<noteq> 0 then Inr (-1, ep)
        else if pk_hs_length wspacket = 0 then Inr (0, ep)
        else
          let hs_rsp = pack_handshake_rsp (g_sha_W g) wspacket in
          bindE (to_wire (Some (bytes_of_str hs_rsp)) (int (length hs_rsp)) ep) (\<lambda>ep.
          Inr (uint (pk_hs_length wspacket), ep\<lparr>ws_handshake_completed := True\<rparr>)))
      else
        bindE (recv_dataframe (WebSocketPacket_new g) (fromwire_buf ep)) (\<lambda>(ndf, wspacket, input).
        let ep = ep\<lparr>fromwire_buf := input\<rparr> in
        if ndf = 0 then Inr (0, ep)
        else
          bindE (append_bb (message_data ep) (bytes_bb (pk_payload wspacket)) (length_bb (pk_payload wspacket)))
            (\<lambda>message.
          let ep = ep\<lparr>message_data := message\<rparr> in
          if pk_fin wspacket = 1 then
            bindE (process_message_data g' wspacket (message_data ep) ep) (\<lambda>ep.
            let message = resetoft (erase_bb (message_data ep) (length_bb (message_data ep)))
            in Inr (sint ndf, ep\<lparr>message_data := message\<rparr>))
          else Inr (sint ndf, ep))))"

text \<open>
  The loop of \<^verbatim>\<open>from_wire\<close>, whose result is an \<^verbatim>\<open>int32_t\<close> while \<^verbatim>\<open>nrcv\<close> has 64 bits. Its \<open>k\<close>-th round finds the memory \<open>gs k\<close>. \<^verbatim>\<open>None\<close> would be a
  run that does not end.
\<close>

partial_function (option) from_wire_loop ::
  "(nat \<Rightarrow> garbage \<times> garbage) \<Rightarrow> nat \<Rightarrow> 'w WebSocketEndpoint \<Rightarrow> (fault + (int \<times> 'w WebSocketEndpoint)) option" where
  "from_wire_loop gs k ep =
     (case parse_packet (fst (gs k)) (snd (gs k)) ep of
        Inl e \<Rightarrow> Some (Inl e)
      | Inr (nrcv, ep) \<Rightarrow>
          (if nrcv > 0 then
             (let ep = ep\<lparr>fromwire_buf := resetoft (erase_bb (fromwire_buf ep) (to_int32 nrcv))\<rparr> in
              if length_bb (fromwire_buf ep) = 0 then Some (Inr (to_int32 nrcv, ep))
              else from_wire_loop gs (Suc k) ep)
           else if nrcv = 0 then Some (Inr (0, ep\<lparr>fromwire_buf := resetoft (fromwire_buf ep)\<rparr>))
           else Some (Inr (-1, ep))))"

declare from_wire_loop.simps [simp del]

definition from_wire ::
  "(nat \<Rightarrow> garbage \<times> garbage) \<Rightarrow> ptr \<Rightarrow> int \<Rightarrow> 'w WebSocketEndpoint \<Rightarrow> fault + (int \<times> 'w WebSocketEndpoint)" where
  "from_wire gs readbuf sz ep =
     bindE (append_bb (fromwire_buf ep) readbuf sz) (\<lambda>buf.
     case from_wire_loop gs 0 (ep\<lparr>fromwire_buf := buf\<rparr>) of
       None \<Rightarrow> Inl Diverges
     | Some r \<Rightarrow> r)"

definition process ::
  "(nat \<Rightarrow> garbage \<times> garbage) \<Rightarrow> ptr \<Rightarrow> int \<Rightarrow> 'w WebSocketEndpoint \<Rightarrow> fault + (int \<times> 'w WebSocketEndpoint)" where
  "process gs readbuf sz ep = from_wire gs readbuf sz ep"

definition process_cb ::
  "(nat \<Rightarrow> garbage \<times> garbage) \<Rightarrow> ptr \<Rightarrow> int \<Rightarrow> 'w write_cb option \<Rightarrow> 'w option \<Rightarrow>
   'w WebSocketEndpoint \<Rightarrow> fault + (int \<times> 'w WebSocketEndpoint)" where
  "process_cb gs readbuf sz write_cb work_data ep =
     (if write_cb = None \<or> work_data = None then Inr (0, ep)
      else from_wire gs readbuf sz (ep\<lparr>nt_write_cb := write_cb, nt_work_data := work_data\<rparr>))"

lemma sint_small:
  fixes w :: u64
  assumes "unat w < 2 ^ 31"
  shows "sint w = int (unat w)"
proof -
  have "int (unat w) < 2 ^ 31"
    using assms by (metis of_nat_less_numeral_power_cancel_iff)
  then have "uint w < 2147483648" by simp
  moreover have "- 9223372036854775808 \<le> uint w"
    using uint_ge_0 [of w] by linarith
  ultimately have "signed_take_bit 63 (uint w) = uint w"
    by (intro signed_take_bit_int_eq_self) simp_all
  then show ?thesis by (simp add: sint_uint)
qed

section \<open>The handshake on any bytes\<close>

lemma hs_line_hs_length [simp]: "pk_hs_length (hs_line l p) = pk_hs_length p"
  by (simp add: hs_line_def set_param_def Let_def split: option.splits)

lemma fold_hs_line_hs_length [simp]: "pk_hs_length (fold hs_line ls p) = pk_hs_length p"
  by (induction ls arbitrary: p) simp_all

lemma split_returns:
  assumes "d \<noteq> []"
  obtains count pieces where "splitStr [] s (Some d) = Inr (count, pieces)"
  using splitStr_returns [OF assms, of "[]" s] by auto

lemma fetch_hs_element_any:
  assumes "length msg < 2 ^ 31"
  shows "case fetch_hs_element msg p of
      Inl e \<Rightarrow> e = Deref_end
    | Inr (n, q) \<Rightarrow> pk_hs_length q = pk_hs_length p \<and> (n = -1 \<or> 4 \<le> n \<and> n \<le> int (length msg))"
proof (cases "str_find msg (EOL @ EOL) 0")
  case None
  then show ?thesis by (simp add: fetch_hs_element_def)
next
  case (Some endpos)
  have pos: "endpos + 4 \<le> length msg"
    using str_find_bound [OF Some] by simp
  then have n: "to_int32 (int endpos + 4) = int endpos + 4"
    using assms by simp
  obtain count lines where split: "splitStr [] (take endpos msg) (Some EOL) = Inr (count, lines)"
    by (rule split_returns [of EOL]) simp_all
  show ?thesis
  proof (cases "skip_blank lines")
    case Nil
    with Some split show ?thesis by (simp add: fetch_hs_element_def)
  next
    case (Cons l ls)
    obtain count' words where "splitStr [] l (Some SP) = Inr (count', words)"
      by (rule split_returns [of SP]) simp_all
    with Some split Cons n pos show ?thesis by (simp add: fetch_hs_element_def Let_def)
  qed
qed

definition handshake_result_ok ::
  "bytes \<Rightarrow> WebSocketPacket \<Rightarrow> fault + (int \<times> WebSocketPacket \<times> ByteBuffer) \<Rightarrow> bool" where
  "handshake_result_ok bs p r \<longleftrightarrow>
     (case r of
        Inl e \<Rightarrow> e = Deref_end
      | Inr (st, q, input) \<Rightarrow>
          (st \<in> {0, WS_ERROR_INVALID_HANDSHAKE_PARAMS, WS_MAX_HANDSHAKE_FRAME_SIZE} \<and>
             pk_hs_length q = pk_hs_length p \<and> input = buf_of bs) \<or>
          (st = 0 \<and> 4 \<le> unat (pk_hs_length q) \<and> unat (pk_hs_length q) \<le> length bs \<and>
             input = advance (unat (pk_hs_length q)) (buf_of bs)))"

lemma recv_handshake_any:
  assumes len: "length bs < 2 ^ 31"
  shows "handshake_result_ok bs p (recv_handshake p (buf_of bs))"
proof (cases "length bs \<le> 1024000")
  case False
  then have "length_bb (buf_of bs) > WS_MAX_HANDSHAKE_FRAME_SIZE"
    using len by (simp add: length_bb_wf WS_MAX_HANDSHAKE_FRAME_SIZE_def)
  then show ?thesis by (simp add: recv_handshake_def handshake_result_ok_def)
next
  case True
  have reset: "resetoft (buf_of bs) = buf_of bs" by (simp add: resetoft_def buf_of_def)
  note fetch = fetch_hs_element_any [of "str_of_bytes bs" p]
  show ?thesis
  proof (cases "fetch_hs_element (str_of_bytes bs) p")
    case (Inl e)
    with fetch len whole_buffer [OF True] show ?thesis
      by (simp add: recv_handshake_def handshake_result_ok_def)
  next
    case (Inr nq)
    obtain n q where nq: "nq = (n, q)" by (cases nq)
    have q: "pk_hs_length q = pk_hs_length p" and "n = -1 \<or> 4 \<le> n \<and> n \<le> int (length bs)"
      using fetch len Inr nq by auto
    then consider (wait) "n = -1" | (found) m where "n = int m" "4 \<le> m" "m \<le> length bs"
      by (metis nat_0_le nat_le_iff numeral_le_iff of_nat_le_iff of_nat_numeral order_trans zero_le_numeral)
    then show ?thesis
    proof cases
      case wait
      with Inr nq q whole_buffer [OF True] reset show ?thesis
        by (simp add: recv_handshake_def handshake_result_ok_def)
    next
      case (found m)
      have m: "unat (word_of_nat m :: u32) = m" "to_int32 (uint (word_of_nat m :: u32)) = int m"
        using found len by (simp_all add: unat_of_nat uint_nat)
      have skip: "skip_x (buf_of bs) (int m) = (True, advance m (buf_of bs))"
        using found len by (simp add: skip_x_wf)
      show ?thesis
      proof (cases "upgrade_ok (pk_params q)")
        case True
        then show ?thesis
          using Inr nq whole_buffer [OF \<open>length bs \<le> 1024000\<close>] found m skip
          unfolding recv_handshake_def upgrade_checks
          by (simp add: handshake_result_ok_def Let_def)
      next
        case False
        then show ?thesis
          using Inr nq q whole_buffer [OF \<open>length bs \<le> 1024000\<close>] found reset
          unfolding recv_handshake_def upgrade_checks
          by (simp add: handshake_result_ok_def Let_def)
      qed
    qed
  qed
qed

section \<open>Invariant and termination\<close>

text \<open>
  Between two calls both buffers are read from their start, and \<^verbatim>\<open>int\<close> can measure the bytes
  that have arrived.
\<close>

definition wf_endpoint :: "'w WebSocketEndpoint \<Rightarrow> bool" where
  "wf_endpoint ep \<longleftrightarrow> oft (fromwire_buf ep) = 0 \<and> length (data (fromwire_buf ep)) < 2 ^ 31 \<and>
     oft (message_data ep) = 0"

text \<open>Sending changes nothing of the endpoint but the object behind the work data.\<close>

lemma to_wire_frame: "to_wire p n ep = Inr ep' \<Longrightarrow> \<exists>wd. ep' = ep\<lparr>nt_work_data := wd\<rparr>"
proof -
  have "\<exists>wd. ep = ep\<lparr>nt_work_data := wd\<rparr>" by (rule exI [of _ "nt_work_data ep"]) simp
  then show "to_wire p n ep = Inr ep' \<Longrightarrow> ?thesis"
    by (auto simp: to_wire_def fault_simps split: option.splits if_splits)
qed

lemma user_defined_process_frame:
  "user_defined_process g q m ep = Inr ep' \<Longrightarrow> \<exists>wd. ep' = ep\<lparr>nt_work_data := wd\<rparr>"
  by (auto simp: user_defined_process_def fault_simps Let_def dest: to_wire_frame)

lemma process_message_frame:
  "process_message_data g q m ep = Inr ep' \<Longrightarrow> \<exists>wd. ep' = ep\<lparr>nt_work_data := wd\<rparr>"
proof -
  have "\<exists>wd. ep = ep\<lparr>nt_work_data := wd\<rparr>" by (rule exI [of _ "nt_work_data ep"]) simp
  then show "process_message_data g q m ep = Inr ep' \<Longrightarrow> ?thesis"
    by (auto simp: process_message_data_def Let_def dest: user_defined_process_frame split: if_splits)
qed

text \<open>What one call of \<^verbatim>\<open>parse_packet\<close> does, whatever the buffer holds.\<close>

definition parse_step_ok :: "garbage \<Rightarrow> 'w WebSocketEndpoint \<Rightarrow> int \<times> 'w WebSocketEndpoint \<Rightarrow> bool" where
  "parse_step_ok g ep = (\<lambda>(n, ep').
     data (fromwire_buf ep') = data (fromwire_buf ep) \<and> oft (message_data ep') = 0 \<and>
     (n = -1 \<and> ep' = ep \<and> \<not> ws_handshake_completed ep \<or>
      n = 0 \<and> fromwire_buf ep' = fromwire_buf ep \<and> ws_handshake_completed ep' = ws_handshake_completed ep \<or>
      0 < n \<and> ws_handshake_completed ep' \<and>
        (n \<le> int (length (data (fromwire_buf ep))) \<or>
         \<not> ws_handshake_completed ep \<and> n = uint (g_hs_length g))))"

lemma message_reset: "oft m = 0 \<Longrightarrow> oft (resetoft (erase_bb m n)) = 0"
  by (simp add: resetoft_def)

lemma append_bb_oft: "append_bb m p n = Inr m' \<Longrightarrow> oft m' = oft m"
  by (auto simp: append_bb_def fault_simps split: if_splits)

lemma parse_packet_any:
  assumes ep: "wf_endpoint ep" and g: "wf_garbage g"
    and run: "parse_packet g g' ep = Inr r"
  shows "parse_step_ok g ep r"
proof -
  let ?bs = "data (fromwire_buf ep)"
  have buf: "fromwire_buf ep = buf_of ?bs" and len: "length ?bs < 2 ^ 31"
    using ep by (simp_all add: wf_endpoint_def buf_of_eq)
  have same: "ep\<lparr>fromwire_buf := buf_of ?bs\<rparr> = ep"
    using buf [symmetric] by simp
  show ?thesis
  proof (cases "ws_handshake_completed ep")
    case False
    from recv_handshake_any [OF len, of "WebSocketPacket_new g"]
    have ok: "handshake_result_ok ?bs (WebSocketPacket_new g) (recv_handshake (WebSocketPacket_new g) (fromwire_buf ep))"
      by (simp only: buf [symmetric])
    obtain st q input where recv: "recv_handshake (WebSocketPacket_new g) (fromwire_buf ep) = Inr (st, q, input)"
      using run False by (auto simp: parse_packet_def fault_simps)
    have input: "data input = ?bs" and refused: "st \<noteq> 0 \<Longrightarrow> input = buf_of ?bs"
      and waiting: "pk_hs_length q = 0 \<Longrightarrow> input = buf_of ?bs"
      using ok recv by (auto simp: handshake_result_ok_def)
    consider (refused) "st \<noteq> 0" | (wait) "st = 0" "pk_hs_length q = 0"
      | (found) "st = 0" "pk_hs_length q \<noteq> 0" by blast
    then show ?thesis
    proof cases
      case refused
      then show ?thesis
        using run False recv \<open>st \<noteq> 0 \<Longrightarrow> input = buf_of ?bs\<close> same ep
        by (auto simp: parse_packet_def parse_step_ok_def wf_endpoint_def)
    next
      case wait
      then show ?thesis
        using run False recv waiting same ep
        by (auto simp: parse_packet_def parse_step_ok_def wf_endpoint_def)
    next
      case found
      then obtain ep1 where ep1: "to_wire (Some (bytes_of_str (pack_handshake_rsp (g_sha_W g) q)))
          (int (length (pack_handshake_rsp (g_sha_W g) q))) (ep\<lparr>fromwire_buf := input\<rparr>) = Inr ep1"
        and r: "r = (uint (pk_hs_length q), ep1\<lparr>ws_handshake_completed := True\<rparr>)"
        using run False recv by (auto simp: parse_packet_def fault_simps Let_def)
      from to_wire_frame [OF ep1] obtain wd where "ep1 = ep\<lparr>fromwire_buf := input, nt_work_data := wd\<rparr>"
        by auto
      moreover have "0 < uint (pk_hs_length q)"
        using found(2) by (simp add: word_neq_0_conv word_less_def)
      moreover have "uint (pk_hs_length q) \<le> int (length ?bs) \<or> uint (pk_hs_length q) = uint (g_hs_length g)"
      proof -
        have "unat (pk_hs_length q) \<le> length ?bs \<or> pk_hs_length q = g_hs_length g"
          using ok recv by (auto simp: handshake_result_ok_def WebSocketPacket_new_def)
        moreover have "uint (pk_hs_length q) \<le> int (length ?bs)" if "unat (pk_hs_length q) \<le> length ?bs"
          using that unfolding uint_nat by (simp only: of_nat_le_iff)
        ultimately show ?thesis by auto
      qed
      ultimately show ?thesis
        using r input False ep by (simp add: parse_step_ok_def wf_endpoint_def)
    qed
  next
    case True
    from recv_dataframe_any [OF len, of "WebSocketPacket_new g"] wf_garbage_key [OF g]
    have ok: "recv_result_ok ?bs (recv_dataframe (WebSocketPacket_new g) (fromwire_buf ep))"
      by (simp add: buf [symmetric])
    obtain ndf q input where recv: "recv_dataframe (WebSocketPacket_new g) (fromwire_buf ep) = Inr (ndf, q, input)"
      using run True by (auto simp: parse_packet_def fault_simps)
    have n: "unat ndf \<le> length ?bs" and input: "input = advance (unat ndf) (buf_of ?bs)"
      using ok recv by (auto simp: recv_result_ok_def)
    show ?thesis
    proof (cases "ndf = 0")
      case True
      then show ?thesis
        using run \<open>ws_handshake_completed ep\<close> recv input same ep
        by (auto simp: parse_packet_def parse_step_ok_def wf_endpoint_def)
    next
      case False
      have ndf: "sint ndf = int (unat ndf)" "0 < int (unat ndf)"
        using n len False sint_small [of ndf] by (simp_all add: word_neq_0_conv word_less_def)
      have up: "sint ndf \<le> int (length ?bs)"
        unfolding ndf(1) using n by (simp only: of_nat_le_iff)
      obtain m where m: "append_bb (message_data ep) (bytes_bb (pk_payload q)) (length_bb (pk_payload q)) = Inr m"
        using run True recv False by (auto simp: parse_packet_def fault_simps Let_def)
      let ?ep1 = "ep\<lparr>fromwire_buf := input, message_data := m\<rparr>"
      show ?thesis
      proof (cases "pk_fin q = 1")
        case True
        then obtain ep2 where ep2: "process_message_data g' q m ?ep1 = Inr ep2"
          and r: "r = (sint ndf, ep2\<lparr>message_data := resetoft (erase_bb (message_data ep2) (length_bb (message_data ep2)))\<rparr>)"
          using run \<open>ws_handshake_completed ep\<close> recv False m
          by (auto simp: parse_packet_def fault_simps Let_def)
        from process_message_frame [OF ep2] obtain wd where "ep2 = ?ep1\<lparr>nt_work_data := wd\<rparr>" by auto
        then show ?thesis
          using r ndf up input \<open>ws_handshake_completed ep\<close> by (simp add: parse_step_ok_def resetoft_def)
      next
        case fin: False
        then have r: "r = (sint ndf, ?ep1)"
          using run \<open>ws_handshake_completed ep\<close> recv False m
          by (auto simp: parse_packet_def fault_simps Let_def)
        then show ?thesis
          using ndf up input \<open>ws_handshake_completed ep\<close> append_bb_oft [OF m] ep
          by (simp add: parse_step_ok_def wf_endpoint_def)
      qed
    qed
  qed
qed

text \<open>The pending bytes and the state of the handshake go down with every round of the loop.\<close>

definition after_round :: "int \<Rightarrow> 'w WebSocketEndpoint \<Rightarrow> 'w WebSocketEndpoint" where
  "after_round nrcv ep = ep\<lparr>fromwire_buf := resetoft (erase_bb (fromwire_buf ep) (to_int32 nrcv))\<rparr>"

definition loop_measure :: "'w WebSocketEndpoint \<Rightarrow> nat \<times> nat" where
  "loop_measure ep = ((if ws_handshake_completed ep then 0 else 1), length (data (fromwire_buf ep)))"

lemma from_wire_loop_step:
  "parse_packet (fst (gs k)) (snd (gs k)) ep = Inr (n, ep') \<Longrightarrow>
    from_wire_loop gs k ep =
      (if n > 0 then
         if length_bb (fromwire_buf (after_round n ep')) = 0 then Some (Inr (to_int32 n, after_round n ep'))
         else from_wire_loop gs (Suc k) (after_round n ep')
       else if n = 0 then Some (Inr (0, ep'\<lparr>fromwire_buf := resetoft (fromwire_buf ep')\<rparr>))
       else Some (Inr (-1, ep')))"
  by (subst from_wire_loop.simps) (simp add: after_round_def Let_def)

lemma after_round_progress:
  assumes ep: "wf_endpoint ep" and step: "parse_step_ok g ep (n, ep')" and n: "0 < n"
    and left: "length_bb (fromwire_buf (after_round n ep')) \<noteq> 0"
  shows "(loop_measure (after_round n ep'), loop_measure ep) \<in> less_than <*lex*> less_than"
proof -
  have len: "length (data (fromwire_buf ep')) < 2 ^ 31"
    using ep step by (auto simp: wf_endpoint_def parse_step_ok_def)
  have d: "data (fromwire_buf (after_round n ep')) = drop (nat (to_int32 n)) (data (fromwire_buf ep))"
    using step len by (auto simp: after_round_def resetoft_erase parse_step_ok_def)
  have done': "ws_handshake_completed (after_round n ep')"
    using step n by (auto simp: parse_step_ok_def after_round_def)
  show ?thesis
  proof (cases "ws_handshake_completed ep")
    case True
    then have "n \<le> int (length (data (fromwire_buf ep)))"
      using step n by (auto simp: parse_step_ok_def)
    moreover from this have "to_int32 n = n"
      using n ep by (simp add: wf_endpoint_def)
    ultimately have "length (data (fromwire_buf (after_round n ep'))) < length (data (fromwire_buf ep))"
      using n by (simp add: d)
    then show ?thesis using True done' by (simp add: loop_measure_def)
  next
    case False
    then show ?thesis using done' by (simp add: loop_measure_def)
  qed
qed

lemma after_round_wf:
  assumes "wf_endpoint ep" and "parse_step_ok g ep (n, ep')"
  shows "wf_endpoint (after_round n ep')"
  using assms by (auto simp: wf_endpoint_def parse_step_ok_def after_round_def resetoft_erase)

text \<open>
  The result fits an \<^verbatim>\<open>int32_t\<close>. It is at least -1 but in one case: the handshake is not completed and
  \<^verbatim>\<open>hs_length_\<close> was not initialised; then it may be what that memory holds, narrowed.
\<close>

definition result_in_range :: "garbage \<Rightarrow> 'w WebSocketEndpoint \<Rightarrow> int \<Rightarrow> bool" where
  "result_in_range g ep n \<longleftrightarrow>
     (if ws_handshake_completed ep then -1 \<le> n \<and> n < 2 ^ 31
      else -1 \<le> n \<and> n < 2 ^ 31 \<or> n = to_int32 (uint (g_hs_length g)))"

lemma result_in_range_buf: "result_in_range g (ep\<lparr>fromwire_buf := buf\<rparr>) n = result_in_range g ep n"
  by (simp add: result_in_range_def)

lemma from_wire_loop_total:
  assumes gs: "\<And>k. wf_garbage (fst (gs k))"
  shows "wf_endpoint ep \<Longrightarrow> \<exists>r. from_wire_loop gs k ep = Some r \<and>
    (case r of Inl _ \<Rightarrow> True | Inr (n, ep') \<Rightarrow> wf_endpoint ep' \<and> result_in_range (fst (gs k)) ep n)"
proof (induction "loop_measure ep" arbitrary: ep k rule: wf_induct_rule
    [OF wf_lex_prod [OF wf_less_than wf_less_than]])
  case 1
  show ?case
  proof (cases "parse_packet (fst (gs k)) (snd (gs k)) ep")
    case (Inl e)
    then show ?thesis by (subst from_wire_loop.simps) simp
  next
    case (Inr r)
    obtain n ep' where r: "r = (n, ep')" by (cases r)
    have ok: "parse_step_ok (fst (gs k)) ep (n, ep')"
      using parse_packet_any [OF "1.prems" gs Inr] r by simp
    note wf = after_round_wf [OF "1.prems" ok]
    note step = from_wire_loop_step [where gs = gs and k = k, OF Inr [unfolded r]]
    consider (go) "0 < n" "length_bb (fromwire_buf (after_round n ep')) \<noteq> 0"
      | (last) "0 < n" "length_bb (fromwire_buf (after_round n ep')) = 0" | (stop) "n \<le> 0" by linarith
    then show ?thesis
    proof cases
      case go
      then have "(loop_measure (after_round n ep'), loop_measure ep) \<in> less_than <*lex*> less_than"
        using after_round_progress [OF "1.prems" ok] by blast
      from "1.hyps" [OF this wf, of "Suc k"] obtain r' where r': "from_wire_loop gs (Suc k) (after_round n ep') = Some r'"
        "case r' of Inl _ \<Rightarrow> True | Inr (m, ep2) \<Rightarrow> wf_endpoint ep2 \<and> result_in_range (fst (gs (Suc k))) (after_round n ep') m"
        by blast
      have "ws_handshake_completed (after_round n ep')"
        using ok go(1) by (auto simp: parse_step_ok_def after_round_def)
      with r' go step show ?thesis by (auto simp: result_in_range_def split: sum.splits)
    next
      case last
      have "n \<le> int (length (data (fromwire_buf ep))) \<Longrightarrow> to_int32 n = n" "n \<le> int (length (data (fromwire_buf ep))) \<Longrightarrow> n < 2 ^ 31"
        using last(1) "1.prems" by (simp_all add: wf_endpoint_def)
      with last wf ok step show ?thesis by (auto simp: parse_step_ok_def result_in_range_def)
    next
      case stop
      with ok "1.prems" step show ?thesis
        by (auto simp: parse_step_ok_def wf_endpoint_def resetoft_def result_in_range_def)
    qed
  qed
qed

section \<open>The contract: an assembler of messages\<close>

text \<open>
  What the endpoint promises for the frames of a client, after the handshake: the payloads of a
  message are joined up to the frame with FIN, and the message goes back as one frame that is
  not masked and has the opcode of its last frame, if that is one of the six known ones.
\<close>

definition known_opcode :: "byte \<Rightarrow> bool" where
  "known_opcode opcode \<longleftrightarrow> opcode \<in> {0x0, 0x1, 0x2, 0x8, 0x9, 0xA}"

definition echo_frame :: "byte \<Rightarrow> bytes \<Rightarrow> frame" where
  "echo_frame opcode m = \<lparr>fr_fin = True, fr_opcode = opcode, fr_key = None, fr_payload = m\<rparr>"

definition echoes :: "byte \<Rightarrow> bytes \<Rightarrow> bytes list" where
  "echoes opcode m = (if known_opcode opcode then [encode_frame (echo_frame opcode m)] else [])"

fun assemble :: "bytes \<Rightarrow> frame list \<Rightarrow> bytes \<times> bytes list" where
  "assemble acc [] = (acc, [])"
| "assemble acc (f # fs) =
     (if fr_fin f then
        (let (acc', outs) = assemble [] fs in (acc', echoes (fr_opcode f) (acc @ fr_payload f) @ outs))
      else assemble (acc @ fr_payload f) fs)"

fun deliver :: "'w write_cb \<Rightarrow> bytes list \<Rightarrow> 'w \<Rightarrow> fault + 'w" where
  "deliver cb [] w = Inr w"
| "deliver cb (b # bs) w = bindE (cb b (int (length b)) w) (deliver cb bs)"

lemma deliver_append: "deliver cb (bs @ cs) w = bindE (deliver cb bs w) (deliver cb cs)"
proof (induction bs arbitrary: w)
  case (Cons b bs)
  then have "deliver cb (bs @ cs) = (\<lambda>w. bindE (deliver cb bs w) (deliver cb cs))"
    by (simp add: fun_eq_iff)
  then show ?case by (simp add: bindE_assoc)
qed simp

text \<open>The frames a client sends: masked, and not in the 64-bit length form.\<close>

definition client_frame :: "frame \<Rightarrow> bool" where
  "client_frame f \<longleftrightarrow> wf_frame f \<and> fr_key f \<noteq> None \<and> length (fr_payload f) < 65536"

text \<open>The beginning of a frame whose header is there and whose payload is not.\<close>

definition partial_frame :: "bytes \<Rightarrow> bool" where
  "partial_frame bs \<longleftrightarrow> complete_header bs \<and> masked (bs ! 1) \<and> len7 (bs ! 1) \<noteq> 127 \<and>
     bs ! 0 AND 0x70 = 0 \<and> parse_frame bs = None"

lemma encode_frame_size:
  assumes "wf_frame f"
  shows "length (fr_payload f) + 2 \<le> length (encode_frame f)"
    and "length (encode_frame f) \<le> length (fr_payload f) + 14"
  using assms by (auto simp: encode_frame_def encode_len_def Let_def wf_frame_def split: option.split)

lemma opcode_cases: "(opcode = opcode_val WSOpcode_Continue \<or> opcode = opcode_val WSOpcode_Text \<or>
    opcode = opcode_val WSOpcode_Binary \<or> opcode = opcode_val WSOpcode_Close \<or>
    opcode = opcode_val WSOpcode_Ping \<or> opcode = opcode_val WSOpcode_Pong) = known_opcode opcode"
  by (simp add: known_opcode_def)

lemma process_message_data_alt:
  "process_message_data g q m ep =
    (if known_opcode (pk_opcode q) then user_defined_process g q m ep else Inr ep)"
  by (simp add: process_message_data_def Let_def flip: opcode_cases)

lemma to_wire_linked:
  assumes "nt_write_cb ep = Some cb" and "nt_work_data ep = Some w" and "bs \<noteq> []"
  shows "to_wire (Some bs) (int (length bs)) ep =
    bindE (cb bs (int (length bs)) w) (\<lambda>w. Inr (ep\<lparr>nt_work_data := Some w\<rparr>))"
  using assms by (simp add: to_wire_def)

lemma user_defined_process_echo:
  assumes cb: "nt_write_cb ep = Some cb" and wd: "nt_work_data ep = Some w"
    and op: "unat (pk_opcode q) < 16" and m: "length m + 14 < 2 ^ 31"
  shows "user_defined_process g q (buf_of m) ep =
    bindE (deliver cb [encode_frame (echo_frame (pk_opcode q) m)] w) (\<lambda>w. Inr (ep\<lparr>nt_work_data := Some w\<rparr>))"
proof -
  let ?f = "echo_frame (pk_opcode q) m"
  let ?bs = "encode_frame ?f"
  have f: "wf_frame ?f" using op m by (simp add: wf_frame_def echo_frame_def)
  have size: "?bs \<noteq> []" "length ?bs < 2 ^ 31"
    using encode_frame_size [OF f] m by (auto simp: echo_frame_def)
  have buf: "length_bb (buf_of m) = int (length m)" "bytes_bb (buf_of m) = (if m = [] then None else Some m)"
    using m by (simp_all add: length_bb_wf bytes_bb_wf)
  obtain p where p: "message_packet g 1 (pk_opcode q) (bytes_bb (buf_of m)) (word_of_int (length_bb (buf_of m))) = Inr p"
    and d: "describes p ?f"
    using message_packet_describes [of 1 m g "pk_opcode q"] m buf by (auto simp: echo_frame_def)
  obtain p' where pack: "pack_dataframe p ByteBuffer_new = Inr (0, p', buf_of ?bs)"
    using pack_frame_bytes [OF d f, of "buf_of []"] m
    by (auto simp: echo_frame_def ByteBuffer_new_buf_of buf_of_def)
  have "mem_read (bytes_bb (buf_of m)) (nat (length_bb (buf_of m))) = Inr m"
    by (simp add: buf)
  moreover have "bytes_bb (buf_of ?bs) = Some ?bs" "length_bb (buf_of ?bs) = int (length ?bs)"
    using size by (simp_all add: length_bb_wf bytes_bb_wf)
  ultimately show ?thesis
    using p pack buf(1) to_wire_linked [OF cb wd size(1)]
    by (simp add: user_defined_process_def message_packet_def Let_def bindE_assoc)
qed

text \<open>One frame of a client.\<close>

lemma parse_packet_frame:
  assumes hs: "ws_handshake_completed ep" and cb: "nt_write_cb ep = Some cb" and wd: "nt_work_data ep = Some w"
    and msg: "message_data ep = buf_of acc" and buf: "fromwire_buf ep = buf_of (encode_frame f @ rest)"
    and f: "client_frame f" and g: "wf_garbage g"
    and room: "length acc + length (encode_frame f @ rest) + 14 < 2 ^ 31"
  shows "parse_packet g g' ep =
    bindE (deliver cb (snd (assemble acc [f])) w) (\<lambda>w.
      Inr (int (length (encode_frame f)),
        ep\<lparr>fromwire_buf := advance (length (encode_frame f)) (buf_of (encode_frame f @ rest)),
          nt_work_data := Some w, message_data := buf_of (fst (assemble acc [f]))\<rparr>))"
proof -
  let ?n = "length (encode_frame f)" and ?m = "acc @ fr_payload f"
  have wf: "wf_frame f" "length (fr_payload f) < 65536" "fr_key f \<noteq> None"
    using f by (simp_all add: client_frame_def)
  have len: "length (encode_frame f @ rest) < 2 ^ 31" using room by simp
  obtain q where recv: "recv_dataframe (WebSocketPacket_new g) (buf_of (encode_frame f @ rest)) =
      Inr (word_of_nat ?n, q, advance ?n (buf_of (encode_frame f @ rest)))" and q: "holds_frame q f"
    using recv_encoded [OF wf(1) g wf(2) _ len] wf(3) by blast
  have small: "?n < 65550" "2 \<le> ?n" "length (fr_payload f) \<le> ?n"
    using encode_frame_size [OF wf(1)] wf(2) by simp_all
  have n: "(word_of_nat ?n :: u64) \<noteq> 0" "sint (word_of_nat ?n :: u64) = int ?n"
  proof -
    have u: "unat (word_of_nat ?n :: u64) = ?n" using small by (simp add: unat_of_nat)
    then show "(word_of_nat ?n :: u64) \<noteq> 0" using small by (metis not_numeral_le_zero unat_0)
    show "sint (word_of_nat ?n :: u64) = int ?n"
      using small u sint_small [of "word_of_nat ?n"] by simp
  qed
  have app: "append_bb (message_data ep) (bytes_bb (pk_payload q)) (length_bb (pk_payload q)) = Inr (buf_of ?m)"
    using q wf(2) msg by (simp add: holds_frame_def append_whole)
  have op: "unat (pk_opcode q) < 16" "pk_opcode q = fr_opcode f"
    using q wf(1) by (simp_all add: holds_frame_def wf_frame_def)
  have fin: "pk_fin q = 1 \<longleftrightarrow> fr_fin f"
    using q by (simp add: holds_frame_def)
  let ?ep1 = "ep\<lparr>fromwire_buf := advance ?n (buf_of (encode_frame f @ rest)), message_data := buf_of ?m\<rparr>"
  have proc: "process_message_data g' q (buf_of ?m) ?ep1 =
      bindE (deliver cb (echoes (fr_opcode f) ?m) w) (\<lambda>w. Inr (?ep1\<lparr>nt_work_data := Some w\<rparr>))"
    using user_defined_process_echo [of ?ep1 cb w q ?m g'] cb wd op room small(3)
    by (auto simp: process_message_data_alt echoes_def simp del: deliver.simps)
      (simp_all add: wd)
  have clear: "resetoft (erase_bb (buf_of ?m) (length_bb (buf_of ?m))) = buf_of []"
    using room small(3) by (simp add: resetoft_erase length_bb_wf)
  show ?thesis
  proof (cases "fr_fin f")
    case True
    then show ?thesis
      using hs recv n app fin proc clear buf
      by (simp add: parse_packet_def Let_def bindE_assoc del: deliver.simps)
  next
    case False
    then show ?thesis
      using hs recv n app fin buf wd by (simp add: parse_packet_def Let_def)
  qed
qed

lemma parse_packet_partial:
  assumes hs: "ws_handshake_completed ep" and buf: "fromwire_buf ep = buf_of rest"
    and part: "partial_frame rest" and g: "wf_garbage g" and len: "length rest < 2 ^ 31"
  shows "parse_packet g g' ep = Inr (0, ep)"
proof -
  have "\<exists>q. recv_dataframe (WebSocketPacket_new g) (buf_of rest) = Inr (0, q, buf_of rest)"
    using recv_refines [OF len _ _ _ g] part by (auto simp: partial_frame_def)
  moreover have "ep\<lparr>fromwire_buf := buf_of rest\<rparr> = ep" using buf [symmetric] by simp
  ultimately show ?thesis using hs buf by (auto simp: parse_packet_def)
qed

lemma assemble_Cons:
  "assemble acc (f # fs) =
    (fst (assemble (fst (assemble acc [f])) fs),
     snd (assemble acc [f]) @ snd (assemble (fst (assemble acc [f])) fs))"
  by (simp split: prod.split)

lemma assemble_one_size: "length (fst (assemble acc [f])) \<le> length acc + length (fr_payload f)"
  by simp

declare assemble.simps(2) [simp del]

text \<open>A sequence of frames, with the beginning of one more after it or not.\<close>

definition stream :: "frame list \<Rightarrow> bytes" where
  "stream fs = concat (map encode_frame fs)"

lemma stream_simps [simp]: "stream [] = []" "stream (f # fs) = encode_frame f @ stream fs"
  by (simp_all add: stream_def)

definition stream_result ::
  "'w write_cb \<Rightarrow> bytes \<Rightarrow> frame list \<Rightarrow> bytes \<Rightarrow> 'w \<Rightarrow> 'w WebSocketEndpoint \<Rightarrow> fault + (int \<times> 'w WebSocketEndpoint)" where
  "stream_result cb acc fs rest w ep =
     bindE (deliver cb (snd (assemble acc fs)) w) (\<lambda>w.
       Inr (if rest = [] then int (length (encode_frame (last fs))) else 0,
         ep\<lparr>fromwire_buf := buf_of rest, nt_work_data := Some w,
           message_data := buf_of (fst (assemble acc fs))\<rparr>))"

lemma stream_result_Cons:
  assumes "fs \<noteq> [] \<or> rest \<noteq> []" and "deliver cb (snd (assemble acc [f])) w = Inr w1"
  shows "stream_result cb acc (f # fs) rest w ep =
    stream_result cb (fst (assemble acc [f])) fs rest w1
      (ep\<lparr>fromwire_buf := buf_of r, nt_work_data := Some w1, message_data := buf_of m\<rparr>)"
  using assms by (auto simp: stream_result_def assemble_Cons [of acc f fs] deliver_append)

lemma after_frame:
  assumes "length (bs @ rest) < 2 ^ 31"
  shows "after_round (int (length bs))
      (ep\<lparr>fromwire_buf := advance (length bs) (buf_of (bs @ rest)), nt_work_data := w, message_data := m\<rparr>) =
    ep\<lparr>fromwire_buf := buf_of rest, nt_work_data := w, message_data := m\<rparr>"
  using assms by (simp add: after_round_def resetoft_erase)

lemma from_wire_loop_stream:
  assumes gs: "\<And>k. wf_garbage (fst (gs k))" and cb: "nt_write_cb ep = Some cb"
    and rest: "rest = [] \<or> partial_frame rest"
  shows "list_all client_frame fs \<Longrightarrow> fs \<noteq> [] \<or> rest \<noteq> [] \<Longrightarrow>
    length acc + length (stream fs @ rest) + 14 < 2 ^ 31 \<Longrightarrow>
    ws_handshake_completed ep \<Longrightarrow> nt_write_cb ep = Some cb \<Longrightarrow> nt_work_data ep = Some w \<Longrightarrow>
    message_data ep = buf_of acc \<Longrightarrow> fromwire_buf ep = buf_of (stream fs @ rest) \<Longrightarrow>
    from_wire_loop gs k ep = Some (stream_result cb acc fs rest w ep)"
proof (induction fs arbitrary: acc w ep k)
  case Nil
  then have "parse_packet (fst (gs k)) (snd (gs k)) ep = Inr (0, ep)"
    using gs rest by (intro parse_packet_partial) auto
  moreover have "ep\<lparr>fromwire_buf := buf_of rest, nt_work_data := Some w, message_data := buf_of acc\<rparr> = ep"
    using Nil by simp
  ultimately show ?case
    using Nil.prems by (simp add: from_wire_loop.simps [of gs k ep] stream_result_def resetoft_def buf_of_def)
next
  case (Cons f fs)
  let ?rest = "stream fs @ rest" and ?n = "length (encode_frame f)"
  let ?acc = "fst (assemble acc [f])"
  have f: "client_frame f" "wf_frame f" using Cons.prems(1) by (simp_all add: client_frame_def)
  have parse: "parse_packet (fst (gs k)) (snd (gs k)) ep =
    bindE (deliver cb (snd (assemble acc [f])) w) (\<lambda>w.
      Inr (int ?n, ep\<lparr>fromwire_buf := advance ?n (buf_of (encode_frame f @ ?rest)),
          nt_work_data := Some w, message_data := buf_of ?acc\<rparr>))"
    using Cons.prems gs f by (intro parse_packet_frame) simp_all
  show ?case
  proof (cases "deliver cb (snd (assemble acc [f])) w")
    case (Inl e)
    then show ?thesis
      using parse by (simp add: from_wire_loop.simps [of gs k ep] stream_result_def assemble_Cons [of acc f fs]
          deliver_append)
  next
    case (Inr w1)
    define ep1 where "ep1 = ep\<lparr>fromwire_buf := buf_of ?rest, nt_work_data := Some w1, message_data := buf_of ?acc\<rparr>"
    have round: "from_wire_loop gs k ep =
        (if length_bb (buf_of ?rest) = 0 then Some (Inr (int ?n, ep1)) else from_wire_loop gs (Suc k) ep1)"
    proof -
      have len: "length (encode_frame f @ ?rest) < 2 ^ 31" using Cons.prems(3) by simp
      then have fits: "to_int32 (int ?n) = int ?n" by simp
      have "0 < int ?n" using encode_frame_size(1) [OF f(2)] by linarith
      moreover have step: "parse_packet (fst (gs k)) (snd (gs k)) ep =
          Inr (int ?n, ep\<lparr>fromwire_buf := advance ?n (buf_of (encode_frame f @ ?rest)),
            nt_work_data := Some w1, message_data := buf_of ?acc\<rparr>)"
        using parse Inr by simp
      ultimately show ?thesis
        unfolding from_wire_loop_step [where gs = gs and k = k, OF step] after_frame [OF len] fits ep1_def
        by simp
    qed
    show ?thesis
    proof (cases "?rest = []")
      case True
      then have "fs = []" "rest = []"
        using encode_frame_size(1) Cons.prems(1) by (cases fs; force simp: client_frame_def)+
      then show ?thesis
        using round Inr by (simp add: stream_result_def ep1_def length_bb_def)
    next
      case False
      then have ne: "fs \<noteq> [] \<or> rest \<noteq> []" by auto
      have "length (fr_payload f) + 2 \<le> ?n" by (rule encode_frame_size(1) [OF f(2)])
      then have "length ?acc + length ?rest + 14 < 2 ^ 31"
        using Cons.prems(3) assemble_one_size [of acc f] by (simp)
      then have "from_wire_loop gs (Suc k) ep1 = Some (stream_result cb ?acc fs rest w1 ep1)"
        using Cons.prems ne by (intro Cons.IH) (simp_all add: ep1_def)
      moreover have "length_bb (buf_of ?rest) \<noteq> 0"
      proof -
        have "length ?rest < 2 ^ 31" using Cons.prems(3) by simp
        then have "length_bb (buf_of ?rest) = int (length ?rest)"
          by (simp only: length_bb_wf data_buf_of)
        with False show ?thesis by (metis length_0_conv of_nat_eq_0_iff)
      qed
      ultimately show ?thesis
        using round stream_result_Cons [OF ne Inr] by (simp only: if_False ep1_def)
    qed
  qed
qed

section \<open>One call of \<open>from_wire\<close>\<close>

lemma from_wire_loop_eq:
  assumes "oft (fromwire_buf ep) = 0" and "from_wire_loop gs 0 (ep\<lparr>fromwire_buf := buf_of (data (fromwire_buf ep) @ bs)\<rparr>) = Some r"
  shows "from_wire gs (Some bs) (int (length bs)) ep = r"
proof -
  have "(fromwire_buf ep)\<lparr>data := data (fromwire_buf ep) @ bs\<rparr> = buf_of (data (fromwire_buf ep) @ bs)"
    using assms(1) by (cases "fromwire_buf ep") (simp add: buf_of_def)
  with assms(2) show ?thesis by (simp add: from_wire_def append_bb_def)
qed

lemma from_wire_total:
  assumes gs: "\<And>k. wf_garbage (fst (gs k))" and ep: "wf_endpoint ep"
    and room: "length (data (fromwire_buf ep) @ bs) < 2 ^ 31"
  shows "\<exists>r. from_wire_loop gs 0 (ep\<lparr>fromwire_buf := buf_of (data (fromwire_buf ep) @ bs)\<rparr>) = Some r \<and>
    from_wire gs (Some bs) (int (length bs)) ep = r \<and>
    (case r of Inl _ \<Rightarrow> True | Inr (n, ep') \<Rightarrow> wf_endpoint ep' \<and> result_in_range (fst (gs 0)) ep n)"
proof -
  have "wf_endpoint (ep\<lparr>fromwire_buf := buf_of (data (fromwire_buf ep) @ bs)\<rparr>)"
    using ep room by (simp add: wf_endpoint_def)
  from from_wire_loop_total [where gs = gs and k = 0, OF gs this, unfolded result_in_range_buf] obtain r where
    r: "from_wire_loop gs 0 (ep\<lparr>fromwire_buf := buf_of (data (fromwire_buf ep) @ bs)\<rparr>) = Some r"
    and ok: "case r of Inl _ \<Rightarrow> True | Inr (n, ep') \<Rightarrow> wf_endpoint ep' \<and> result_in_range (fst (gs 0)) ep n" by blast
  have "oft (fromwire_buf ep) = 0" using ep by (simp add: wf_endpoint_def)
  from from_wire_loop_eq [OF this r] r ok show ?thesis by blast
qed

text \<open>An endpoint after the handshake, with its callback, the bytes \<open>pre\<close> of a frame and the
  payload \<open>acc\<close> of the frames of an unfinished message.\<close>

definition linked :: "'w write_cb \<Rightarrow> 'w \<Rightarrow> bytes \<Rightarrow> bytes \<Rightarrow> 'w WebSocketEndpoint \<Rightarrow> bool" where
  "linked cb w pre acc ep \<longleftrightarrow> ws_handshake_completed ep \<and> nt_write_cb ep = Some cb \<and>
     nt_work_data ep = Some w \<and> fromwire_buf ep = buf_of pre \<and> message_data ep = buf_of acc"

lemma from_wire_stream:
  assumes gs: "\<And>k. wf_garbage (fst (gs k))" and ep: "linked cb w pre acc ep"
    and bs: "pre @ bs = stream fs @ rest" and some: "fs \<noteq> [] \<or> rest \<noteq> []"
    and fs: "list_all client_frame fs" and rest: "rest = [] \<or> partial_frame rest"
    and room: "length acc + length (pre @ bs) + 14 < 2 ^ 31"
  shows "from_wire gs (Some bs) (int (length bs)) ep = stream_result cb acc fs rest w ep"
proof (rule from_wire_loop_eq)
  show "oft (fromwire_buf ep) = 0" using ep by (simp add: linked_def)
  let ?ep = "ep\<lparr>fromwire_buf := buf_of (data (fromwire_buf ep) @ bs)\<rparr>"
  have "from_wire_loop gs 0 ?ep = Some (stream_result cb acc fs rest w ?ep)"
    by (rule from_wire_loop_stream [OF gs _ rest fs some])
      (use ep bs room in \<open>simp_all add: linked_def\<close>)
  then show "from_wire_loop gs 0 ?ep = Some (stream_result cb acc fs rest w ep)"
    by (simp add: stream_result_def)
qed

lemma assemble_append:
  "assemble acc (fs @ fs') =
    (fst (assemble (fst (assemble acc fs)) fs'), snd (assemble acc fs) @ snd (assemble (fst (assemble acc fs)) fs'))"
proof (induction fs arbitrary: acc)
  case (Cons f fs)
  then show ?case
    by (simp add: assemble_Cons [of acc f "fs @ fs'"] assemble_Cons [of acc f fs])
qed simp

lemma assemble_size:
  "list_all client_frame fs \<Longrightarrow> length (fst (assemble acc fs)) \<le> length acc + length (stream fs)"
proof (induction fs arbitrary: acc)
  case (Cons f fs)
  then have f: "wf_frame f" by (simp add: client_frame_def)
  have "length (fst (assemble acc (f # fs))) \<le> length (fst (assemble acc [f])) + length (stream fs)"
    using Cons by (simp add: assemble_Cons [of acc f fs])
  with assemble_one_size [of acc f] encode_frame_size(1) [OF f] show ?case by simp
qed simp

lemma stream_append [simp]: "stream (fs @ fs') = stream fs @ stream fs'"
  by (simp add: stream_def)

lemma stream_result_linked:
  assumes "stream_result cb acc fs rest w ep = Inr (n, ep1)" and "linked cb w pre acc ep"
  obtains w1 where "deliver cb (snd (assemble acc fs)) w = Inr w1"
    "linked cb w1 rest (fst (assemble acc fs)) ep1"
    "ep1 = ep\<lparr>fromwire_buf := buf_of rest, nt_work_data := Some w1, message_data := buf_of (fst (assemble acc fs))\<rparr>"
  using assms by (auto simp: stream_result_def linked_def fault_simps)

text \<open>Reading a stream in two parts, cut behind a frame or inside a payload, is reading it at once.\<close>

lemma from_wire_two_parts:
  assumes gs: "\<And>k. wf_garbage (fst (gs k))" and gs': "\<And>k. wf_garbage (fst (gs' k))"
    and gs'': "\<And>k. wf_garbage (fst (gs'' k))" and ep: "linked cb w pre acc ep"
    and bs: "pre @ bs = stream fs @ rest" "fs \<noteq> [] \<or> rest \<noteq> []"
    and bs': "rest @ bs' = stream fs' @ rest'" "fs' \<noteq> [] \<or> rest' \<noteq> []"
    and fs: "list_all client_frame (fs @ fs')"
    and rest: "rest = [] \<or> partial_frame rest" "rest' = [] \<or> partial_frame rest'"
    and room: "length acc + length (pre @ bs @ bs') + 14 < 2 ^ 31"
  shows "bindE (from_wire gs (Some bs) (int (length bs)) ep)
      (\<lambda>(_, ep1). from_wire gs' (Some bs') (int (length bs')) ep1) =
    from_wire gs'' (Some (bs @ bs')) (int (length (bs @ bs'))) ep"
proof -
  have first: "from_wire gs (Some bs) (int (length bs)) ep = stream_result cb acc fs rest w ep"
    using fs room by (intro from_wire_stream [OF gs ep bs _ rest(1)]) simp_all
  have eq: "pre @ bs @ bs' = stream (fs @ fs') @ rest'"
    using bs(1) bs'(1) by (metis append.assoc stream_append)
  have whole: "from_wire gs'' (Some (bs @ bs')) (int (length (bs @ bs'))) ep =
      stream_result cb acc (fs @ fs') rest' w ep"
    using fs room bs'(2) by (intro from_wire_stream [OF gs'' ep eq _ _ rest(2)]) auto
  show ?thesis
  proof (cases "stream_result cb acc fs rest w ep")
    case (Inl e)
    then have "deliver cb (snd (assemble acc fs)) w = Inl e"
      by (cases "deliver cb (snd (assemble acc fs)) w") (auto simp: stream_result_def)
    then show ?thesis
      unfolding first whole by (simp add: Inl) (simp add: stream_result_def assemble_append deliver_append)
  next
    case (Inr r)
    obtain n ep1 where r: "r = (n, ep1)" by (cases r)
    obtain w1 where w1: "deliver cb (snd (assemble acc fs)) w = Inr w1"
      and l: "linked cb w1 rest (fst (assemble acc fs)) ep1"
      and ep1: "ep1 = ep\<lparr>fromwire_buf := buf_of rest, nt_work_data := Some w1, message_data := buf_of (fst (assemble acc fs))\<rparr>"
      by (rule stream_result_linked [OF Inr [unfolded r] ep])
    have "length (fst (assemble acc fs)) + length (rest @ bs') \<le> length acc + length (pre @ bs @ bs')"
      using assemble_size [of fs acc] fs arg_cong [OF bs(1), of length] by simp
    then have "from_wire gs' (Some bs') (int (length bs')) ep1 = stream_result cb (fst (assemble acc fs)) fs' rest' w1 ep1"
      using fs room by (intro from_wire_stream [OF gs' l bs' _ rest(2)]) simp_all
    moreover have "stream_result cb (fst (assemble acc fs)) fs' rest' w1 ep1 = stream_result cb acc (fs @ fs') rest' w ep"
    proof -
      have "fs' \<noteq> [] \<or> rest' \<noteq> []" by (rule bs'(2))
      then show ?thesis
        by (auto simp: stream_result_def assemble_append deliver_append w1 ep1)
    qed
    ultimately show ?thesis
      unfolding first whole Inr r by simp
  qed
qed

section \<open>The handshake\<close>

text \<open>An endpoint before the handshake, with its callback and the bytes \<open>pre\<close> of a request.\<close>

definition fresh :: "'w write_cb \<Rightarrow> 'w \<Rightarrow> bytes \<Rightarrow> 'w WebSocketEndpoint \<Rightarrow> bool" where
  "fresh cb w pre ep \<longleftrightarrow> \<not> ws_handshake_completed ep \<and> nt_write_cb ep = Some cb \<and>
     nt_work_data ep = Some w \<and> fromwire_buf ep = buf_of pre \<and> message_data ep = buf_of []"

definition opened :: "'w WebSocketEndpoint \<Rightarrow> ByteBuffer \<Rightarrow> 'w \<Rightarrow> 'w WebSocketEndpoint" where
  "opened ep buf w = ep\<lparr>fromwire_buf := buf, nt_work_data := Some w, ws_handshake_completed := True\<rparr>"

lemma EOL_nonempty: "rfc_reply key \<noteq> []"
  by (simp add: rfc_reply_EOL)

lemma opened_buf: "fromwire_buf (opened ep buf w) = buf"
  by (simp add: opened_def)

lemma opened_linked: "fresh cb w pre ep \<Longrightarrow> linked cb w' pre' [] (opened ep (buf_of pre') w')"
  by (simp add: fresh_def linked_def opened_def)

definition plain_upgrade :: "http_request \<Rightarrow> string \<Rightarrow> bool" where
  "plain_upgrade r key \<longleftrightarrow> wf_request r \<and> upgrade_ok (request_params r Map.empty) \<and>
     map_of (rev (rq_headers r)) ''Sec-WebSocket-Key'' = Some key \<and>
     map_of (rev (rq_headers r)) ''Sec-WebSocket-Protocol'' = None"

lemma parse_packet_handshake:
  assumes ep: "fresh cb w bs ep" and r: "plain_upgrade r key"
    and bs: "bs = bytes_of_str (render_request r) @ rest" and len: "length bs \<le> 1024000"
    and g: "wf_garbage g"
  shows "parse_packet g g' ep =
    bindE (deliver cb [bytes_of_str (rfc_reply key)] w) (\<lambda>w.
      Inr (int (length (render_request r)),
        opened ep (advance (length (render_request r)) (buf_of bs)) w))"
proof -
  obtain q where recv: "recv_handshake (WebSocketPacket_new g) (buf_of bs) =
      Inr (0, q, advance (length (render_request r)) (buf_of bs))"
    and n: "unat (pk_hs_length q) = length (render_request r)"
    and reply: "pack_handshake_rsp (g_sha_W g) q = rfc_reply key"
    using handshake_answer [OF _ _ bs len _ _ g] r unfolding plain_upgrade_def by blast
  have "pk_hs_length q \<noteq> 0" "uint (pk_hs_length q) = int (length (render_request r))"
    using n request_size [of r] by (auto simp flip: n)
  moreover have "0 < length (rfc_reply key)" "rfc_reply key \<noteq> []"
    using EOL_nonempty by simp_all
  ultimately show ?thesis
    using ep recv reply
    by (simp add: parse_packet_def fresh_def Let_def to_wire_def bindE_assoc opened_def)
qed

lemma from_wire_handshake:
  assumes gs: "\<And>k. wf_garbage (fst (gs k))" and ep: "fresh cb w pre ep" and r: "plain_upgrade r key"
    and bs: "pre @ bs = bytes_of_str (render_request r) @ stream fs @ rest"
    and len: "length (pre @ bs) \<le> 1024000"
    and fs: "list_all client_frame fs" and rest: "rest = [] \<or> partial_frame rest"
  shows "from_wire gs (Some bs) (int (length bs)) ep =
    bindE (deliver cb [bytes_of_str (rfc_reply key)] w) (\<lambda>w.
      if fs = [] \<and> rest = [] then Inr (int (length (render_request r)), opened ep (buf_of []) w)
      else stream_result cb [] fs rest w (opened ep (buf_of []) w))"
proof (rule from_wire_loop_eq)
  show "oft (fromwire_buf ep) = 0" using ep by (simp add: fresh_def)
  let ?ep = "ep\<lparr>fromwire_buf := buf_of (data (fromwire_buf ep) @ bs)\<rparr>" and ?s = "stream fs @ rest"
  let ?n = "length (render_request r)"
  have ep': "fresh cb w (pre @ bs) ?ep" using ep by (simp add: fresh_def)
  have parse: "parse_packet (fst (gs 0)) (snd (gs 0)) ?ep =
    bindE (deliver cb [bytes_of_str (rfc_reply key)] w) (\<lambda>w.
      Inr (int ?n, opened ?ep (advance ?n (buf_of (pre @ bs))) w))"
    by (rule parse_packet_handshake [OF ep' r bs len gs])
  show "from_wire_loop gs 0 ?ep = Some (bindE (deliver cb [bytes_of_str (rfc_reply key)] w) (\<lambda>w.
      if fs = [] \<and> rest = [] then Inr (int ?n, opened ep (buf_of []) w)
      else stream_result cb [] fs rest w (opened ep (buf_of []) w)))"
  proof (cases "deliver cb [bytes_of_str (rfc_reply key)] w")
    case (Inl e)
    then show ?thesis using parse by (simp add: from_wire_loop.simps [of gs 0] del: deliver.simps)
  next
    case (Inr w1)
    have step: "parse_packet (fst (gs 0)) (snd (gs 0)) ?ep =
        Inr (int ?n, opened ?ep (advance ?n (buf_of (pre @ bs))) w1)"
      using parse Inr by simp
    have after: "after_round (int ?n) (opened ?ep (advance ?n (buf_of (pre @ bs))) w1) =
        opened ep (buf_of ?s) w1"
    proof -
      have n: "to_int32 (int ?n) = int ?n" using len unfolding bs by simp
      have "drop ?n (pre @ bs) = ?s" unfolding bs by simp
      then show ?thesis
        using len n by (simp add: after_round_def opened_def resetoft_erase del: drop_append)
    qed
    have pos: "0 < int ?n" using request_size [of r] by linarith
    have fits: "to_int32 (int ?n) = int ?n" using len unfolding bs by simp
    have size: "length ?s \<le> 1024000" using len by (simp add: bs)
    show ?thesis
    proof (cases "?s = []")
      case True
      have "fs = []"
        using True encode_frame_size(1) fs by (cases fs; force simp: client_frame_def)
      then show ?thesis
        using True Inr pos unfolding from_wire_loop_step [where gs = gs and k = 0, OF step] after fits
        by (simp add: opened_def length_bb_def)
    next
      case False
      then have some: "fs \<noteq> [] \<or> rest \<noteq> []" by auto
      have "from_wire_loop gs (Suc 0) (opened ep (buf_of ?s) w1) = Some (stream_result cb [] fs rest w1 (opened ep (buf_of ?s) w1))"
        using size opened_linked [OF ep, of w1 ?s]
        by (intro from_wire_loop_stream [OF gs _ rest fs some]) (simp_all add: linked_def)
      moreover have "length_bb (fromwire_buf (opened ep (buf_of ?s) w1)) \<noteq> 0"
      proof -
        have "length ?s < 2 ^ 31" using size by simp
        then have "length_bb (buf_of ?s) = int (length ?s)" by (simp only: length_bb_wf data_buf_of)
        with False have "length_bb (buf_of ?s) \<noteq> 0" by (metis length_0_conv of_nat_eq_0_iff)
        then show ?thesis unfolding opened_buf .
      qed
      moreover have "stream_result cb [] fs rest w1 (opened ep (buf_of ?s) w1) = stream_result cb [] fs rest w1 (opened ep (buf_of []) w1)"
        by (simp add: stream_result_def opened_def)
      ultimately show ?thesis
        using Inr pos some unfolding from_wire_loop_step [where gs = gs and k = 0, OF step] after by auto
    qed
  qed
qed

lemma no_params:
  "get_param (WebSocketPacket_new g) n = []" "pk_hs_length (WebSocketPacket_new g) = g_hs_length g"
  by (simp_all add: get_param_def WebSocketPacket_new_def)

lemma pack_handshake_rsp_empty:
  assumes "wf_garbage g"
  shows "pack_handshake_rsp (g_sha_W g) (WebSocketPacket_new g) = rfc_reply []"
proof -
  have "accept_key (g_sha_W g) ([] @ magic_key) = rfc_accept [] @ [CHR 0x00]"
    using assms by (intro accept_key_rfc) (simp_all add: wf_garbage_def)
  moreover have "CHR 0x00 \<notin> set (rfc_accept [])" by (simp add: rfc_accept_def)
  ultimately show ?thesis by (simp add: pack_handshake_rsp_def no_params rfc_reply_EOL)
qed

text \<open>The digest has 20 bytes, so the reply has the same length for every key.\<close>

lemma sha1_reply_length: "length (rfc_reply key) < 1000"
proof -
  have "length (fips_sha1 m) = 20" for m
    by (simp add: length_fips_sha1)
  then show ?thesis
    by (simp add: rfc_reply_EOL rfc_accept_def length_b64_spec)
qed

section \<open>A transport with room for one response\<close>

text \<open>
  What the endpoint relies on in a callback that stores what is sent: it takes one response when
  it is ready, keeps it, and ends the program when it is given another. The server provides it.
\<close>

locale one_slot_transport =
  fixes cb :: "'w write_cb"
    and ready :: "'w \<Rightarrow> bool"
    and put_bytes :: "'w \<Rightarrow> bytes \<Rightarrow> 'w"
    and stored :: "'w \<Rightarrow> bytes option"
  assumes store: "ready w \<Longrightarrow> length bs < 2 ^ 31 \<Longrightarrow> cb bs (int (length bs)) w = Inr (put_bytes w bs)"
    and stored_put: "ready w \<Longrightarrow> stored (put_bytes w bs) = Some bs"
    and full: "stored w = Some bs' \<Longrightarrow> cb bs n w = Inl Exit_failure"
begin

lemma deliver_one: "ready w \<Longrightarrow> length bs < 2 ^ 31 \<Longrightarrow> deliver cb [bs] w = Inr (put_bytes w bs)"
  by (simp add: store)

lemma deliver_more:
  "ready w \<Longrightarrow> length bs < 2 ^ 31 \<Longrightarrow> deliver cb (bs # bs' # bss) w = Inl Exit_failure"
  by (simp add: store full [OF stored_put])

text \<open>One message in a read is echoed; a second one ends the program.\<close>

lemma one_message:
  assumes gs: "\<And>k. wf_garbage (fst (gs k))" and ep: "linked cb w [] acc ep" and w: "ready w"
    and f: "client_frame f" "fr_fin f" "known_opcode (fr_opcode f)"
    and room: "length acc + length (encode_frame f) + 14 < 2 ^ 31"
  shows "from_wire gs (Some (encode_frame f)) (int (length (encode_frame f))) ep =
    Inr (int (length (encode_frame f)),
      ep\<lparr>fromwire_buf := buf_of [],
        nt_work_data := Some (put_bytes w (encode_frame (echo_frame (fr_opcode f) (acc @ fr_payload f)))),
        message_data := buf_of []\<rparr>)"
proof -
  let ?e = "encode_frame (echo_frame (fr_opcode f) (acc @ fr_payload f))"
  have wf: "wf_frame f" using f(1) by (simp add: client_frame_def)
  have "wf_frame (echo_frame (fr_opcode f) (acc @ fr_payload f))"
    using wf room encode_frame_size(1) [OF wf] by (auto simp: wf_frame_def echo_frame_def)
  from encode_frame_size(2) [OF this] have "length ?e < 2 ^ 31"
    using room encode_frame_size(1) [OF wf] by (simp add: echo_frame_def)
  from deliver_one [OF w this] have deliv: "deliver cb [?e] w = Inr (put_bytes w ?e)" .
  have "from_wire gs (Some (encode_frame f)) (int (length (encode_frame f))) ep = stream_result cb acc [f] [] w ep"
    using room f(1) by (intro from_wire_stream [OF gs ep]) simp_all
  then show ?thesis
    using deliv f(2,3) by (simp add: stream_result_def assemble.simps echoes_def del: deliver.simps)
qed

lemma two_messages:
  assumes gs: "\<And>k. wf_garbage (fst (gs k))" and ep: "linked cb w [] [] ep" and w: "ready w"
    and f: "client_frame f" "fr_fin f" "known_opcode (fr_opcode f)"
    and f': "client_frame f'" "fr_fin f'" "known_opcode (fr_opcode f')"
  shows "from_wire gs (Some (encode_frame f @ encode_frame f'))
      (int (length (encode_frame f @ encode_frame f'))) ep = Inl Exit_failure"
proof -
  let ?e = "encode_frame (echo_frame (fr_opcode f) (fr_payload f))"
  have wf: "wf_frame f" "wf_frame f'" using f(1) f'(1) by (simp_all add: client_frame_def)
  have sizes: "length (encode_frame f) < 65550" "length (encode_frame f') < 65550"
    using f(1) f'(1) encode_frame_size(2) [OF wf(1)] encode_frame_size(2) [OF wf(2)]
    by (simp_all add: client_frame_def)
  have "wf_frame (echo_frame (fr_opcode f) (fr_payload f))"
    using wf by (auto simp: wf_frame_def echo_frame_def)
  from encode_frame_size(2) [OF this] have "length ?e < 2 ^ 31"
    using sizes encode_frame_size(1) [OF wf(1)] by (simp add: echo_frame_def)
  from deliver_more [OF w this] have fail: "deliver cb [?e, encode_frame (echo_frame (fr_opcode f') (fr_payload f'))] w = Inl Exit_failure" .
  have "from_wire gs (Some (encode_frame f @ encode_frame f')) (int (length (encode_frame f @ encode_frame f'))) ep =
      stream_result cb [] [f, f'] [] w ep"
    using sizes f(1) f'(1) by (intro from_wire_stream [OF gs ep]) simp_all
  then show ?thesis
    using fail f(2,3) f'(2,3) by (simp add: stream_result_def assemble.simps echoes_def del: deliver.simps)
qed

text \<open>So does a message in the same read as the upgrade request.\<close>

lemma request_and_message:
  assumes gs: "\<And>k. wf_garbage (fst (gs k))" and ep: "fresh cb w [] ep" and w: "ready w"
    and r: "plain_upgrade r key" and f: "client_frame f" "fr_fin f" "known_opcode (fr_opcode f)"
    and bs: "bs = bytes_of_str (render_request r) @ encode_frame f" and len: "length bs \<le> 1024000"
  shows "from_wire gs (Some bs) (int (length bs)) ep = Inl Exit_failure"
proof -
  have key: "length key \<le> length (render_request r)"
    using r by (intro key_length) (auto simp: plain_upgrade_def dest: map_of_SomeD)
  have "length (rfc_reply key) < 2 ^ 31"
    using length_b64_spec [of "fips_sha1 (bytes_of_str (key @ rfc_GUID))"] sha1_reply_length [of key] by simp
  then have "length (bytes_of_str (rfc_reply key)) < 2 ^ 31" by simp
  note w1 = store [OF w this] stored_put [OF w, of "bytes_of_str (rfc_reply key)"]
  have "from_wire gs (Some bs) (int (length bs)) ep =
    bindE (deliver cb [bytes_of_str (rfc_reply key)] w) (\<lambda>w.
      stream_result cb [] [f] [] w (opened ep (buf_of []) w))"
    using from_wire_handshake [OF gs ep r _ _ , of bs "[f]" "[]"] bs len f(1) by simp
  then show ?thesis
    using w1 f(2,3) full [OF w1(2)] by (simp add: stream_result_def assemble.simps echoes_def)
qed

end

section \<open>A sample\<close>

text \<open>A callback that records what is sent, and endpoints before and after the handshake.\<close>

definition record_cb :: "bytes list write_cb" where
  "record_cb buf sz sent = Inr (sent @ [buf])"

definition new_endpoint :: "bytes list WebSocketEndpoint" where
  "new_endpoint = (WebSocketEndpoint_new None)\<lparr>nt_write_cb := Some record_cb, nt_work_data := Some []\<rparr>"

definition open_endpoint :: "bytes list WebSocketEndpoint" where
  "open_endpoint = new_endpoint\<lparr>ws_handshake_completed := True\<rparr>"

lemma sample_endpoints:
  "fresh record_cb [] [] new_endpoint" "linked record_cb [] [] [] open_endpoint" "wf_endpoint open_endpoint"
  "fromwire_buf open_endpoint = buf_of []"
  by (simp_all add: fresh_def linked_def new_endpoint_def open_endpoint_def WebSocketEndpoint_new_def
      ByteBuffer_new_buf_of wf_endpoint_def)

lemma client_hello [simp]: "client_frame hello_frame"
  by (simp add: client_frame_def)

lemma plain_get_request: "plain_upgrade get_request ''dGhlIHNhbXBsZSBub25jZQ==''"
  by (simp add: plain_upgrade_def upgrade_get_request get_request_params)

section \<open>Properties\<close>

text \<open>C3: \<^verbatim>\<open>from_wire\<close> returns on every input. Whatever bytes arrive, in whatever state of the
  connection and with whatever memory the local packets find, the loop ends. If no exception leaves it, both buffers
  are again read from their start, and the result is at least -1; only before the handshake is completed may it also be
  the uninitialised \<^verbatim>\<open>hs_length_\<close> of the first packet, narrowed to 32 bits.\<close>

theorem from_wire_terminates:
  assumes "\<And>k. wf_garbage (fst (gs k))" and "wf_endpoint ep"
    and "length (data (fromwire_buf ep) @ bs) < 2 ^ 31"
  shows "\<exists>r. from_wire_loop gs 0 (ep\<lparr>fromwire_buf := buf_of (data (fromwire_buf ep) @ bs)\<rparr>) = Some r \<and>
    from_wire gs (Some bs) (int (length bs)) ep = r \<and>
    (case r of Inl _ \<Rightarrow> True
     | Inr (n, ep') \<Rightarrow> wf_endpoint ep' \<and>
         (if ws_handshake_completed ep then -1 \<le> n \<and> n < 2 ^ 31
          else -1 \<le> n \<and> n < 2 ^ 31 \<or> n = to_int32 (uint (g_hs_length (fst (gs 0))))))"
  using from_wire_total [OF assms] unfolding result_in_range_def .

theorem from_wire_terminates_witness:
  "\<exists>r. from_wire_loop (\<lambda>_. (zero_garbage, zero_garbage)) 0
      (open_endpoint\<lparr>fromwire_buf := buf_of (data (fromwire_buf open_endpoint) @ [0xFF, 0x00])\<rparr>) = Some r \<and>
    from_wire (\<lambda>_. (zero_garbage, zero_garbage)) (Some [0xFF, 0x00]) (int (length [0xFF :: byte, 0x00])) open_endpoint = r \<and>
    (case r of Inl _ \<Rightarrow> True
     | Inr (n, ep') \<Rightarrow> wf_endpoint ep' \<and>
         (if ws_handshake_completed open_endpoint then -1 \<le> n \<and> n < 2 ^ 31
          else -1 \<le> n \<and> n < 2 ^ 31 \<or> n = to_int32 (uint (g_hs_length (fst (zero_garbage, zero_garbage))))))"
  by (rule from_wire_terminates) (simp_all add: sample_endpoints)

text \<open>That exception does happen: with 0xDEADBEEF in that memory a read of no bytes on a new connection sends the reply for the
  empty key and returns the value as a negative number.\<close>

lemma from_wire_returns_uninitialised:
  "from_wire (\<lambda>_. (sample_garbage, zero_garbage)) (Some []) 0 new_endpoint =
    Inr (- 559038737, opened new_endpoint (buf_of []) [bytes_of_str (rfc_reply [])])"
proof -
  have g: "wf_garbage sample_garbage" by (simp add: wf_garbage_def sample_garbage_def)
  have "parse_packet sample_garbage zero_garbage new_endpoint =
      Inr (0xDEADBEEF, opened new_endpoint (buf_of []) [bytes_of_str (rfc_reply [])])"
    using sample_endpoints(1) recv_incomplete [of "[]" "WebSocketPacket_new sample_garbage"] pack_handshake_rsp_empty [OF g]
      EOL_nonempty [of "[]"]
    by (simp add: parse_packet_def fresh_def no_params Let_def to_wire_def opened_def str_find_def str_of_bytes_def record_cb_def
        sample_garbage_def)
  from from_wire_loop_step [where gs = "\<lambda>_. (sample_garbage, zero_garbage)" and k = 0, simplified fst_conv snd_conv, OF this]
  have loop: "from_wire_loop (\<lambda>_. (sample_garbage, zero_garbage)) 0 new_endpoint =
      Some (Inr (- 559038737, opened new_endpoint (buf_of []) [bytes_of_str (rfc_reply [])]))"
    by (simp add: after_round_def opened_def resetoft_erase length_bb_def to_int32_def)
  have "new_endpoint\<lparr>fromwire_buf := buf_of (data (fromwire_buf new_endpoint) @ [])\<rparr> = new_endpoint"
    "oft (fromwire_buf new_endpoint) = 0"
    by (simp_all add: new_endpoint_def WebSocketEndpoint_new_def ByteBuffer_new_buf_of)
  from from_wire_loop_eq [OF this(2), of _ "[]", unfolded this(1), OF loop] show ?thesis by simp
qed

text \<open>C1: the endpoint implements the assembler. After the handshake, for every sequence of client
  frames, with the beginning of one more behind it or not, and wherever the bytes that had arrived
  before end, \<^verbatim>\<open>from_wire\<close> passes to the callback exactly the echoes of the messages, in order,
  keeps the unfinished message and the unfinished frame, and raises only what the callback raises.\<close>

theorem from_wire_implements_assembler:
  assumes "\<And>k. wf_garbage (fst (gs k))" and "linked cb w pre acc ep"
    and "pre @ bs = stream fs @ rest" and "fs \<noteq> [] \<or> rest \<noteq> []"
    and "list_all client_frame fs" and "rest = [] \<or> partial_frame rest"
    and "length acc + length (pre @ bs) + 14 < 2 ^ 31"
  shows "from_wire gs (Some bs) (int (length bs)) ep =
    bindE (deliver cb (snd (assemble acc fs)) w) (\<lambda>w.
      Inr (if rest = [] then int (length (encode_frame (last fs))) else 0,
        ep\<lparr>fromwire_buf := buf_of rest, nt_work_data := Some w,
          message_data := buf_of (fst (assemble acc fs))\<rparr>))"
  using from_wire_stream [OF assms] by (simp add: stream_result_def)

theorem from_wire_implements_assembler_witness:
  "from_wire (\<lambda>_. (zero_garbage, zero_garbage)) (Some hello_bytes) (int (length hello_bytes)) open_endpoint =
    bindE (deliver record_cb (snd (assemble [] [hello_frame])) []) (\<lambda>w.
      Inr (if [] = ([] :: bytes) then int (length (encode_frame (last [hello_frame]))) else 0,
        open_endpoint\<lparr>fromwire_buf := buf_of [], nt_work_data := Some w,
          message_data := buf_of (fst (assemble [] [hello_frame]))\<rparr>))"
  by (rule from_wire_implements_assembler [OF _ sample_endpoints(2)]) (simp_all add: hello_encoded)

text \<open>C11: the way the network cuts a stream does not matter, as long as no cut is inside a frame
  header: handing \<^verbatim>\<open>from_wire\<close> the bytes in two parts has the same result, sends the same frames
  and leaves the same state as handing them over at once.\<close>

theorem from_wire_chunk_invariant:
  assumes "\<And>k. wf_garbage (fst (gs k))" and "\<And>k. wf_garbage (fst (gs' k))"
    and "\<And>k. wf_garbage (fst (gs'' k))" and "linked cb w pre acc ep"
    and "pre @ bs = stream fs @ rest" and "fs \<noteq> [] \<or> rest \<noteq> []"
    and "rest @ bs' = stream fs' @ rest'" and "fs' \<noteq> [] \<or> rest' \<noteq> []"
    and "list_all client_frame (fs @ fs')"
    and "rest = [] \<or> partial_frame rest" and "rest' = [] \<or> partial_frame rest'"
    and "length acc + length (pre @ bs @ bs') + 14 < 2 ^ 31"
  shows "bindE (from_wire gs (Some bs) (int (length bs)) ep)
      (\<lambda>(_, ep1). from_wire gs' (Some bs') (int (length bs')) ep1) =
    from_wire gs'' (Some (bs @ bs')) (int (length (bs @ bs'))) ep"
  by (rule from_wire_two_parts [OF assms])

theorem from_wire_chunk_invariant_witness:
  "bindE (from_wire (\<lambda>_. (zero_garbage, zero_garbage)) (Some (take 8 hello_bytes)) (int (length (take 8 hello_bytes))) open_endpoint)
      (\<lambda>(_, ep1). from_wire (\<lambda>_. (zero_garbage, zero_garbage)) (Some (drop 8 hello_bytes)) (int (length (drop 8 hello_bytes))) ep1) =
    from_wire (\<lambda>_. (zero_garbage, zero_garbage)) (Some (take 8 hello_bytes @ drop 8 hello_bytes))
      (int (length (take 8 hello_bytes @ drop 8 hello_bytes))) open_endpoint"
proof -
  have "partial_frame (take 8 hello_bytes)"
    by (simp add: partial_frame_def hello_bytes_def complete_header_def header_size_def ext_size_def
        key_size_def len7_def masked_def bit_iff_odd_drop_bit parse_frame_def payload_len_def)
  then show ?thesis
    by (intro from_wire_chunk_invariant [where pre = "[]" and fs = "[]" and fs' = "[hello_frame]"
          and rest = "take 8 hello_bytes" and rest' = "[]" and acc = "[]" and w = "[]" and cb = record_cb])
      (simp_all add: sample_endpoints hello_encoded, simp add: hello_bytes_def)
qed

text \<open>C2: opening a connection. When the rest of an upgrade request that the code accepts arrives (\<open>plain_upgrade\<close>: well-formed,
  with the fields \<open>upgrade_ok\<close> in exactly that spelling and no \<^verbatim>\<open>Sec-WebSocket-Protocol\<close>; RFC 6455 allows
  more, see \<open>handshake_refused\<close>), with client frames behind it or not, \<^verbatim>\<open>from_wire\<close> sends the reply of RFC 6455 with the
  accept value of the key, marks the handshake as completed and goes on with the frames as the assembler does.\<close>

theorem from_wire_opens_connection:
  assumes "\<And>k. wf_garbage (fst (gs k))" and "fresh cb w pre ep" and "plain_upgrade r key"
    and "pre @ bs = bytes_of_str (render_request r) @ stream fs @ rest"
    and "length (pre @ bs) \<le> 1024000"
    and "list_all client_frame fs" and "rest = [] \<or> partial_frame rest"
  shows "from_wire gs (Some bs) (int (length bs)) ep =
    bindE (deliver cb [bytes_of_str (rfc_reply key)] w) (\<lambda>w.
      if fs = [] \<and> rest = [] then Inr (int (length (render_request r)), opened ep (buf_of []) w)
      else stream_result cb [] fs rest w (opened ep (buf_of []) w))"
  by (rule from_wire_handshake [OF assms])

theorem from_wire_opens_connection_witness:
  "from_wire (\<lambda>_. (sample_garbage, sample_garbage)) (Some (bytes_of_str (render_request get_request) @ hello_bytes))
      (int (length (bytes_of_str (render_request get_request) @ hello_bytes))) new_endpoint =
    bindE (deliver record_cb [bytes_of_str (rfc_reply ''dGhlIHNhbXBsZSBub25jZQ=='')] []) (\<lambda>w.
      if [hello_frame] = [] \<and> ([] :: bytes) = []
      then Inr (int (length (render_request get_request)), opened new_endpoint (buf_of []) w)
      else stream_result record_cb [] [hello_frame] [] w (opened new_endpoint (buf_of []) w))"
  by (rule from_wire_opens_connection [OF _ sample_endpoints(1) plain_get_request])
    (simp_all add: hello_encoded wf_garbage_def sample_garbage_def)

text \<open>C17: a refused request is final. When the bytes that have arrived begin with a request whose
  fields are not those asked for, \<^verbatim>\<open>from_wire\<close> returns -1, sends nothing and keeps all the bytes,
  so the endpoint is in the same position for every further read.\<close>

theorem from_wire_refuses_for_good:
  assumes "fresh cb w pre ep" and "wf_request r" and "\<not> upgrade_ok (request_params r Map.empty)"
    and "pre @ bs = bytes_of_str (render_request r) @ rest" and "length (pre @ bs) \<le> 1024000"
  shows "from_wire gs (Some bs) (int (length bs)) ep = Inr (-1, ep\<lparr>fromwire_buf := buf_of (pre @ bs)\<rparr>) \<and>
    fresh cb w (pre @ bs) (ep\<lparr>fromwire_buf := buf_of (pre @ bs)\<rparr>)"
proof
  let ?ep = "ep\<lparr>fromwire_buf := buf_of (pre @ bs)\<rparr>"
  have "\<exists>q. recv_handshake (WebSocketPacket_new (fst (gs 0))) (buf_of (pre @ bs)) =
      Inr (WS_ERROR_INVALID_HANDSHAKE_PARAMS, q, buf_of (pre @ bs))"
    using recv_request [OF assms(2,4,5) refl refl, of "WebSocketPacket_new (fst (gs 0))"] assms(3)
    by (simp add: request_packet_def WebSocketPacket_new_def)
  then have "parse_packet (fst (gs 0)) (snd (gs 0)) ?ep = Inr (-1, ?ep)"
    using assms(1) by (auto simp: parse_packet_def fresh_def WS_ERROR_INVALID_HANDSHAKE_PARAMS_def)
  then have "from_wire_loop gs 0 ?ep = Some (Inr (-1, ?ep))"
    by (simp add: from_wire_loop.simps [of gs 0])
  then show "from_wire gs (Some bs) (int (length bs)) ep = Inr (-1, ?ep)"
    using assms(1) by (intro from_wire_loop_eq) (simp_all add: fresh_def)
  show "fresh cb w (pre @ bs) ?ep" using assms(1) by (simp add: fresh_def)
qed

theorem from_wire_refuses_for_good_witness:
  "from_wire (\<lambda>_. (sample_garbage, sample_garbage)) (Some (bytes_of_str (render_request keep_alive_request)))
      (int (length (bytes_of_str (render_request keep_alive_request)))) new_endpoint =
    Inr (-1, new_endpoint\<lparr>fromwire_buf := buf_of ([] @ bytes_of_str (render_request keep_alive_request))\<rparr>) \<and>
    fresh record_cb [] ([] @ bytes_of_str (render_request keep_alive_request))
      (new_endpoint\<lparr>fromwire_buf := buf_of ([] @ bytes_of_str (render_request keep_alive_request))\<rparr>)"
  by (rule from_wire_refuses_for_good [OF sample_endpoints(1), where r = keep_alive_request and rest = "[]"])
    (simp_all add: wf_request_def keep_alive_request_def get_request_def word_def field_text_def
      upgrade_ok_def request_params_def render_request_EOL request_lines_SP header_line_def)

text \<open>Waiting for a request. As long as the end of the request has not arrived, and if the memory
  of the local packet holds zero where \<^verbatim>\<open>hs_length_\<close> lies, \<^verbatim>\<open>from_wire\<close> returns 0, sends
  nothing and keeps the bytes.\<close>

theorem from_wire_waits_for_request:
  assumes "fresh cb w pre ep" and "str_find (str_of_bytes (pre @ bs)) (EOL @ EOL) 0 = None"
    and "length (pre @ bs) \<le> 1024000" and "g_hs_length (fst (gs 0)) = 0"
  shows "from_wire gs (Some bs) (int (length bs)) ep = Inr (0, ep\<lparr>fromwire_buf := buf_of (pre @ bs)\<rparr>)"
proof (rule from_wire_loop_eq)
  show "oft (fromwire_buf ep) = 0" using assms(1) by (simp add: fresh_def)
  let ?ep = "ep\<lparr>fromwire_buf := buf_of (pre @ bs)\<rparr>"
  have "parse_packet (fst (gs 0)) (snd (gs 0)) ?ep = Inr (0, ?ep)"
    using assms(1,4) recv_incomplete [OF assms(2,3)] by (simp add: parse_packet_def fresh_def no_params)
  then have "from_wire_loop gs 0 ?ep = Some (Inr (0, ?ep))"
    by (simp add: from_wire_loop.simps [of gs 0] resetoft_def buf_of_def)
  then show "from_wire_loop gs 0 (ep\<lparr>fromwire_buf := buf_of (data (fromwire_buf ep) @ bs)\<rparr>) =
      Some (Inr (0, ?ep))"
    using assms(1) by (simp add: fresh_def)
qed

theorem from_wire_waits_for_request_witness:
  "from_wire (\<lambda>_. (zero_garbage, zero_garbage)) (Some [0x47, 0x45, 0x54]) (int (length [0x47 :: byte, 0x45, 0x54])) new_endpoint =
    Inr (0, new_endpoint\<lparr>fromwire_buf := buf_of ([] @ [0x47, 0x45, 0x54])\<rparr>)"
proof (rule from_wire_waits_for_request [OF sample_endpoints(1)])
  show "str_find (str_of_bytes ([] @ [0x47, 0x45, 0x54])) (EOL @ EOL) 0 = None"
    by (simp add: str_find_def EOL_def str_of_bytes_def)
qed (simp_all add: zero_garbage_def)

text \<open>C18: the uninitialised handshake length. If that memory holds anything but zero,
  \<^verbatim>\<open>parse_packet\<close> takes a request whose end has not arrived for a complete one: it sends the reply
  for the empty key, marks the handshake as completed and reports the value of the memory as the
  number of bytes to drop.\<close>

theorem parse_packet_trusts_uninitialised_length:
  assumes "fresh cb w bs ep" and "str_find (str_of_bytes bs) (EOL @ EOL) 0 = None"
    and "length bs \<le> 1024000" and "g_hs_length g \<noteq> 0" and "wf_garbage g"
  shows "parse_packet g g' ep =
    bindE (deliver cb [bytes_of_str (rfc_reply [])] w) (\<lambda>w.
      Inr (uint (g_hs_length g), opened ep (buf_of bs) w))"
  using assms(1,4) recv_incomplete [OF assms(2,3)] pack_handshake_rsp_empty [OF assms(5)] EOL_nonempty [of "[]"]
  by (simp add: parse_packet_def fresh_def no_params Let_def to_wire_def bindE_assoc opened_def)

theorem parse_packet_trusts_uninitialised_length_witness:
  "parse_packet sample_garbage zero_garbage new_endpoint =
    bindE (deliver record_cb [bytes_of_str (rfc_reply [])] []) (\<lambda>w.
      Inr (uint (g_hs_length sample_garbage), opened new_endpoint (buf_of []) w))"
  by (rule parse_packet_trusts_uninitialised_length [OF sample_endpoints(1)])
    (simp_all add: str_find_def str_of_bytes_def wf_garbage_def sample_garbage_def)

text \<open>Without a callback or without work data, \<^verbatim>\<open>process\<close> returns 0 and drops the bytes it was
  given: nothing of the endpoint changes.\<close>

theorem process_without_callback:
  assumes "write_cb = None \<or> work_data = None"
  shows "process_cb gs readbuf sz write_cb work_data ep = Inr (0, ep)"
  using assms by (auto simp: process_cb_def)

theorem process_without_callback_witness:
  "process_cb (\<lambda>_. (zero_garbage, zero_garbage)) (Some [1, 2, 3]) 3 None (Some []) open_endpoint = Inr (0, open_endpoint)"
  by (rule process_without_callback) simp

end
