(* ===== verification/Uv_Errno.thy ===== *)
theory Uv_Errno
  imports Ws_Prelude
begin

text \<open>
  The error codes of libuv as the program includes them (src/include/uv/errno.h, and
  \<^verbatim>\<open>UV_ERRNO_MAP\<close>, \<^verbatim>\<open>uv_errno_t\<close> and the other enumerations of src/include/uv.h). The headers
  are preprocessor code: the model is a function of the macros the platform defines, the codes of
  its \<^verbatim>\<open>errno.h\<close> among them. \<^verbatim>\<open>on_peer_read\<close> and the other callbacks tell errors from results
  by their sign, and the end of a stream by \<^verbatim>\<open>UV_EOF\<close>.
\<close>

section \<open>The macros of the platform\<close>

type_synonym macros = "string \<rightharpoonup> int"

definition is_defined :: "macros \<Rightarrow> string \<Rightarrow> bool" where
  "is_defined m name \<longleftrightarrow> m name \<noteq> None"

text \<open>In \<^verbatim>\<open>#if EDOM > 0\<close> a macro that is not defined counts as 0.\<close>

definition UV__ERR :: "macros \<Rightarrow> int \<Rightarrow> int" where
  "UV__ERR m x = (if (case m ''EDOM'' of Some v \<Rightarrow> v | None \<Rightarrow> 0) > 0 then - x else x)"

definition UV__EOF :: int where "UV__EOF = -4095"

definition UV__UNKNOWN :: int where "UV__UNKNOWN = -4094"

definition UV__EAI_codes :: "(string \<times> int) list" where
  "UV__EAI_codes =
  [(''EAI_ADDRFAMILY'', -3000), (''EAI_AGAIN'', -3001), (''EAI_BADFLAGS'', -3002),
   (''EAI_CANCELED'', -3003), (''EAI_FAIL'', -3004), (''EAI_FAMILY'', -3005),
   (''EAI_MEMORY'', -3006), (''EAI_NODATA'', -3007), (''EAI_NONAME'', -3008),
   (''EAI_OVERFLOW'', -3009), (''EAI_SERVICE'', -3010), (''EAI_SOCKTYPE'', -3011),
   (''EAI_BADHINTS'', -3013), (''EAI_PROTOCOL'', -3014)]"

text \<open>The block of one code: the code of the system, outside Windows, or else a number of its own.\<close>

definition UV__code :: "macros \<Rightarrow> string \<Rightarrow> int \<Rightarrow> int" where
  "UV__code m name fallback =
     (if is_defined m name \<and> \<not> is_defined m ''_WIN32'' then UV__ERR m (the (m name)) else fallback)"

text \<open>The names of the codes with these numbers, in the order of the file.\<close>

definition errno_fallbacks_1 :: "(string \<times> int) list" where
  "errno_fallbacks_1 =
  [(''E2BIG'', -4093), (''EACCES'', -4092), (''EADDRINUSE'', -4091),
   (''EADDRNOTAVAIL'', -4090), (''EAFNOSUPPORT'', -4089), (''EAGAIN'', -4088),
   (''EALREADY'', -4084), (''EBADF'', -4083), (''EBUSY'', -4082), (''ECANCELED'', -4081),
   (''ECHARSET'', -4080), (''ECONNABORTED'', -4079), (''ECONNREFUSED'', -4078),
   (''ECONNRESET'', -4077), (''EDESTADDRREQ'', -4076), (''EEXIST'', -4075),
   (''EFAULT'', -4074), (''EHOSTUNREACH'', -4073), (''EINTR'', -4072), (''EINVAL'', -4071),
   (''EIO'', -4070), (''EISCONN'', -4069), (''EISDIR'', -4068), (''ELOOP'', -4067)]"

definition errno_fallbacks_2 :: "(string \<times> int) list" where
  "errno_fallbacks_2 =
  [(''EMFILE'', -4066), (''EMSGSIZE'', -4065), (''ENAMETOOLONG'', -4064),
   (''ENETDOWN'', -4063), (''ENETUNREACH'', -4062), (''ENFILE'', -4061), (''ENOBUFS'', -4060),
   (''ENODEV'', -4059), (''ENOENT'', -4058), (''ENOMEM'', -4057), (''ENONET'', -4056),
   (''ENOSPC'', -4055), (''ENOSYS'', -4054), (''ENOTCONN'', -4053), (''ENOTDIR'', -4052),
   (''ENOTEMPTY'', -4051), (''ENOTSOCK'', -4050), (''ENOTSUP'', -4049), (''EPERM'', -4048),
   (''EPIPE'', -4047), (''EPROTONOSUPPORT'', -4045), (''EPROTOTYPE'', -4044),
   (''EROFS'', -4043), (''ESHUTDOWN'', -4042)]"

definition errno_fallbacks_3 :: "(string \<times> int) list" where
  "errno_fallbacks_3 =
  [(''ESPIPE'', -4041), (''ESRCH'', -4040), (''ETIMEDOUT'', -4039), (''ETXTBSY'', -4038),
   (''EXDEV'', -4037), (''EFBIG'', -4036), (''ENOPROTOOPT'', -4035), (''ERANGE'', -4034),
   (''ENXIO'', -4033), (''EMLINK'', -4032), (''EREMOTEIO'', -4030), (''ENOTTY'', -4029),
   (''EFTYPE'', -4028), (''EILSEQ'', -4027)]"

text \<open>Two codes have blocks of their own.\<close>

definition UV__EPROTO :: "macros \<Rightarrow> int" where
  "UV__EPROTO m = UV__code m ''EPROTO'' (UV__ERR m 4046)"

definition bsd_macros :: "string list" where
  "bsd_macros = [''__APPLE__'', ''__DragonFly__'', ''__FreeBSD__'', ''__FreeBSD_kernel__'', ''__NetBSD__'', ''__OpenBSD__'']"

definition UV__EHOSTDOWN :: "macros \<Rightarrow> int" where
  "UV__EHOSTDOWN m = UV__code m ''EHOSTDOWN'' (if list_ex (is_defined m) bsd_macros then -64 else -4031)"

definition UV__codes :: "macros \<Rightarrow> (string \<times> int) list" where
  "UV__codes m =
     [(''EOF'', UV__EOF), (''UNKNOWN'', UV__UNKNOWN)] @ UV__EAI_codes @
     map (\<lambda>(name, fallback). (name, UV__code m name fallback)) (errno_fallbacks_1 @ errno_fallbacks_2 @ errno_fallbacks_3) @
     [(''EPROTO'', UV__EPROTO m), (''EHOSTDOWN'', UV__EHOSTDOWN m)]"

section \<open>The enumeration of the errors\<close>

text \<open>\<^verbatim>\<open>UV_ERRNO_MAP\<close> is a list of names and messages; \<^verbatim>\<open>XX\<close> is mapped over it.\<close>

definition UV_ERRNO_MAP :: "(string \<times> string) list" where
  "UV_ERRNO_MAP =
  [(''E2BIG'', ''argument list too long''), (''EACCES'', ''permission denied''),
   (''EADDRINUSE'', ''address already in use''),
   (''EADDRNOTAVAIL'', ''address not available''),
   (''EAFNOSUPPORT'', ''address family not supported''),
   (''EAGAIN'', ''resource temporarily unavailable''),
   (''EAI_ADDRFAMILY'', ''address family not supported''),
   (''EAI_AGAIN'', ''temporary failure''), (''EAI_BADFLAGS'', ''bad ai_flags value''),
   (''EAI_BADHINTS'', ''invalid value for hints''), (''EAI_CANCELED'', ''request canceled''),
   (''EAI_FAIL'', ''permanent failure''), (''EAI_FAMILY'', ''ai_family not supported''),
   (''EAI_MEMORY'', ''out of memory''), (''EAI_NODATA'', ''no address''),
   (''EAI_NONAME'', ''unknown node or service''),
   (''EAI_OVERFLOW'', ''argument buffer overflow''),
   (''EAI_PROTOCOL'', ''resolved protocol is unknown''),
   (''EAI_SERVICE'', ''service not available for socket type''),
   (''EAI_SOCKTYPE'', ''socket type not supported''),
   (''EALREADY'', ''connection already in progress''), (''EBADF'', ''bad file descriptor''),
   (''EBUSY'', ''resource busy or locked''), (''ECANCELED'', ''operation canceled''),
   (''ECHARSET'', ''invalid Unicode character''),
   (''ECONNABORTED'', ''software caused connection abort''),
   (''ECONNREFUSED'', ''connection refused''), (''ECONNRESET'', ''connection reset by peer''),
   (''EDESTADDRREQ'', ''destination address required''), (''EEXIST'', ''file already exists''),
   (''EFAULT'', ''bad address in system call argument''), (''EFBIG'', ''file too large''),
   (''EHOSTUNREACH'', ''host is unreachable''), (''EINTR'', ''interrupted system call''),
   (''EINVAL'', ''invalid argument''), (''EIO'', ''i/o error''),
   (''EISCONN'', ''socket is already connected''),
   (''EISDIR'', ''illegal operation on a directory''),
   (''ELOOP'', ''too many symbolic links encountered''), (''EMFILE'', ''too many open files''),
   (''EMSGSIZE'', ''message too long''), (''ENAMETOOLONG'', ''name too long''),
   (''ENETDOWN'', ''network is down''), (''ENETUNREACH'', ''network is unreachable''),
   (''ENFILE'', ''file table overflow''), (''ENOBUFS'', ''no buffer space available''),
   (''ENODEV'', ''no such device''), (''ENOENT'', ''no such file or directory''),
   (''ENOMEM'', ''not enough memory''), (''ENONET'', ''machine is not on the network''),
   (''ENOPROTOOPT'', ''protocol not available''), (''ENOSPC'', ''no space left on device''),
   (''ENOSYS'', ''function not implemented''), (''ENOTCONN'', ''socket is not connected''),
   (''ENOTDIR'', ''not a directory''), (''ENOTEMPTY'', ''directory not empty''),
   (''ENOTSOCK'', ''socket operation on non-socket''),
   (''ENOTSUP'', ''operation not supported on socket''),
   (''EPERM'', ''operation not permitted''), (''EPIPE'', ''broken pipe''),
   (''EPROTO'', ''protocol error''), (''EPROTONOSUPPORT'', ''protocol not supported''),
   (''EPROTOTYPE'', ''protocol wrong type for socket''), (''ERANGE'', ''result too large''),
   (''EROFS'', ''read-only file system''),
   (''ESHUTDOWN'', ''cannot send after transport endpoint shutdown''),
   (''ESPIPE'', ''invalid seek''), (''ESRCH'', ''no such process''),
   (''ETIMEDOUT'', ''connection timed out''), (''ETXTBSY'', ''text file is busy''),
   (''EXDEV'', ''cross-device link not permitted''), (''UNKNOWN'', ''unknown error''),
   (''EOF'', ''end of file''), (''ENXIO'', ''no such device or address''),
   (''EMLINK'', ''too many links''), (''EHOSTDOWN'', ''host is down''),
   (''EREMOTEIO'', ''remote I/O error''), (''ENOTTY'', ''inappropriate ioctl for device''),
   (''EFTYPE'', ''inappropriate file type or format''), (''EILSEQ'', ''illegal byte sequence'')]"

definition uv_errno_t :: "macros \<Rightarrow> (string \<times> int) list" where
  "uv_errno_t m =
     map (\<lambda>(code, _). (''UV_'' @ code, the (map_of (UV__codes m) code))) UV_ERRNO_MAP @
     [(''UV_ERRNO_MAX'', UV__EOF - 1)]"

section \<open>Facts about the tables\<close>

lemmas code_tables = errno_fallbacks_1_def errno_fallbacks_2_def errno_fallbacks_3_def UV__EAI_codes_def

definition sys_fallbacks :: "(string \<times> int) list" where
  "sys_fallbacks = errno_fallbacks_1 @ errno_fallbacks_2 @ errno_fallbacks_3 @ [(''EPROTO'', -4046), (''EHOSTDOWN'', -4031)]"

definition own_codes :: "(string \<times> int) list" where
  "own_codes = [(''EOF'', UV__EOF), (''UNKNOWN'', UV__UNKNOWN)] @ UV__EAI_codes"

lemma fallbacks_distinct: "distinct (map snd (own_codes @ sys_fallbacks))"
  by (simp add: own_codes_def sys_fallbacks_def code_tables UV__EOF_def UV__UNKNOWN_def)

lemma fallbacks_range: "\<forall>(n, v) \<in> set (own_codes @ sys_fallbacks). -4096 < v \<and> v \<le> -3000"
  by (simp add: own_codes_def sys_fallbacks_def code_tables UV__EOF_def UV__UNKNOWN_def)

lemma code_names_distinct: "distinct (map fst (own_codes @ sys_fallbacks))"
  by code_simp

lemma code_names_complete: "set (map fst UV_ERRNO_MAP) = set (map fst (own_codes @ sys_fallbacks))"
  by code_simp

lemma errno_map_distinct: "distinct (map fst UV_ERRNO_MAP)"
  by code_simp

section \<open>Platforms with positive codes\<close>

text \<open>
  A platform as POSIX has it: \<^verbatim>\<open>EDOM\<close> is positive, the codes of the system lie between 1 and 2999
  and differ from each other, and \<^verbatim>\<open>EHOSTDOWN\<close> is visible or has no fixed number.
\<close>

definition posix_like :: "macros \<Rightarrow> bool" where
  "posix_like m \<longleftrightarrow> (case m ''EDOM'' of Some v \<Rightarrow> v > 0 | None \<Rightarrow> False) \<and>
     (\<forall>n \<in> set (map fst sys_fallbacks). \<forall>v. m n = Some v \<longrightarrow> 0 < v \<and> v < 3000) \<and>
     (\<forall>n \<in> set (map fst sys_fallbacks). \<forall>n' \<in> set (map fst sys_fallbacks). m n \<noteq> None \<longrightarrow> m n = m n' \<longrightarrow> n = n') \<and>
     (is_defined m ''EHOSTDOWN'' \<and> \<not> is_defined m ''_WIN32'' \<or> \<not> list_ex (is_defined m) bsd_macros)"

text \<open>On such a platform every code is the negated code of the system, or its own number.\<close>

definition chosen :: "macros \<Rightarrow> string \<times> int \<Rightarrow> int" where
  "chosen m = (\<lambda>(n, v). if n \<in> set (map fst sys_fallbacks) \<and> is_defined m n \<and> \<not> is_defined m ''_WIN32''
     then - the (m n) else v)"

lemma UV__ERR_posix: "posix_like m \<Longrightarrow> UV__ERR m x = - x"
  by (auto simp: posix_like_def UV__ERR_def split: option.splits)

lemma own_codes_apart:
  assumes "(n, v) \<in> set own_codes"
  shows "n \<notin> set (map fst sys_fallbacks)"
proof -
  have "n \<in> set (map fst own_codes)" using assms by force
  with code_names_distinct show ?thesis unfolding map_append distinct_append by blast
qed

lemma codes_chosen:
  assumes m: "posix_like m"
  shows "map snd (UV__codes m) = map (chosen m) (own_codes @ sys_fallbacks)"
proof -
  have own: "map (chosen m) own_codes = map snd own_codes"
    using own_codes_apart by (intro map_cong) (auto simp: chosen_def)
  have code: "chosen m (n, v) = UV__code m n v" if "(n, v) \<in> set sys_fallbacks" for n v
  proof -
    have "n \<in> set (map fst sys_fallbacks)" using that by force
    then show ?thesis by (simp add: chosen_def UV__code_def UV__ERR_posix [OF m])
  qed
  have "chosen m (''EPROTO'', -4046) = UV__EPROTO m"
    by (subst code) (simp_all add: sys_fallbacks_def UV__EPROTO_def UV__ERR_posix [OF m])
  moreover have "chosen m (''EHOSTDOWN'', -4031) = UV__EHOSTDOWN m"
    using m by (subst code) (auto simp: sys_fallbacks_def UV__EHOSTDOWN_def UV__code_def posix_like_def)
  moreover define fbs where "fbs = errno_fallbacks_1 @ errno_fallbacks_2 @ errno_fallbacks_3"
  have all: "sys_fallbacks = fbs @ [(''EPROTO'', -4046), (''EHOSTDOWN'', -4031)]"
    by (simp add: fbs_def sys_fallbacks_def)
  have "map (chosen m) fbs = map (\<lambda>(n, v). UV__code m n v) fbs"
    using code by (intro map_cong [OF refl]) (auto simp: all)
  ultimately have "map (chosen m) (own_codes @ sys_fallbacks) =
      map snd own_codes @ map (\<lambda>(n, v). UV__code m n v) fbs @ [UV__EPROTO m, UV__EHOSTDOWN m]"
    by (simp add: own all)
  moreover have "UV__codes m = own_codes @ map (\<lambda>(n, v). (n, UV__code m n v)) fbs @
      [(''EPROTO'', UV__EPROTO m), (''EHOSTDOWN'', UV__EHOSTDOWN m)]"
    by (simp add: UV__codes_def own_codes_def fbs_def)
  ultimately show ?thesis by (simp add: comp_def case_prod_unfold)
qed

lemma chosen_range:
  assumes m: "posix_like m" and e: "e \<in> set (own_codes @ sys_fallbacks)"
  shows "-4096 < chosen m e \<and> chosen m e < 0"
proof -
  obtain n v where [simp]: "e = (n, v)" by (cases e)
  have "-4096 < v \<and> v \<le> -3000" using fallbacks_range e by fastforce
  then show ?thesis using m by (auto simp: chosen_def posix_like_def is_defined_def)
qed

lemma chosen_inj:
  assumes m: "posix_like m"
  shows "inj_on (chosen m) (set (own_codes @ sys_fallbacks))"
proof (rule inj_onI)
  fix e e' assume e: "e \<in> set (own_codes @ sys_fallbacks)" and e': "e' \<in> set (own_codes @ sys_fallbacks)"
    and eq: "chosen m e = chosen m e'"
  obtain n v n' v' where [simp]: "e = (n, v)" and [simp]: "e' = (n', v')" by (cases e; cases e')
  have range: "v \<le> -3000" "v' \<le> -3000" using fallbacks_range e e' by fastforce+
  let ?sys = "\<lambda>n. n \<in> set (map fst sys_fallbacks) \<and> is_defined m n \<and> \<not> is_defined m ''_WIN32''"
  have small: "-3000 < - the (m x)" if "?sys x" for x
    using m that by (auto simp: posix_like_def is_defined_def)
  show "e = e'"
  proof (cases "?sys n \<or> ?sys n'")
    case True
    have sel: "chosen m (x, y) = (if ?sys x then - the (m x) else y)" for x y by (simp add: chosen_def)
    have both: "?sys n \<and> ?sys n'"
    proof (rule ccontr)
      assume "\<not> (?sys n \<and> ?sys n')"
      then consider "?sys n" "\<not> ?sys n'" | "\<not> ?sys n" "?sys n'" using True by blast
      then show False
      proof cases
        case 1
        then show False using eq small [of n] range(2) by (simp only: sel if_P if_not_P \<open>e = (n, v)\<close> \<open>e' = (n', v')\<close>) simp
      next
        case 2
        then show False using eq small [of n'] range(1) by (simp only: sel if_P if_not_P \<open>e = (n, v)\<close> \<open>e' = (n', v')\<close>) simp
      qed
    qed
    then have "m n = m n'" using eq by (auto simp: sel is_defined_def)
    then have "n = n'" using m both by (auto simp: posix_like_def is_defined_def)
    then show ?thesis using e e' inj_onD [OF conjunct2 [OF iffD1 [OF distinct_map code_names_distinct]], of e e'] by simp
  next
    case False
    then have "v = v'" using eq by (auto simp: chosen_def split: if_splits)
    then show ?thesis using e e' inj_onD [OF conjunct2 [OF iffD1 [OF distinct_map fallbacks_distinct]], of e e'] by simp
  qed
qed

lemma distinct_codes: "posix_like m \<Longrightarrow> distinct (map snd (UV__codes m))"
  using chosen_inj [of m] code_names_distinct
  by (simp add: codes_chosen distinct_map del: map_append)

lemma names_of_codes: "map fst (UV__codes m) = map fst (own_codes @ sys_fallbacks)"
  by (simp add: UV__codes_def own_codes_def sys_fallbacks_def comp_def case_prod_unfold)

lemma map_of_inj:
  assumes "distinct (map fst xs)" and "distinct (map snd xs)"
  shows "inj_on (\<lambda>n. the (map_of xs n)) (set (map fst xs))"
proof (rule inj_onI)
  fix n n' assume "n \<in> set (map fst xs)" "n' \<in> set (map fst xs)" "the (map_of xs n) = the (map_of xs n')"
  then obtain v where "(n, v) \<in> set xs" "(n', v) \<in> set xs"
    using assms(1) by (auto simp: map_of_eq_Some_iff)
  then show "n = n'" using assms(2) inj_onD [of snd "set xs" "(n, v)" "(n', v)"] by (simp add: distinct_map)
qed

lemma in_set_map: "v \<in> set (map f xs) \<Longrightarrow> (\<And>x. x \<in> set xs \<Longrightarrow> P (f x)) \<Longrightarrow> P v"
  by auto

lemma lookup_code:
  assumes "code \<in> set (map fst UV_ERRNO_MAP)"
  obtains v where "(code, v) \<in> set (UV__codes m)" and "map_of (UV__codes m) code = Some v"
proof -
  have "code \<in> set (map fst (UV__codes m))" using assms by (simp only: names_of_codes code_names_complete)
  then obtain v where "map_of (UV__codes m) code = Some v" by (auto simp: map_of_eq_None_iff dest: weak_map_of_SomeI)
  then show thesis using that by (auto dest: map_of_SomeD)
qed

lemma errno_values: "map snd (uv_errno_t m) = map (\<lambda>code. the (map_of (UV__codes m) code)) (map fst UV_ERRNO_MAP) @ [-4096]"
  by (simp add: uv_errno_t_def UV__EOF_def comp_def case_prod_unfold)

lemma code_range:
  assumes "posix_like m" and "(n, v) \<in> set (UV__codes m)"
  shows "-4096 < v \<and> v < 0"
proof -
  have "v \<in> set (map snd (UV__codes m))" using assms(2) by force
  then show ?thesis using chosen_range [OF assms(1)] by (auto simp only: codes_chosen [OF assms(1)] set_map)
qed

section \<open>Properties\<close>

text \<open>C33: the enumeration of the errors. On every platform each code of \<^verbatim>\<open>UV_ERRNO_MAP\<close> has its macro.
  Where the codes of the system are as POSIX has them, and on Windows, all values are negative, no two
  are equal, and \<^verbatim>\<open>UV_ERRNO_MAX\<close> is below the others: an error is told from a result by its sign, and
  the end of a stream, \<^verbatim>\<open>UV_EOF\<close>, from every other error.\<close>

theorem uv_errno_values:
  assumes "posix_like m"
  shows "list_all (\<lambda>code. map_of (UV__codes m) code \<noteq> None) (map fst UV_ERRNO_MAP) \<and>
    distinct (map snd (uv_errno_t m)) \<and> list_all (\<lambda>v. UV__EOF - 1 \<le> v \<and> v < 0) (map snd (uv_errno_t m)) \<and>
    map_of (UV__codes m) ''EOF'' = Some UV__EOF"
proof (intro conjI)
  show "list_all (\<lambda>code. map_of (UV__codes m) code \<noteq> None) (map fst UV_ERRNO_MAP)"
    unfolding list_all_iff using lookup_code [of _ m] by (metis option.distinct(1))
  have range: "-4096 < the (map_of (UV__codes m) code) \<and> the (map_of (UV__codes m) code) < 0"
    if "code \<in> set (map fst UV_ERRNO_MAP)" for code
    by (rule lookup_code [OF that, of m]) (use code_range [OF assms] in auto)
  let ?vs = "map (\<lambda>code. the (map_of (UV__codes m) code)) (map fst UV_ERRNO_MAP)"
  have vs: "-4096 < v \<and> v < 0" if "v \<in> set ?vs" for v
    by (rule in_set_map [where P = "\<lambda>v. -4096 < v \<and> v < 0", OF that]) (rule range)
  have "inj_on (\<lambda>n. the (map_of (UV__codes m) n)) (set (map fst UV_ERRNO_MAP))"
    using map_of_inj [of "UV__codes m"] code_names_distinct distinct_codes [OF assms]
    by (simp only: names_of_codes code_names_complete)
  then have "distinct ?vs" by (rule iffD2 [OF distinct_map conjI [OF errno_map_distinct]])
  moreover have "-4096 \<notin> set ?vs" using vs [of "-4096"] by blast
  ultimately show "distinct (map snd (uv_errno_t m))"
    unfolding errno_values distinct_append by (simp del: set_map map_map)
  show "list_all (\<lambda>v. UV__EOF - 1 \<le> v \<and> v < 0) (map snd (uv_errno_t m))"
    unfolding list_all_iff errno_values set_append UV__EOF_def by (auto simp del: set_map map_map dest!: vs)
  show "map_of (UV__codes m) ''EOF'' = Some UV__EOF"
    by (simp add: UV__codes_def)
qed

text \<open>Some of the codes of Linux.\<close>

definition linux_macros :: macros where
  "linux_macros = [''EDOM'' \<mapsto> 33, ''E2BIG'' \<mapsto> 7, ''EACCES'' \<mapsto> 13, ''ECONNRESET'' \<mapsto> 104, ''EHOSTDOWN'' \<mapsto> 112]"

theorem uv_errno_values_witness:
  "list_all (\<lambda>code. map_of (UV__codes linux_macros) code \<noteq> None) (map fst UV_ERRNO_MAP) \<and>
    distinct (map snd (uv_errno_t linux_macros)) \<and>
    list_all (\<lambda>v. UV__EOF - 1 \<le> v \<and> v < 0) (map snd (uv_errno_t linux_macros)) \<and>
    map_of (UV__codes linux_macros) ''EOF'' = Some UV__EOF"
proof (rule uv_errno_values)
  have "\<not> list_ex (is_defined linux_macros) bsd_macros"
    by (simp add: bsd_macros_def is_defined_def linux_macros_def)
  then show "posix_like linux_macros"
    unfolding posix_like_def by (auto simp: linux_macros_def split: if_splits)
qed

text \<open>Where the codes of the system are negative, as \<^verbatim>\<open>UV__ERR\<close> allows for, a platform without
  \<^verbatim>\<open>EPROTO\<close> gets a positive \<^verbatim>\<open>UV_EPROTO\<close>, the only code whose replacement goes through \<^verbatim>\<open>UV__ERR\<close>:
  the sign no longer tells this error from a result.\<close>

theorem uv_eproto_positive:
  assumes "case m ''EDOM'' of Some v \<Rightarrow> v \<le> 0 | None \<Rightarrow> True" and "m ''EPROTO'' = None"
  shows "map_of (UV__codes m) ''EPROTO'' = Some 4046"
proof -
  have "UV__EPROTO m = 4046"
    using assms by (auto simp: UV__EPROTO_def UV__code_def is_defined_def UV__ERR_def split: option.splits)
  then show ?thesis
    by (simp add: UV__codes_def code_tables)
qed

theorem uv_eproto_positive_witness: "map_of (UV__codes [''EDOM'' \<mapsto> -2147483633]) ''EPROTO'' = Some 4046"
  by (rule uv_eproto_positive) simp_all

end
