(* ===== verification/Uv_Server.thy ===== *)
theory Uv_Server
  imports Ws_Endpoint
begin

text \<open>
  The server program (src/src/main.cpp): the objects it allocates and the callbacks it hands to
  libuv. libuv itself is not part of the sources: what its functions return is an argument of
  the callbacks that call them, and when it calls the callbacks is the step relation at the end.

  Memory is a store per kind of object, with one counter for the addresses. An object that has
  been freed is no longer in its store; reading it is the fault \<open>Use_after_free\<close>, freeing it
  \<open>Bad_free\<close>. What is printed is left out.
\<close>

section \<open>Objects\<close>

type_synonym addr = nat

record uv_buf_t =
  buf_base :: "addr option"
  buf_len :: u64

definition uv_buf_init :: "addr option \<Rightarrow> u32 \<Rightarrow> uv_buf_t" where
  "uv_buf_init base len = \<lparr>buf_base = base, buf_len = ucast len\<rparr>"

record peer_state_t =
  ps_uvclient :: "addr option"
  ps_endpoint :: "addr option"

record peer_work_data_t =
  wd_uvclient :: "addr option"
  wd_endpoint :: "addr option"
  wd_request :: uv_buf_t
  wd_response :: uv_buf_t
  wd_type :: int

text \<open>Of the structures of libuv (\<^verbatim>\<open>uv_tcp_t\<close>, \<^verbatim>\<open>uv_work_t\<close>, \<^verbatim>\<open>uv_write_t\<close>) only the field \<^verbatim>\<open>data\<close>.\<close>

record memory =
  next_addr :: addr
  mem_limit :: addr
  blocks :: "addr \<rightharpoonup> bytes"
  works :: "addr \<rightharpoonup> peer_work_data_t"
  work_reqs :: "addr \<rightharpoonup> addr option"
  write_reqs :: "addr \<rightharpoonup> addr option"
  clients :: "addr \<rightharpoonup> addr option"
  peers :: "addr \<rightharpoonup> peer_state_t"

text \<open>The work data of an endpoint is the address of the structure, and the memory it lies in.\<close>

type_synonym endpoint = "(addr \<times> memory) WebSocketEndpoint"

record server =
  mem :: memory
  endpoints :: "addr \<rightharpoonup> endpoint"

definition deref :: "(addr \<rightharpoonup> 'a) \<Rightarrow> addr option \<Rightarrow> fault + 'a" where
  "deref store p =
     (case p of
        None \<Rightarrow> Inl Null_deref
      | Some a \<Rightarrow> (case store a of None \<Rightarrow> Inl Use_after_free | Some x \<Rightarrow> Inr x))"

text \<open>\<^verbatim>\<open>free(p)\<close> and \<^verbatim>\<open>delete p\<close>: nothing for the null pointer.\<close>

definition release :: "(addr \<rightharpoonup> 'a) \<Rightarrow> addr option \<Rightarrow> fault + (addr \<rightharpoonup> 'a)" where
  "release store p =
     (case p of
        None \<Rightarrow> Inr store
      | Some a \<Rightarrow> (if store a = None then Inl Bad_free else Inr (store(a := None))))"

definition free_block :: "addr option \<Rightarrow> memory \<Rightarrow> fault + memory" where
  "free_block p m = bindE (release (blocks m) p) (\<lambda>bl. Inr (m\<lparr>blocks := bl\<rparr>))"

definition block_ptr :: "addr option \<Rightarrow> memory \<Rightarrow> fault + ptr" where
  "block_ptr p m =
     (case p of None \<Rightarrow> Inr None | Some a \<Rightarrow> bindE (deref (blocks m) p) (\<lambda>bs. Inr (Some bs)))"

section \<open>Helpers\<close>

definition fail :: "fault + 'a" where
  "fail = Inl Exit_failure"

text \<open>
  \<^verbatim>\<open>malloc\<close> returns the null pointer when memory has run out and for sizes above
  \<^verbatim>\<open>PTRDIFF_MAX\<close>; \<open>sizeof_struct\<close> stands for the sizes of the structures.
\<close>

definition xmalloc :: "u64 \<Rightarrow> memory \<Rightarrow> fault + (addr \<times> memory)" where
  "xmalloc sz m =
     (if next_addr m < mem_limit m \<and> unat sz < 2 ^ 63
      then Inr (next_addr m, m\<lparr>next_addr := Suc (next_addr m)\<rparr>) else fail)"

definition sizeof_struct :: u64 where
  "sizeof_struct = 1024"

definition on_alloc_buffer :: "bytes \<Rightarrow> u64 \<Rightarrow> memory \<Rightarrow> fault + (uv_buf_t \<times> memory)" where
  "on_alloc_buffer junk suggested_size m =
     bindE (xmalloc suggested_size m) (\<lambda>(a, m).
     Inr (\<lparr>buf_base = Some a, buf_len = suggested_size\<rparr>, m\<lparr>blocks := (blocks m)(a \<mapsto> junk)\<rparr>))"

text \<open>\<^verbatim>\<open>on_alloc_buffer_v2\<close> assigns to its parameter: the caller does not see the block.\<close>

definition on_alloc_buffer_v2 :: "bytes \<Rightarrow> addr option \<Rightarrow> u64 \<Rightarrow> memory \<Rightarrow> fault + (addr option \<times> memory)" where
  "on_alloc_buffer_v2 junk buf suggested_size m =
     bindE (xmalloc suggested_size m) (\<lambda>(a, m). Inr (buf, m\<lparr>blocks := (blocks m)(a \<mapsto> junk)\<rparr>))"

text \<open>
  \<^verbatim>\<open>uv_buf_alloc_cpy\<close>: the source is what can be read through its \<^verbatim>\<open>base\<close>, and its \<^verbatim>\<open>len\<close>; the
  destination is a structure of the caller and comes back in the result. The comparison
  \<^verbatim>\<open>src->len < size\<close> is unsigned. After the copy the function ends without a \<^verbatim>\<open>return\<close>:
  \<open>returned\<close> is what the caller finds.
\<close>

definition uv_buf_alloc_cpy ::
  "int \<Rightarrow> uv_buf_t \<Rightarrow> (ptr \<times> u64) option \<Rightarrow> int \<Rightarrow> memory \<Rightarrow> fault + (int \<times> uv_buf_t \<times> memory)" where
  "uv_buf_alloc_cpy returned dst src sz m =
     (case src of
        None \<Rightarrow> Inr (-1, dst, m)
      | Some (src_base, src_len) \<Rightarrow>
          if src_len < word_of_int sz then Inr (-2, dst, m)
          else
            bindE (xmalloc (word_of_int sz) m) (\<lambda>(a, m).
            bindE (mem_read src_base (nat sz)) (\<lambda>bs.
            Inr (returned, \<lparr>buf_base = Some a, buf_len = word_of_int sz\<rparr>,
              m\<lparr>blocks := (blocks m)(a \<mapsto> bs)\<rparr>))))"

definition free_work_data :: "addr option \<Rightarrow> memory \<Rightarrow> fault + memory" where
  "free_work_data workdata m =
     bindE (deref (works m) workdata) (\<lambda>wd.
     bindE (free_block (buf_base (wd_request wd)) m) (\<lambda>m.
     bindE (free_block (buf_base (wd_response wd)) m) (\<lambda>m.
     bindE (release (works m) workdata) (\<lambda>ws. Inr (m\<lparr>works := ws\<rparr>)))))"

section \<open>The write callback\<close>

definition on_write_response :: "int \<Rightarrow> (addr \<times> memory) write_cb" where
  "on_write_response returned buf sz = (\<lambda>(wd, m).
     bindE (deref (works m) (Some wd)) (\<lambda>work_data.
     if buf_base (wd_response work_data) \<noteq> None then fail
     else
       let len = ucast (word_of_int sz :: u32) :: u64;
           m = m\<lparr>works := (works m)(wd \<mapsto> work_data\<lparr>wd_response := uv_buf_init None 0\<rparr>)\<rparr> in
       bindE (uv_buf_alloc_cpy returned (uv_buf_init None 0) (Some (Some buf, len)) (to_int32 (uint len)) m)
         (\<lambda>(_, response, m).
       Inr (wd, m\<lparr>works := (works m)(wd \<mapsto> work_data\<lparr>wd_response := response\<rparr>)\<rparr>))))"

section \<open>Work requests\<close>

text \<open>
  \<open>junk\<close> is the fresh structure as \<^verbatim>\<open>malloc\<close> leaves it; its response is not set before the
  copy of the request, and the copy may be taken to have failed (see above), so that
  \<^verbatim>\<open>free_work_data\<close> frees what happens to lie in \<^verbatim>\<open>response.base\<close>.
\<close>

definition alloc_work_req ::
  "int \<Rightarrow> peer_work_data_t \<Rightarrow> peer_state_t \<Rightarrow> int \<Rightarrow> uv_buf_t \<Rightarrow> int \<Rightarrow> memory \<Rightarrow>
   fault + (addr option \<times> memory)" where
  "alloc_work_req returned junk peerstate nread buf ty m =
     bindE (xmalloc sizeof_struct m) (\<lambda>(work_req, m).
     bindE (xmalloc sizeof_struct m) (\<lambda>(work_data, m).
     let wd = junk\<lparr>wd_uvclient := ps_uvclient peerstate, wd_endpoint := ps_endpoint peerstate,
                   wd_request := uv_buf_init None 0, wd_type := ty\<rparr> in
     bindE (if wd_type wd = 1 then
              bindE (block_ptr (buf_base buf) m) (\<lambda>base.
              bindE (uv_buf_alloc_cpy returned (wd_request wd) (Some (base, buf_len buf)) (to_int32 nread) m) (\<lambda>(rc, request, m).
              Inr (rc < 0, wd\<lparr>wd_request := request\<rparr>, m)))
            else Inr (False, wd, m)) (\<lambda>(failed, wd, m).
     let m = m\<lparr>works := (works m)(work_data \<mapsto> wd), work_reqs := (work_reqs m)(work_req \<mapsto> None)\<rparr> in
     if failed then
       bindE (free_work_data (Some work_data) m) (\<lambda>m.
       bindE (free_block (buf_base buf) m) (\<lambda>m. Inr (None, m)))
     else
       Inr (Some work_req,
         m\<lparr>works := (works m)(work_data \<mapsto> wd\<lparr>wd_response := uv_buf_init None 0\<rparr>),
           work_reqs := (work_reqs m)(work_req \<mapsto> Some work_data)\<rparr>))))"

text \<open>
  \<^verbatim>\<open>uv_queue_work\<close> takes over the request and returns \<open>rc\<close>. The callback of the work tells the
  two calls apart.
\<close>

datatype work_kind = Submitted_work | Close_work

definition uv_queue_work :: "int \<Rightarrow> addr option \<Rightarrow> work_kind \<Rightarrow> fault + (addr \<times> work_kind)" where
  "uv_queue_work rc work_req kind =
     (case work_req of
        None \<Rightarrow> Inl Null_deref
      | Some req \<Rightarrow> (if rc < 0 then fail else Inr (req, kind)))"

definition on_peer_read ::
  "int \<Rightarrow> peer_work_data_t \<Rightarrow> int \<Rightarrow> addr \<Rightarrow> int \<Rightarrow> uv_buf_t \<Rightarrow> memory \<Rightarrow>
   fault + ((addr \<times> work_kind) option \<times> memory)" where
  "on_peer_read returned junk rc client nread buf m =
     bindE (if nread < 0 then
              bindE (deref (clients m) (Some client)) (\<lambda>ps.
              bindE (deref (peers m) ps) (\<lambda>peerstate.
              let peerstate = peerstate\<lparr>ps_uvclient := Some client\<rparr>;
                  m = m\<lparr>peers := (peers m)(the ps \<mapsto> peerstate)\<rparr> in
              bindE (alloc_work_req returned junk peerstate nread buf 0 m) (\<lambda>(work_req, m).
              bindE (uv_queue_work rc work_req Close_work) (\<lambda>w. Inr (Some w, m)))))
            else if nread = 0 then Inr (None, m)
            else if buf_len buf < word_of_int nread then Inl Assert_failed
            else
              bindE (deref (clients m) (Some client)) (\<lambda>ps.
              bindE (deref (peers m) ps) (\<lambda>peerstate.
              let peerstate = peerstate\<lparr>ps_uvclient := Some client\<rparr>;
                  m = m\<lparr>peers := (peers m)(the ps \<mapsto> peerstate)\<rparr> in
              bindE (alloc_work_req returned junk peerstate nread buf 1 m) (\<lambda>(work_req, m).
              bindE (uv_queue_work rc work_req Submitted_work) (\<lambda>w. Inr (Some w, m)))))) (\<lambda>(w, m).
     bindE (free_block (buf_base buf) m) (\<lambda>m. Inr (w, m)))"

section \<open>Work on the pool\<close>

definition on_work_submitted ::
  "int \<Rightarrow> (nat \<Rightarrow> garbage \<times> garbage) \<Rightarrow> addr \<Rightarrow> server \<Rightarrow> fault + server" where
  "on_work_submitted returned gs req s =
     bindE (deref (work_reqs (mem s)) (Some req)) (\<lambda>wd.
     bindE (deref (works (mem s)) wd) (\<lambda>work_data.
     bindE (deref (endpoints s) (wd_endpoint work_data)) (\<lambda>ep.
     bindE (block_ptr (buf_base (wd_request work_data)) (mem s)) (\<lambda>base.
     bindE (process_cb gs base (to_int32 (uint (buf_len (wd_request work_data))))
              (Some (on_write_response returned)) (Some (the wd, mem s)) ep) (\<lambda>(nrc, ep).
     let m = (case nt_work_data ep of Some (_, m) \<Rightarrow> m | None \<Rightarrow> mem s)
     in Inr (s\<lparr>mem := m, endpoints := (endpoints s)(the (wd_endpoint work_data) \<mapsto> ep)\<rparr>))))))"

definition on_work_client_closed :: "addr option \<Rightarrow> server \<Rightarrow> fault + server" where
  "on_work_client_closed req s =
     (case req of
        None \<Rightarrow> Inr s
      | Some r \<Rightarrow>
          bindE (deref (work_reqs (mem s)) req) (\<lambda>wd.
          bindE (deref (works (mem s)) wd) (\<lambda>work_data.
          bindE (deref (clients (mem s)) (wd_uvclient work_data)) (\<lambda>ps.
          bindE (release (endpoints s) (wd_endpoint work_data)) (\<lambda>eps.
          bindE (release (peers (mem s)) ps) (\<lambda>pss.
          bindE (release (clients (mem s)) (wd_uvclient work_data)) (\<lambda>cls.
          let m = (mem s)\<lparr>peers := pss, clients := cls\<rparr> in
          bindE (free_block (buf_base (wd_request work_data)) m) (\<lambda>m.
          bindE (free_block (buf_base (wd_response work_data)) m) (\<lambda>m.
          bindE (release (works m) wd) (\<lambda>ws.
          bindE (release (work_reqs m) req) (\<lambda>rqs.
          Inr (s\<lparr>endpoints := eps, mem := m\<lparr>works := ws, work_reqs := rqs\<rparr>\<rparr>))))))))))))"

section \<open>Completion on the loop\<close>

text \<open>\<^verbatim>\<open>uv_write\<close> uses the stream it is given; \<open>rc\<close> is its result.\<close>

definition on_work_completed :: "int \<Rightarrow> int \<Rightarrow> addr \<Rightarrow> server \<Rightarrow> fault + (addr option \<times> server)" where
  "on_work_completed rc status req s =
     (if status \<noteq> 0 then fail
      else
        bindE (deref (work_reqs (mem s)) (Some req)) (\<lambda>wd.
        bindE (deref (works (mem s)) wd) (\<lambda>work_data.
        if buf_base (wd_response work_data) = None then
          let m = (mem s)\<lparr>works := (works (mem s))(the wd \<mapsto> work_data\<lparr>wd_endpoint := None, wd_uvclient := None\<rparr>)\<rparr> in
          bindE (free_work_data wd m) (\<lambda>m.
          bindE (release (work_reqs m) (Some req)) (\<lambda>rqs.
          Inr (None, s\<lparr>mem := m\<lparr>work_reqs := rqs\<rparr>\<rparr>)))
        else
          bindE (xmalloc sizeof_struct (mem s)) (\<lambda>(writereq, m).
          let m = m\<lparr>write_reqs := (write_reqs m)(writereq \<mapsto> wd),
                    work_reqs := (work_reqs m)(req \<mapsto> None)\<rparr> in
          bindE (deref (clients m) (wd_uvclient work_data)) (\<lambda>_.
          if rc < 0 then fail
          else
            bindE (release (work_reqs m) (Some req)) (\<lambda>rqs.
            Inr (Some writereq, s\<lparr>mem := m\<lparr>work_reqs := rqs\<rparr>\<rparr>)))))))"

definition on_sent_response :: "addr \<Rightarrow> int \<Rightarrow> server \<Rightarrow> fault + server" where
  "on_sent_response req status s =
     (if status \<noteq> 0 then fail
      else
        bindE (deref (write_reqs (mem s)) (Some req)) (\<lambda>work_data.
        bindE (free_work_data work_data (mem s)) (\<lambda>m.
        bindE (release (write_reqs m) (Some req)) (\<lambda>wrs.
        Inr (s\<lparr>mem := m\<lparr>write_reqs := wrs\<rparr>\<rparr>)))))"

section \<open>Connections\<close>

definition on_client_closed :: "addr \<Rightarrow> server \<Rightarrow> fault + server" where
  "on_client_closed handle s =
     bindE (deref (clients (mem s)) (Some handle)) (\<lambda>data.
     bindE (case data of
              None \<Rightarrow> Inr s
            | Some ps \<Rightarrow>
                bindE (deref (peers (mem s)) data) (\<lambda>peerstate.
                bindE (release (endpoints s) (ps_endpoint peerstate)) (\<lambda>eps.
                bindE (release (peers (mem s)) data) (\<lambda>pss.
                Inr (s\<lparr>endpoints := eps, mem := (mem s)\<lparr>peers := pss\<rparr>\<rparr>))))) (\<lambda>s.
     bindE (release (clients (mem s)) (Some handle)) (\<lambda>cls.
     Inr (s\<lparr>mem := (mem s)\<lparr>clients := cls\<rparr>\<rparr>))))"

text \<open>
  What a new connection comes to: nothing, a client from which libuv now reads, or one it is
  asked to close. \<open>rcs\<close> holds the results of \<^verbatim>\<open>uv_tcp_init\<close>, \<^verbatim>\<open>uv_accept\<close>,
  \<^verbatim>\<open>uv_tcp_getpeername\<close> and \<^verbatim>\<open>uv_read_start\<close>; \<open>junk\<close> is the work data pointer of the new
  endpoint, which its constructor does not set.
\<close>

datatype connection = Refused | Reading addr | Closing addr

record connect_results =
  rc_tcp_init :: int
  rc_accept :: int
  rc_getpeername :: int
  rc_read_start :: int

definition on_peer_connected ::
  "connect_results \<Rightarrow> (addr \<times> memory) option \<Rightarrow> int \<Rightarrow> server \<Rightarrow> fault + (connection \<times> server)" where
  "on_peer_connected rcs junk status s =
     (if status < 0 then Inr (Refused, s)
      else
        bindE (xmalloc sizeof_struct (mem s)) (\<lambda>(client, m).
        if rc_tcp_init rcs < 0 then fail
        else
          let m = m\<lparr>clients := (clients m)(client \<mapsto> None)\<rparr> in
          if rc_accept rcs = 0 then
            (if rc_getpeername rcs < 0 then fail
             else
               bindE (xmalloc sizeof_struct m) (\<lambda>(peerstate, m).
               bindE (xmalloc sizeof_struct m) (\<lambda>(ep, m).
               let m = m\<lparr>peers := (peers m)(peerstate \<mapsto> \<lparr>ps_uvclient = Some client, ps_endpoint = Some ep\<rparr>),
                         clients := (clients m)(client \<mapsto> Some peerstate)\<rparr> in
               if rc_read_start rcs < 0 then fail
               else Inr (Reading client,
                 s\<lparr>mem := m, endpoints := (endpoints s)(ep \<mapsto> WebSocketEndpoint_new junk)\<rparr>))))
          else Inr (Closing client, s\<lparr>mem := m\<rparr>)))"

text \<open>\<^verbatim>\<open>operator new\<close> of the endpoint takes an address like the other objects.\<close>

section \<open>The main program\<close>

text \<open>\<^verbatim>\<open>atoi\<close> of the C library, for texts whose value an \<^verbatim>\<open>int\<close> holds.\<close>

definition atoi :: "string \<Rightarrow> int" where
  "atoi s =
     (case dropWhile is_space s of
        CHR ''-'' # cs \<Rightarrow> - digits_value 0 cs
      | CHR ''+'' # cs \<Rightarrow> digits_value 0 cs
      | cs \<Rightarrow> digits_value 0 cs)"

type_synonym environ = "string \<rightharpoonup> string"

text \<open>The result is the environment and the size that is printed last.\<close>

definition set_thread_pool_size :: "environ \<Rightarrow> environ \<times> int" where
  "set_thread_pool_size env =
     (let nthread = (case env ''UV_THREADPOOL_SIZE'' of Some val \<Rightarrow> atoi val | None \<Rightarrow> 0);
          env = env(''UV_THREADPOOL_SIZE'' \<mapsto> ''1'');
          nthread = (case env ''UV_THREADPOOL_SIZE'' of Some val \<Rightarrow> atoi val | None \<Rightarrow> nthread)
      in (env, nthread))"

record main_results =
  rc_init :: int
  rc_ip4_addr :: int
  rc_bind :: int
  rc_listen :: int

text \<open>
  \<^verbatim>\<open>main\<close> up to the event loop: the port it serves on and the environment in which the loop
  starts. The call of \<^verbatim>\<open>uv_ip4_addr\<close> is given the port, so its result depends on it.
\<close>

definition main_setup :: "(int \<Rightarrow> main_results) \<Rightarrow> string list \<Rightarrow> environ \<Rightarrow> fault + (int \<times> environ)" where
  "main_setup rcs argv env =
     (let portnum = (if length argv \<ge> 2 then atoi (argv ! 1) else 9000) in
      if rc_init (rcs portnum) < 0 then fail
      else if rc_ip4_addr (rcs portnum) < 0 then fail
      else if rc_bind (rcs portnum) < 0 then fail
      else if rc_listen (rcs portnum) < 0 then fail
      else Inr (portnum, fst (set_thread_pool_size env)))"

section \<open>The event loop\<close>

text \<open>
  When the callbacks run, as the documentation of libuv has it. Work is taken from the queue in
  order, one at a time, as the pool has one thread; the callback \<^verbatim>\<open>after_work_cb\<close> of finished
  work, and the other callbacks, run on the loop, at any time. After an error or the end of the
  stream libuv reads no more from a client. A step leads to a state or to a fault.
\<close>

record uv_loop =
  srv :: server
  reading :: "addr set"
  pool :: "(addr \<times> work_kind) list"
  finished :: "addr list"
  writing :: "addr list"
  closing :: "addr set"

definition queued :: "(addr \<times> work_kind) option \<Rightarrow> (addr \<times> work_kind) list" where
  "queued w = (case w of None \<Rightarrow> [] | Some w \<Rightarrow> [w])"

definition with_mem :: "uv_loop \<Rightarrow> memory \<Rightarrow> uv_loop" where
  "with_mem l m = l\<lparr>srv := (srv l)\<lparr>mem := m\<rparr>\<rparr>"

text \<open>A read: libuv has the buffer allocated, puts the bytes there and calls \<^verbatim>\<open>on_peer_read\<close>.\<close>

definition read_event ::
  "int \<Rightarrow> peer_work_data_t \<Rightarrow> int \<Rightarrow> addr \<Rightarrow> int \<Rightarrow> bytes \<Rightarrow> uv_loop \<Rightarrow> fault + uv_loop" where
  "read_event returned junk rc client nread bs l =
     bindE (on_alloc_buffer bs (word_of_nat (length bs)) (mem (srv l))) (\<lambda>(buf, m).
     bindE (on_peer_read returned junk rc client nread buf m) (\<lambda>(w, m).
     Inr ((with_mem l m)\<lparr>pool := pool l @ queued w,
       reading := (if nread < 0 then reading l - {client} else reading l)\<rparr>)))"

definition connect_event ::
  "connect_results \<Rightarrow> (addr \<times> memory) option \<Rightarrow> int \<Rightarrow> uv_loop \<Rightarrow> fault + uv_loop" where
  "connect_event rcs junk status l =
     bindE (on_peer_connected rcs junk status (srv l)) (\<lambda>(c, s).
     Inr (l\<lparr>srv := s, reading := (case c of Reading a \<Rightarrow> insert a (reading l) | _ \<Rightarrow> reading l),
       closing := (case c of Closing a \<Rightarrow> insert a (closing l) | _ \<Rightarrow> closing l)\<rparr>))"

text \<open>The handle that \<^verbatim>\<open>uv_close\<close> was called for has been closed.\<close>

definition closed_event :: "addr \<Rightarrow> uv_loop \<Rightarrow> fault + uv_loop" where
  "closed_event handle l =
     bindE (on_client_closed handle (srv l)) (\<lambda>s. Inr (l\<lparr>srv := s, closing := closing l - {handle}\<rparr>))"

definition work_event :: "int \<Rightarrow> (nat \<Rightarrow> garbage \<times> garbage) \<Rightarrow> uv_loop \<Rightarrow> fault + uv_loop" where
  "work_event returned gs l =
     (case pool l of
        [] \<Rightarrow> Inr l
      | (req, Submitted_work) # rest \<Rightarrow>
          bindE (on_work_submitted returned gs req (srv l)) (\<lambda>s.
          Inr (l\<lparr>srv := s, pool := rest, finished := finished l @ [req]\<rparr>))
      | (req, Close_work) # rest \<Rightarrow>
          bindE (on_work_client_closed (Some req) (srv l)) (\<lambda>s. Inr (l\<lparr>srv := s, pool := rest\<rparr>)))"

definition completed_event :: "int \<Rightarrow> int \<Rightarrow> uv_loop \<Rightarrow> fault + uv_loop" where
  "completed_event rc status l =
     (case finished l of
        [] \<Rightarrow> Inr l
      | req # rest \<Rightarrow>
          bindE (on_work_completed rc status req (srv l)) (\<lambda>(w, s).
          Inr (l\<lparr>srv := s, finished := rest,
            writing := writing l @ (case w of None \<Rightarrow> [] | Some a \<Rightarrow> [a])\<rparr>)))"

definition sent_event :: "int \<Rightarrow> addr \<Rightarrow> uv_loop \<Rightarrow> fault + uv_loop" where
  "sent_event status w l =
     bindE (on_sent_response w status (srv l)) (\<lambda>s. Inr (l\<lparr>srv := s, writing := remove1 w (writing l)\<rparr>))"

text \<open>libuv reports at most the bytes of the buffer, and an error as a negative number.\<close>

definition wf_read :: "int \<Rightarrow> bytes \<Rightarrow> bool" where
  "wf_read nread bs \<longleftrightarrow> nread \<le> int (length bs) \<and> length bs < 2 ^ 31"

inductive loop_step :: "uv_loop \<Rightarrow> fault + uv_loop \<Rightarrow> bool" where
  ev_connect: "loop_step l (connect_event rcs junk status l)"
| ev_read: "client \<in> reading l \<Longrightarrow> wf_read nread bs \<Longrightarrow>
    loop_step l (read_event returned junk rc client nread bs l)"
| ev_work: "pool l \<noteq> [] \<Longrightarrow> (\<And>k. wf_garbage (fst (gs k))) \<Longrightarrow> loop_step l (work_event returned gs l)"
| ev_completed: "finished l \<noteq> [] \<Longrightarrow> loop_step l (completed_event rc status l)"
| ev_sent: "w \<in> set (writing l) \<Longrightarrow> loop_step l (sent_event status w l)"
| ev_closed: "handle \<in> closing l \<Longrightarrow> loop_step l (closed_event handle l)"

inductive loop_run :: "uv_loop \<Rightarrow> fault + uv_loop \<Rightarrow> bool" where
  run_start: "loop_run l (Inr l)"
| run_step: "loop_run l (Inr l1) \<Longrightarrow> loop_step l1 r \<Longrightarrow> loop_run l r"

inductive_cases loop_runE: "loop_run l r"

section \<open>The write callback provides the transport\<close>

definition response_free :: "addr \<times> memory \<Rightarrow> bool" where
  "response_free = (\<lambda>(wd, m). next_addr m < mem_limit m \<and>
     (case works m wd of Some w \<Rightarrow> buf_base (wd_response w) = None | None \<Rightarrow> False))"

definition response_bytes :: "addr \<times> memory \<Rightarrow> bytes option" where
  "response_bytes = (\<lambda>(wd, m).
     (case works m wd of
        None \<Rightarrow> None
      | Some w \<Rightarrow> (case buf_base (wd_response w) of None \<Rightarrow> None | Some a \<Rightarrow> blocks m a)))"

lemma deref_simps [simp]:
  "deref store None = Inl Null_deref"
  "store a = Some x \<Longrightarrow> deref store (Some a) = Inr x"
  "store a = None \<Longrightarrow> deref store (Some a) = Inl Use_after_free"
  by (simp_all add: deref_def)

lemma release_simps [simp]:
  "release store None = Inr store"
  "store a = Some x \<Longrightarrow> release store (Some a) = Inr (store(a := None))"
  "store a = None \<Longrightarrow> release store (Some a) = Inl Bad_free"
  by (simp_all add: release_def)

lemma xmalloc_ok: "next_addr m < mem_limit m \<Longrightarrow> unat sz < 2 ^ 63 \<Longrightarrow>
    xmalloc sz m = Inr (next_addr m, m\<lparr>next_addr := Suc (next_addr m)\<rparr>)"
  by (simp add: xmalloc_def)

lemma xmalloc_struct: "next_addr m < mem_limit m \<Longrightarrow>
    xmalloc sizeof_struct m = Inr (next_addr m, m\<lparr>next_addr := Suc (next_addr m)\<rparr>)"
  by (simp add: xmalloc_def sizeof_struct_def)

text \<open>Copying exactly the bytes a source has.\<close>

lemma uv_buf_alloc_cpy_prefix:
  assumes "next_addr m < mem_limit m" and "length bs \<le> n" and "n < 2 ^ 31"
  shows "uv_buf_alloc_cpy returned dst (Some (Some (bs @ more_bs), word_of_nat n)) (int (length bs)) m =
    Inr (returned, \<lparr>buf_base = Some (next_addr m), buf_len = word_of_nat (length bs)\<rparr>,
      m\<lparr>next_addr := Suc (next_addr m), blocks := (blocks m)(next_addr m \<mapsto> bs)\<rparr>)"
proof -
  have len: "unat (word_of_nat k :: u64) = k" if "k \<le> n" for k using assms(3) that by (simp add: unat_of_nat)
  have "unat (word_of_nat (length bs) :: u64) < 2 ^ 63" using assms(2,3) by (simp add: len)
  from xmalloc_ok [OF assms(1) this] show ?thesis
    using assms(2) by (simp add: uv_buf_alloc_cpy_def word_less_nat_alt len)
qed

lemma uv_buf_alloc_cpy_ok:
  assumes "next_addr m < mem_limit m" and "length bs < 2 ^ 31" and "n = length bs"
  shows "uv_buf_alloc_cpy returned dst (Some (Some (bs @ more_bs), word_of_nat n)) (int n) m =
    Inr (returned, \<lparr>buf_base = Some (next_addr m), buf_len = word_of_nat n\<rparr>,
      m\<lparr>next_addr := Suc (next_addr m), blocks := (blocks m)(next_addr m \<mapsto> bs)\<rparr>)"
  using uv_buf_alloc_cpy_prefix [OF assms(1), of bs n] assms(2,3) by simp

lemma response_len:
  assumes "n < 2 ^ 31"
  shows "(ucast (word_of_nat n :: u32) :: u64) = word_of_nat n"
    and "to_int32 (uint (word_of_nat n :: u64)) = int n"
proof -
  have "unat (ucast (word_of_nat n :: u32) :: u64) = unat (word_of_nat n :: u64)"
    using assms by (simp add: unsigned_ucast_eq unsigned_of_nat take_bit_nat_eq_self)
  then show "(ucast (word_of_nat n :: u32) :: u64) = word_of_nat n"
    by (simp only: word_unat_eq_iff)
  have "uint (word_of_nat n :: u64) = int n" using assms by (simp add: uint_nat unat_of_nat)
  then show "to_int32 (uint (word_of_nat n :: u64)) = int n" using assms by simp
qed

lemma on_write_response_stores:
  assumes m: "next_addr m < mem_limit m" and w: "works m wd = Some w" "buf_base (wd_response w) = None"
    and len: "length bs < 2 ^ 31"
  shows "on_write_response returned bs (int (length bs)) (wd, m) =
    Inr (wd, m\<lparr>next_addr := Suc (next_addr m), blocks := (blocks m)(next_addr m \<mapsto> bs),
      works := (works m)(wd \<mapsto> w\<lparr>wd_response :=
        \<lparr>buf_base = Some (next_addr m), buf_len = word_of_nat (length bs)\<rparr>\<rparr>)\<rparr>)"
proof -
  let ?m = "m\<lparr>works := (works m)(wd \<mapsto> w\<lparr>wd_response := uv_buf_init None 0\<rparr>)\<rparr>"
  have "next_addr ?m < mem_limit ?m" using m by simp
  from uv_buf_alloc_cpy_ok [OF this len refl, where more_bs = "[]"] show ?thesis
    using w by (simp add: on_write_response_def response_len [OF len] Let_def)
qed

definition put_response :: "addr \<times> memory \<Rightarrow> bytes \<Rightarrow> addr \<times> memory" where
  "put_response = (\<lambda>(wd, m) bs. (wd, m\<lparr>next_addr := Suc (next_addr m), blocks := (blocks m)(next_addr m \<mapsto> bs),
     works := (works m)(wd \<mapsto> (the (works m wd))\<lparr>wd_response :=
       \<lparr>buf_base = Some (next_addr m), buf_len = word_of_nat (length bs)\<rparr>\<rparr>)\<rparr>))"

interpretation on_write: one_slot_transport "on_write_response returned" response_free put_response response_bytes
  for returned :: int
proof
  fix w :: "addr \<times> memory" and bs :: bytes
  assume "response_free w" "length bs < 2 ^ 31"
  then show "on_write_response returned bs (int (length bs)) w = Inr (put_response w bs)"
    using on_write_response_stores
    by (auto simp: response_free_def put_response_def split: option.splits prod.splits)
next
  fix w :: "addr \<times> memory" and bs :: bytes
  assume "response_free w"
  then show "response_bytes (put_response w bs) = Some bs"
    by (auto simp: response_free_def put_response_def response_bytes_def split: option.splits)
next
  fix w :: "addr \<times> memory" and bs' bs :: bytes and n :: int
  assume "response_bytes w = Some bs'"
  then show "on_write_response returned bs n w = Inl Exit_failure"
    by (auto simp: response_bytes_def on_write_response_def fail_def split: option.splits prod.splits)
qed

section \<open>Work on one read\<close>

text \<open>A request that lies in the work data of an endpoint, with no response yet.\<close>

definition holds_request :: "server \<Rightarrow> addr \<Rightarrow> addr \<Rightarrow> bytes \<Rightarrow> addr \<Rightarrow> endpoint \<Rightarrow> bool" where
  "holds_request s req wd bs e ep \<longleftrightarrow>
     work_reqs (mem s) req = Some (Some wd) \<and>
     (\<exists>w a. works (mem s) wd = Some w \<and> wd_request w = \<lparr>buf_base = Some a, buf_len = word_of_nat (length bs)\<rparr> \<and>
        blocks (mem s) a = Some bs \<and> buf_base (wd_response w) = None \<and>
        wd_endpoint w = Some e \<and> endpoints s e = Some ep) \<and>
     next_addr (mem s) < mem_limit (mem s) \<and> bs \<noteq> [] \<and> length bs < 2 ^ 31"

lemma on_work_submitted_run:
  assumes "holds_request s req wd bs e ep"
  shows "on_work_submitted returned gs req s =
    bindE (from_wire gs (Some bs) (int (length bs))
        (ep\<lparr>nt_write_cb := Some (on_write_response returned), nt_work_data := Some (wd, mem s)\<rparr>)) (\<lambda>(nrc, ep).
      Inr (s\<lparr>mem := (case nt_work_data ep of Some (_, m) \<Rightarrow> m | None \<Rightarrow> mem s),
        endpoints := (endpoints s)(e \<mapsto> ep)\<rparr>)) \<and> response_free (wd, mem s)"
proof -
  obtain w a where h: "work_reqs (mem s) req = Some (Some wd)" "works (mem s) wd = Some w"
    "wd_request w = \<lparr>buf_base = Some a, buf_len = word_of_nat (length bs)\<rparr>" "blocks (mem s) a = Some bs"
    "buf_base (wd_response w) = None" "wd_endpoint w = Some e" "endpoints s e = Some ep"
    "next_addr (mem s) < mem_limit (mem s)" "length bs < 2 ^ 31"
    using assms unfolding holds_request_def by blast
  have "to_int32 (uint (word_of_nat (length bs) :: u64)) = int (length bs)"
    by (rule response_len(2) [OF h(9)])
  with h show ?thesis
    by (simp add: on_work_submitted_def block_ptr_def process_cb_def response_free_def Let_def)
qed

section \<open>One message from the read to the reply\<close>

text \<open>Addresses that have not been handed out yet hold nothing.\<close>

definition fresh_memory :: "memory \<Rightarrow> bool" where
  "fresh_memory m \<longleftrightarrow> (\<forall>a \<ge> next_addr m. blocks m a = None \<and> works m a = None \<and> work_reqs m a = None \<and>
     write_reqs m a = None \<and> clients m a = None \<and> peers m a = None)"

text \<open>The structure of a work request after \<^verbatim>\<open>alloc_work_req\<close>.\<close>

definition new_work :: "peer_work_data_t \<Rightarrow> addr \<Rightarrow> addr option \<Rightarrow> uv_buf_t \<Rightarrow> int \<Rightarrow> peer_work_data_t" where
  "new_work junk client ep request ty =
     junk\<lparr>wd_uvclient := Some client, wd_endpoint := ep, wd_request := request,
       wd_response := uv_buf_init None 0, wd_type := ty\<rparr>"

lemma new_work_simps [simp]:
  "wd_uvclient (new_work junk client ep request ty) = Some client"
  "wd_endpoint (new_work junk client ep request ty) = ep"
  "wd_request (new_work junk client ep request ty) = request"
  "wd_response (new_work junk client ep request ty) = uv_buf_init None 0"
  "wd_type (new_work junk client ep request ty) = ty"
  by (simp_all add: new_work_def)

lemma new_work_fold:
  "junk\<lparr>wd_uvclient := Some client, wd_endpoint := ep, wd_type := ty, wd_request := request,
     wd_response := uv_buf_init None 0\<rparr> = new_work junk client ep request ty"
  "junk\<lparr>wd_uvclient := Some client, wd_endpoint := ep, wd_request := request, wd_type := ty,
     wd_response := uv_buf_init None 0\<rparr> = new_work junk client ep request ty"
  by (cases junk; simp add: new_work_def)+

lemma buf_base_init [simp]: "buf_base (uv_buf_init b n) = b"
  by (simp add: uv_buf_init_def)

lemma alloc_work_req_data:
  assumes m: "next_addr m + 3 \<le> mem_limit m" and ret: "0 \<le> returned"
    and buf: "buf = \<lparr>buf_base = Some b, buf_len = word_of_nat (length (bs @ slack))\<rparr>" and b: "blocks m b = Some (bs @ slack)"
    and len: "length (bs @ slack) < 2 ^ 31" and ps: "ps_uvclient ps = Some c" and a: "a = next_addr m"
  shows "alloc_work_req returned junk ps (int (length bs)) buf 1 m =
    Inr (Some a, m\<lparr>next_addr := a + 3, blocks := (blocks m)(a + 2 \<mapsto> bs),
      works := (works m)(a + 1 \<mapsto> new_work junk c (ps_endpoint ps)
        \<lparr>buf_base = Some (a + 2), buf_len = word_of_nat (length bs)\<rparr> 1),
      work_reqs := (work_reqs m)(a \<mapsto> Some (a + 1))\<rparr>)"
proof -
  let ?m = "m\<lparr>next_addr := Suc (Suc a)\<rparr>"
  have room: "next_addr ?m < mem_limit ?m" using m a by simp
  have small: "length bs < 2 ^ 31" using len by simp
  note copy = uv_buf_alloc_cpy_prefix [OF room _ len, of bs, where more_bs = slack]
  have x1: "xmalloc sizeof_struct m = Inr (a, m\<lparr>next_addr := Suc a\<rparr>)"
    using m unfolding a by (intro xmalloc_struct) linarith
  have x2: "xmalloc sizeof_struct (m\<lparr>next_addr := Suc a\<rparr>) = Inr (Suc a, ?m)"
    using m unfolding a by (subst xmalloc_struct) auto
  show ?thesis
    using copy ret b ps
    by (simp add: alloc_work_req_def x1 x2 Let_def block_ptr_def buf new_work_fold to_int32_of_nat [OF small])
qed

lemma alloc_work_req_close:
  assumes m: "next_addr m + 2 \<le> mem_limit m" and ps: "ps_uvclient ps = Some c" and a: "a = next_addr m"
  shows "alloc_work_req returned junk ps nread buf 0 m =
    Inr (Some a, m\<lparr>next_addr := a + 2,
      works := (works m)(a + 1 \<mapsto> new_work junk c (ps_endpoint ps) (uv_buf_init None 0) 0),
      work_reqs := (work_reqs m)(a \<mapsto> Some (a + 1))\<rparr>)"
proof -
  have x1: "xmalloc sizeof_struct m = Inr (a, m\<lparr>next_addr := Suc a\<rparr>)"
    using m unfolding a by (intro xmalloc_struct) linarith
  have x2: "xmalloc sizeof_struct (m\<lparr>next_addr := Suc a\<rparr>) = Inr (Suc a, m\<lparr>next_addr := Suc (Suc a)\<rparr>)"
    using m unfolding a by (subst xmalloc_struct) auto
  show ?thesis
    using ps by (simp add: alloc_work_req_def x1 x2 Let_def new_work_fold)
qed

text \<open>A client that has been accepted, with its endpoint.\<close>

definition connected :: "server \<Rightarrow> addr \<Rightarrow> addr \<Rightarrow> addr \<Rightarrow> endpoint \<Rightarrow> bool" where
  "connected s c p e ep \<longleftrightarrow> clients (mem s) c = Some (Some p) \<and>
     peers (mem s) p = Some \<lparr>ps_uvclient = Some c, ps_endpoint = Some e\<rparr> \<and> endpoints s e = Some ep"

lemma read_event_data:
  assumes c: "connected (srv l) c p e ep" and m: "m = mem (srv l)" "fresh_memory m"
    and room: "next_addr m + 4 \<le> mem_limit m" and ret: "0 \<le> returned" and rc: "0 \<le> rc"
    and bs: "bs \<noteq> []" "length (bs @ slack) < 2 ^ 31" and a: "a = next_addr m"
  shows "read_event returned junk rc c (int (length bs)) (bs @ slack) l =
    Inr ((with_mem l (m\<lparr>next_addr := a + 4, blocks := (blocks m)(a + 3 \<mapsto> bs),
        works := (works m)(a + 2 \<mapsto> new_work junk c (Some e)
          \<lparr>buf_base = Some (a + 3), buf_len = word_of_nat (length bs)\<rparr> 1),
        work_reqs := (work_reqs m)(a + 1 \<mapsto> Some (a + 2))\<rparr>))
      \<lparr>pool := pool l @ [(a + 1, Submitted_work)]\<rparr>)"
proof -
  let ?buf = "\<lparr>buf_base = Some a, buf_len = word_of_nat (length (bs @ slack))\<rparr> :: uv_buf_t"
  let ?m1 = "m\<lparr>next_addr := Suc a, blocks := (blocks m)(a \<mapsto> bs @ slack)\<rparr>"
  have len: "unat (word_of_nat k :: u64) = k" if "k \<le> length (bs @ slack)" for k using bs that by (simp add: unat_of_nat)
  then have alloc: "on_alloc_buffer (bs @ slack) (word_of_nat (length (bs @ slack))) m = Inr (?buf, ?m1)"
    using room bs(2) a len [of "length (bs @ slack)"] xmalloc_ok [of m "word_of_nat (length (bs @ slack))"]
    by (simp add: on_alloc_buffer_def del: length_append of_nat_add)
  have c': "clients m c = Some (Some p)" "peers m p = Some \<lparr>ps_uvclient = Some c, ps_endpoint = Some e\<rparr>"
    using c m by (simp_all add: connected_def)
  have peers: "?m1\<lparr>peers := (peers m)(p \<mapsto> \<lparr>ps_uvclient = Some c, ps_endpoint = Some e\<rparr>)\<rparr> = ?m1"
    using c'(2) by (simp add: map_upd_triv)
  have work: "alloc_work_req returned junk \<lparr>ps_uvclient = Some c, ps_endpoint = Some e\<rparr> (int (length bs)) ?buf 1 ?m1 =
      Inr (Some (Suc a), ?m1\<lparr>next_addr := Suc a + 3, blocks := (blocks ?m1)(Suc a + 2 \<mapsto> bs),
        works := (works m)(Suc a + 1 \<mapsto> new_work junk c (Some e)
          \<lparr>buf_base = Some (Suc a + 2), buf_len = word_of_nat (length bs)\<rparr> 1),
        work_reqs := (work_reqs m)(Suc a \<mapsto> Some (Suc a + 1))\<rparr>)"
    using room ret bs a by (subst alloc_work_req_data [where a = "Suc a" and b = a and c = c]) simp_all
  have gone: "((blocks m)(a \<mapsto> bs @ slack, a + 3 \<mapsto> bs))(a := None) = (blocks m)(a + 3 \<mapsto> bs)"
    using m(2) a by (auto simp: fresh_memory_def fun_eq_iff)
  have "\<not> (word_of_nat (length (bs @ slack)) :: u64) < word_of_nat (length bs)"
    using len [of "length bs"] len [of "length (bs @ slack)"] by (simp add: word_less_nat_alt)
  moreover have "\<not> int (length bs) < 0" "int (length bs) \<noteq> 0" using bs by simp_all
  ultimately show ?thesis
    using alloc c' work rc gone peers m(1)
    by (simp add: read_event_def on_peer_read_def Let_def uv_queue_work_def free_block_def queued_def
        with_mem_def eval_nat_numeral)
qed

text \<open>
  A client between two messages, on a loop that has nothing else to do: its endpoint has been
  opened and holds the parts \<open>acc\<close> of an unfinished message.
\<close>

definition open_peer :: "endpoint \<Rightarrow> bytes \<Rightarrow> bool" where
  "open_peer ep acc \<longleftrightarrow> ws_handshake_completed ep \<and> fromwire_buf ep = buf_of [] \<and> message_data ep = buf_of acc"

definition idle :: "uv_loop \<Rightarrow> bool" where
  "idle l \<longleftrightarrow> pool l = [] \<and> finished l = [] \<and> writing l = [] \<and> fresh_memory (mem (srv l))"

text \<open>The memory and the loop after a read of \<open>bs\<close> bytes.\<close>

definition after_read :: "peer_work_data_t \<Rightarrow> addr \<Rightarrow> addr \<Rightarrow> bytes \<Rightarrow> memory \<Rightarrow> memory" where
  "after_read junk c e bs m =
     (let a = next_addr m in
      m\<lparr>next_addr := a + 4, blocks := (blocks m)(a + 3 \<mapsto> bs),
        works := (works m)(a + 2 \<mapsto> new_work junk c (Some e)
          \<lparr>buf_base = Some (a + 3), buf_len = word_of_nat (length bs)\<rparr> 1),
        work_reqs := (work_reqs m)(a + 1 \<mapsto> Some (a + 2))\<rparr>)"

lemma read_event_idle:
  assumes "connected (srv l) c p e ep" and "idle l" and "next_addr (mem (srv l)) + 4 \<le> mem_limit (mem (srv l))"
    and "0 \<le> returned" and "0 \<le> rc" and "bs \<noteq> []" and "length bs < 2 ^ 31"
  shows "read_event returned junk rc c (int (length bs)) bs l =
    Inr ((with_mem l (after_read junk c e bs (mem (srv l))))\<lparr>pool := [(next_addr (mem (srv l)) + 1, Submitted_work)]\<rparr>)"
  using read_event_data [OF assms(1) refl _ assms(3-6) _ refl, where slack = "[]" and junk = junk] assms(2,7)
  by (simp add: idle_def after_read_def Let_def)

lemma after_read_holds:
  assumes "connected s c p e ep" and "fresh_memory (mem s)" and "next_addr (mem s) + 4 < mem_limit (mem s)"
    and "bs \<noteq> []" and "length bs < 2 ^ 31" and s': "mem s' = after_read junk c e bs (mem s)" "endpoints s' = endpoints s"
  shows "holds_request s' (next_addr (mem s) + 1) (next_addr (mem s) + 2) bs e ep"
  using assms by (auto simp: holds_request_def connected_def after_read_def Let_def uv_buf_init_def)

text \<open>The end of a stream: the work that frees the client is queued, and libuv stops reading.\<close>

definition after_close :: "peer_work_data_t \<Rightarrow> addr \<Rightarrow> addr \<Rightarrow> memory \<Rightarrow> memory" where
  "after_close junk c e m =
     (let a = next_addr m in
      m\<lparr>next_addr := a + 3,
        works := (works m)(a + 2 \<mapsto> new_work junk c (Some e) (uv_buf_init None 0) 0),
        work_reqs := (work_reqs m)(a + 1 \<mapsto> Some (a + 2))\<rparr>)"

lemma read_event_close:
  assumes c: "connected (srv l) c p e ep" and m: "m = mem (srv l)" "blocks m (next_addr m) = None"
    and room: "next_addr m + 3 \<le> mem_limit m" and rc: "0 \<le> rc"
    and n: "n < 0" and bs: "length bs < 2 ^ 31" and a: "a = next_addr m"
  shows "read_event returned junk rc c n bs l =
    Inr ((with_mem l (after_close junk c e m))\<lparr>pool := pool l @ [(a + 1, Close_work)], reading := reading l - {c}\<rparr>)"
proof -
  let ?buf = "\<lparr>buf_base = Some a, buf_len = word_of_nat (length bs)\<rparr> :: uv_buf_t"
  let ?m1 = "m\<lparr>next_addr := Suc a, blocks := (blocks m)(a \<mapsto> bs)\<rparr>"
  have "unat (word_of_nat (length bs) :: u64) = length bs" using bs by (simp add: unat_of_nat)
  then have alloc: "on_alloc_buffer bs (word_of_nat (length bs)) m = Inr (?buf, ?m1)"
    using room bs a by (simp add: on_alloc_buffer_def xmalloc_ok)
  have c': "clients m c = Some (Some p)" "peers m p = Some \<lparr>ps_uvclient = Some c, ps_endpoint = Some e\<rparr>"
    using c m by (simp_all add: connected_def)
  have peers: "?m1\<lparr>peers := (peers m)(p \<mapsto> \<lparr>ps_uvclient = Some c, ps_endpoint = Some e\<rparr>)\<rparr> = ?m1"
    using c'(2) by (simp add: map_upd_triv)
  have work: "alloc_work_req returned junk \<lparr>ps_uvclient = Some c, ps_endpoint = Some e\<rparr> n ?buf 0 ?m1 =
      Inr (Some (Suc a), ?m1\<lparr>next_addr := Suc a + 2,
        works := (works m)(Suc a + 1 \<mapsto> new_work junk c (Some e) (uv_buf_init None 0) 0),
        work_reqs := (work_reqs m)(Suc a \<mapsto> Some (Suc a + 1))\<rparr>)"
    using room a by (subst alloc_work_req_close [where a = "Suc a" and c = c]) simp_all
  have gone: "((blocks m)(a \<mapsto> bs))(a := None) = blocks m"
    using m(2) a by (auto simp: fun_eq_iff)
  show ?thesis
    using alloc c' work rc gone peers m(1) n a
    by (simp add: read_event_def on_peer_read_def Let_def uv_queue_work_def free_block_def queued_def
        with_mem_def after_close_def eval_nat_numeral)
qed

text \<open>What a write request sends.\<close>

definition written :: "server \<Rightarrow> addr \<Rightarrow> bytes option" where
  "written s w = (case write_reqs (mem s) w of Some (Some wd) \<Rightarrow> response_bytes (wd, mem s) | _ \<Rightarrow> None)"

text \<open>The memory after the work, and after its completion.\<close>

definition after_work :: "peer_work_data_t \<Rightarrow> addr \<Rightarrow> addr \<Rightarrow> bytes \<Rightarrow> bytes \<Rightarrow> memory \<Rightarrow> memory" where
  "after_work junk c e bs reply m = snd (put_response (next_addr m + 2, after_read junk c e bs m) reply)"

definition after_completion :: "peer_work_data_t \<Rightarrow> addr \<Rightarrow> addr \<Rightarrow> bytes \<Rightarrow> bytes \<Rightarrow> memory \<Rightarrow> memory" where
  "after_completion junk c e bs reply m =
     (after_work junk c e bs reply m)\<lparr>next_addr := next_addr m + 6,
       write_reqs := (write_reqs m)(next_addr m + 5 \<mapsto> Some (next_addr m + 2)), work_reqs := work_reqs m\<rparr>"

lemma fresh_memory_at: "fresh_memory m \<Longrightarrow> next_addr m \<le> a \<Longrightarrow>
    blocks m a = None \<and> works m a = None \<and> work_reqs m a = None \<and> write_reqs m a = None \<and> clients m a = None"
  by (simp add: fresh_memory_def)

lemma fun_upd_fresh: "m a = None \<Longrightarrow> m(a := None) = m" "m a = None \<Longrightarrow> (m(a := x))(a := None) = m"
  by auto

lemma on_work_completed_reply:
  assumes c: "clients m c = Some x" and m: "fresh_memory m" "next_addr m + 6 \<le> mem_limit m" and rc: "0 \<le> rc"
    and s: "mem s = after_work junk c e bs reply m"
  shows "on_work_completed rc 0 (next_addr m + 1) s =
    Inr (Some (next_addr m + 5), s\<lparr>mem := after_completion junk c e bs reply m\<rparr>)"
proof -
  let ?a = "next_addr m"
  note w = after_work_def put_response_def after_read_def Let_def
  have "next_addr (mem s) < mem_limit (mem s)" using m by (simp add: s w)
  then have x: "xmalloc sizeof_struct (mem s) = Inr (?a + 5, (mem s)\<lparr>next_addr := ?a + 6\<rparr>)"
    by (simp add: xmalloc_struct) (simp add: s w)
  have "clients (mem s) c = Some x" "(work_reqs m)(?a + 1 := None) = work_reqs m"
    using c fresh_memory_at [OF m(1), of "?a + 1"] by (simp_all add: s w fun_upd_fresh)
  with x rc show ?thesis
    by (simp add: on_work_completed_def after_completion_def) (simp add: s w fun_upd_fresh)
qed

lemma on_sent_response_frees:
  assumes m: "fresh_memory m" and s: "mem s = after_completion junk c e bs reply m"
  shows "on_sent_response (next_addr m + 5) 0 s = Inr (s\<lparr>mem := m\<lparr>next_addr := next_addr m + 6\<rparr>\<rparr>)"
proof -
  let ?a = "next_addr m"
  note w = after_completion_def after_work_def put_response_def after_read_def Let_def
  have old: "blocks m (?a + 3) = None" "blocks m (?a + 4) = None" "works m (?a + 2) = None" "write_reqs m (?a + 5) = None"
    using fresh_memory_at [OF m] by simp_all
  have "((blocks m)(?a + 3 \<mapsto> bs, ?a + 4 \<mapsto> reply))(?a + 3 := None, ?a + 4 := None) = blocks m"
    using old by (auto simp: fun_eq_iff)
  with old show ?thesis
    by (simp add: on_sent_response_def free_work_data_def free_block_def s w fun_upd_fresh)
qed

text \<open>
  One message from its arrival to the end of the write: the three callbacks up to the call of
  \<^verbatim>\<open>uv_write\<close>, and the callback of the write.
\<close>

definition serve_read ::
  "int \<Rightarrow> (nat \<Rightarrow> garbage \<times> garbage) \<Rightarrow> peer_work_data_t \<Rightarrow> int \<Rightarrow> addr \<Rightarrow> bytes \<Rightarrow> uv_loop \<Rightarrow> fault + uv_loop" where
  "serve_read returned gs junk rc client bs l =
     bindE (read_event returned junk rc client (int (length bs)) bs l) (\<lambda>l.
     bindE (work_event returned gs l) (completed_event rc 0))"

text \<open>The endpoint as \<^verbatim>\<open>process\<close> finds it, after the read of \<open>bs\<close>.\<close>

definition with_work :: "int \<Rightarrow> peer_work_data_t \<Rightarrow> addr \<Rightarrow> addr \<Rightarrow> bytes \<Rightarrow> memory \<Rightarrow> endpoint \<Rightarrow> endpoint" where
  "with_work returned junk c e bs m ep = ep\<lparr>nt_write_cb := Some (on_write_response returned),
     nt_work_data := Some (next_addr m + 2, after_read junk c e bs m)\<rparr>"

lemma after_read_free:
  "next_addr m + 6 \<le> mem_limit m \<Longrightarrow> response_free (next_addr m + 2, after_read junk c e bs m)"
  by (simp add: response_free_def after_read_def Let_def)

lemma serve_read_submitted:
  assumes c: "connected (srv l) c p e ep" and l: "idle l"
    and room: "next_addr (mem (srv l)) + 6 \<le> mem_limit (mem (srv l))"
    and rc: "0 \<le> returned" "0 \<le> rc" and bs: "bs \<noteq> []" "length bs < 2 ^ 31" and m: "m = mem (srv l)"
  shows "serve_read returned gs junk rc c bs l =
    bindE (from_wire gs (Some bs) (int (length bs)) (with_work returned junk c e bs m ep)) (\<lambda>(nrc, ep).
    completed_event rc 0 (l\<lparr>srv := \<lparr>mem = (case nt_work_data ep of Some (_, m') \<Rightarrow> m' | None \<Rightarrow> after_read junk c e bs m),
        endpoints = (endpoints (srv l))(e \<mapsto> ep)\<rparr>, finished := [next_addr m + 1]\<rparr>))"
proof -
  let ?a = "next_addr m"
  let ?s1 = "(srv l)\<lparr>mem := after_read junk c e bs m\<rparr>"
  have r: "read_event returned junk rc c (int (length bs)) bs l =
      Inr (l\<lparr>srv := ?s1, pool := [(?a + 1, Submitted_work)]\<rparr>)"
    using room by (subst read_event_idle [OF c l _ rc bs]) (simp_all add: m with_mem_def)
  have h: "holds_request ?s1 (?a + 1) (?a + 2) bs e ep"
    using after_read_holds [OF c _ _ bs, of ?s1 junk] l room by (simp add: m idle_def)
  have none: "finished l = []" "pool l = []" using l by (simp_all add: idle_def)
  have state: "l\<lparr>srv := (srv l)\<lparr>mem := x, endpoints := y\<rparr>, pool := [], finished := z\<rparr> =
      l\<lparr>srv := \<lparr>mem = x, endpoints = y\<rparr>, finished := z\<rparr>" for x y z
    using none by (cases l; cases "srv l") simp
  note w = on_work_submitted_run [OF h, of returned gs, THEN conjunct1]
  show ?thesis
    using w none
    by (simp add: serve_read_def r work_event_def bindE_assoc with_work_def state case_prod_unfold
        cong: option.case_cong)
qed

text \<open>A read whose bytes are answered with one response, and a read that ends in a fault.\<close>

lemma serve_read_reply:
  assumes c: "connected (srv l) c p e ep" and l: "idle l"
    and room: "next_addr (mem (srv l)) + 6 \<le> mem_limit (mem (srv l))"
    and rc: "0 \<le> returned" "0 \<le> rc" and bs: "bs \<noteq> []" "length bs < 2 ^ 31" and m: "m = mem (srv l)"
    and run: "from_wire gs (Some bs) (int (length bs)) (with_work returned junk c e bs m ep) = Inr (n, ep')"
      "nt_work_data ep' = Some (put_response (next_addr m + 2, after_read junk c e bs m) reply)"
  shows "serve_read returned gs junk rc c bs l =
    Inr (l\<lparr>srv := \<lparr>mem = after_completion junk c e bs reply m, endpoints = (endpoints (srv l))(e \<mapsto> ep')\<rparr>,
      writing := [next_addr m + 5]\<rparr>)"
proof -
  let ?s2 = "\<lparr>mem = after_work junk c e bs reply m, endpoints = (endpoints (srv l))(e \<mapsto> ep')\<rparr> :: server"
  have "clients m c = Some (Some p)" "fresh_memory m" using c l by (simp_all add: connected_def idle_def m)
  from on_work_completed_reply [OF this _ rc(2), of ?s2 junk e bs reply] room
  have d: "on_work_completed rc 0 (next_addr m + 1) ?s2 =
      Inr (Some (next_addr m + 5), ?s2\<lparr>mem := after_completion junk c e bs reply m\<rparr>)"
    by (simp add: m)
  have none: "writing l = []" "finished l = []" using l by (simp_all add: idle_def)
  have "(case nt_work_data ep' of Some (_, m') \<Rightarrow> m' | None \<Rightarrow> after_read junk c e bs m) = after_work junk c e bs reply m"
    by (simp add: run(2) after_work_def split: prod.splits)
  with d none show ?thesis
    by (simp add: serve_read_submitted [OF c l room rc bs m] run(1) completed_event_def)
qed

text \<open>The read of such bytes is handled; it is the work on them that does not return.\<close>

lemma read_then_work_fault:
  assumes c: "connected (srv l) c p e ep" and l: "idle l"
    and room: "next_addr (mem (srv l)) + 6 \<le> mem_limit (mem (srv l))"
    and rc: "0 \<le> returned" "0 \<le> rc" and bs: "bs \<noteq> []" "length bs < 2 ^ 31" and m: "m = mem (srv l)"
    and run: "from_wire gs (Some bs) (int (length bs)) (with_work returned junk c e bs m ep) = Inl x"
  shows "\<exists>l1 req. read_event returned junk rc c (int (length bs)) bs l = Inr l1 \<and> pool l1 = [(req, Submitted_work)] \<and>
    on_work_submitted returned gs req (srv l1) = Inl x"
proof -
  let ?s1 = "(srv l)\<lparr>mem := after_read junk c e bs m\<rparr>"
  have r: "read_event returned junk rc c (int (length bs)) bs l =
      Inr (l\<lparr>srv := ?s1, pool := [(next_addr m + 1, Submitted_work)]\<rparr>)"
    using room by (subst read_event_idle [OF c l _ rc bs]) (simp_all add: m with_mem_def)
  have h: "holds_request ?s1 (next_addr m + 1) (next_addr m + 2) bs e ep"
    using after_read_holds [OF c _ _ bs, of ?s1 junk] l room by (simp add: m idle_def)
  from on_work_submitted_run [OF h, of returned gs] run
  have "on_work_submitted returned gs (next_addr m + 1) ?s1 = Inl x" by (simp add: with_work_def)
  with r show ?thesis by simp
qed

lemma linked_with_work:
  "open_peer ep acc \<Longrightarrow> linked (on_write_response returned) (next_addr m + 2, after_read junk c e bs m) [] acc
     (with_work returned junk c e bs m ep)"
  by (simp add: linked_def open_peer_def with_work_def)

lemma encode_frame_nonempty: "client_frame f \<Longrightarrow> encode_frame f \<noteq> []"
  using encode_frame_size [of f] by (auto simp: client_frame_def)

text \<open>When the write is over, the memory is as before the read, but for the addresses used.\<close>

lemma sent_event_restores:
  assumes c: "connected (srv l) c p e ep" and l: "idle l" and m: "m = mem (srv l)"
    and l1: "l1 = l\<lparr>srv := \<lparr>mem = after_completion junk c e bs reply m, endpoints = (endpoints (srv l))(e \<mapsto> ep')\<rparr>,
      writing := [next_addr m + 5]\<rparr>"
  shows "written (srv l1) (next_addr m + 5) = Some reply \<and>
    sent_event 0 (next_addr m + 5) l1 =
      Inr (l\<lparr>srv := \<lparr>mem = m\<lparr>next_addr := next_addr m + 6\<rparr>, endpoints = (endpoints (srv l))(e \<mapsto> ep')\<rparr>\<rparr>)"
proof -
  let ?s = "\<lparr>mem = after_completion junk c e bs reply m, endpoints = (endpoints (srv l))(e \<mapsto> ep')\<rparr> :: server"
  have fresh: "fresh_memory m" and w: "writing l = []" using l by (simp_all add: idle_def m)
  have "on_sent_response (next_addr m + 5) 0 ?s = Inr (?s\<lparr>mem := m\<lparr>next_addr := next_addr m + 6\<rparr>\<rparr>)"
    by (rule on_sent_response_frees [OF fresh]) simp
  then show ?thesis
    using w by (simp add: l1 sent_event_def written_def response_bytes_def after_completion_def after_work_def
        put_response_def after_read_def Let_def)
qed

lemma serve_and_send:
  assumes c: "connected (srv l) c p e ep" and l: "idle l"
    and room: "next_addr (mem (srv l)) + 6 \<le> mem_limit (mem (srv l))"
    and rc: "0 \<le> returned" "0 \<le> rc" and bs: "bs \<noteq> []" "length bs < 2 ^ 31" and m: "m = mem (srv l)"
    and run: "from_wire gs (Some bs) (int (length bs)) (with_work returned junk c e bs m ep) = Inr (n, ep')"
      "nt_work_data ep' = Some (put_response (next_addr m + 2, after_read junk c e bs m) reply)"
  shows "\<exists>l1 w l2. serve_read returned gs junk rc c bs l = Inr l1 \<and> writing l1 = [w] \<and>
    written (srv l1) w = Some reply \<and> sent_event 0 w l1 = Inr l2 \<and>
    mem (srv l2) = m\<lparr>next_addr := next_addr m + 6\<rparr> \<and> idle l2 \<and> connected (srv l2) c p e ep'"
proof -
  let ?l1 = "l\<lparr>srv := \<lparr>mem = after_completion junk c e bs reply m, endpoints = (endpoints (srv l))(e \<mapsto> ep')\<rparr>,
    writing := [next_addr m + 5]\<rparr>"
  let ?l2 = "l\<lparr>srv := \<lparr>mem = m\<lparr>next_addr := next_addr m + 6\<rparr>, endpoints = (endpoints (srv l))(e \<mapsto> ep')\<rparr>\<rparr>"
  note sent = sent_event_restores [where junk = junk and bs = bs and reply = reply and ep' = ep', OF c l m refl]
  have "idle ?l2" "connected (srv ?l2) c p e ep'"
    using c l m by (simp_all add: idle_def fresh_memory_def connected_def)
  with sent serve_read_reply [OF c l room rc bs m run] show ?thesis
    by (intro exI [of _ ?l1] exI [of _ "next_addr m + 5"] exI [of _ ?l2]) simp
qed

text \<open>The callbacks of one message are a run of the loop.\<close>

lemma uv_queue_work_kind: "uv_queue_work rc r kind = Inr w \<Longrightarrow> \<exists>req. w = (req, kind)"
  by (auto simp: uv_queue_work_def fail_def split: option.splits if_splits)

lemma on_peer_read_queues:
  assumes "on_peer_read returned junk rc c n buf m = Inr (w, m')" and "0 < n"
  shows "\<exists>req. w = Some (req, Submitted_work)"
proof -
  have "\<not> n < 0" "n \<noteq> 0" using assms(2) by simp_all
  then show ?thesis
    using assms(1) unfolding on_peer_read_def Let_def
    by (auto simp: fault_simps split: if_splits dest!: uv_queue_work_kind)
qed

lemma read_event_queues:
  assumes "read_event returned junk rc c n bs l = Inr l'" and "pool l = []" and "0 < n"
  shows "\<exists>req. pool l' = [(req, Submitted_work)]"
  using assms
  by (auto simp: read_event_def fault_simps with_mem_def queued_def dest!: on_peer_read_queues)

lemma serve_read_run:
  assumes "c \<in> reading l" and l: "pool l = []" and bs: "bs \<noteq> []" "length bs < 2 ^ 31"
    and gs: "\<And>k. wf_garbage (fst (gs k))"
  shows "loop_run l (serve_read returned gs junk rc c bs l)"
proof -
  have "loop_step l (read_event returned junk rc c (int (length bs)) bs l)"
    using assms by (intro ev_read) (simp_all add: wf_read_def)
  then have run1: "loop_run l (read_event returned junk rc c (int (length bs)) bs l)"
    by (rule run_step [OF run_start])
  show ?thesis
  proof (cases "read_event returned junk rc c (int (length bs)) bs l")
    case (Inl x)
    with run1 show ?thesis by (simp add: serve_read_def)
  next
    case (Inr l1)
    with read_event_queues [OF Inr l] bs obtain req where l1: "pool l1 = [(req, Submitted_work)]" by auto
    have "loop_step l1 (work_event returned gs l1)" by (rule ev_work) (simp_all add: l1 gs)
    with run1 Inr have run2: "loop_run l (work_event returned gs l1)" by (auto intro: run_step)
    show ?thesis
    proof (cases "work_event returned gs l1")
      case (Inl x)
      with Inr run2 show ?thesis by (simp add: serve_read_def)
    next
      case (Inr l2)
      then have "finished l2 \<noteq> []" by (auto simp: work_event_def l1 fault_simps)
      then have "loop_step l2 (completed_event rc 0 l2)" by (rule ev_completed)
      with run2 Inr have "loop_run l (completed_event rc 0 l2)" by (auto intro: run_step)
      with Inr \<open>read_event _ _ _ _ _ _ _ = Inr l1\<close> show ?thesis by (simp add: serve_read_def)
    qed
  qed
qed

section \<open>A sample\<close>

text \<open>One client that has been connected, before and after its handshake.\<close>

definition sample_memory :: memory where
  "sample_memory = \<lparr>next_addr = 3, mem_limit = 1000, blocks = Map.empty, works = Map.empty, work_reqs = Map.empty,
     write_reqs = Map.empty, clients = [0 \<mapsto> Some 1], peers = [1 \<mapsto> \<lparr>ps_uvclient = Some 0, ps_endpoint = Some 2\<rparr>]\<rparr>"

definition sample_loop :: "bool \<Rightarrow> uv_loop" where
  "sample_loop op = \<lparr>srv = \<lparr>mem = sample_memory,
       endpoints = [2 \<mapsto> (WebSocketEndpoint_new None)\<lparr>ws_handshake_completed := op\<rparr>]\<rparr>,
     reading = {0}, pool = [], finished = [], writing = [], closing = {}\<rparr>"

definition sample_work :: peer_work_data_t where
  "sample_work = \<lparr>wd_uvclient = None, wd_endpoint = None, wd_request = uv_buf_init None 0,
     wd_response = uv_buf_init None 0, wd_type = 0\<rparr>"

lemma sample_loop_facts:
  "connected (srv (sample_loop op)) 0 1 2 ((WebSocketEndpoint_new None)\<lparr>ws_handshake_completed := op\<rparr>)"
  "idle (sample_loop op)" "next_addr (mem (srv (sample_loop op))) + 6 \<le> mem_limit (mem (srv (sample_loop op)))"
  "open_peer ((WebSocketEndpoint_new None)\<lparr>ws_handshake_completed := True\<rparr>) []"
  by (simp_all add: connected_def idle_def fresh_memory_def sample_loop_def sample_memory_def open_peer_def
      WebSocketEndpoint_new_def ByteBuffer_new_buf_of)

lemma hello_final [simp]: "fr_fin hello_frame" "known_opcode (fr_opcode hello_frame)"
  by (simp_all add: hello_frame_def known_opcode_def opcode_val.simps)

section \<open>A client that leaves while its reply is under way\<close>

lemma on_work_client_closed_frees:
  assumes w: "work_reqs (mem s) req = Some (Some wd)" "works (mem s) wd = Some x"
    and x: "wd_uvclient x = Some c" "wd_endpoint x = Some e" "buf_base (wd_request x) = None" "buf_base (wd_response x) = None"
    and c: "connected s c p e ep"
  shows "on_work_client_closed (Some req) s = Inr (s\<lparr>endpoints := (endpoints s)(e := None),
    mem := (mem s)\<lparr>peers := (peers (mem s))(p := None), clients := (clients (mem s))(c := None),
      works := (works (mem s))(wd := None), work_reqs := (work_reqs (mem s))(req := None)\<rparr>\<rparr>)"
  using assms by (simp add: on_work_client_closed_def connected_def free_block_def Let_def)

lemma completed_after_close:
  assumes "work_reqs (mem s) req = Some (Some wd)" and "works (mem s) wd = Some x"
    and "buf_base (wd_response x) = Some b" and "wd_uvclient x = Some c" and "clients (mem s) c = None"
    and "next_addr (mem s) < mem_limit (mem s)"
  shows "on_work_completed rc 0 req s = Inl Use_after_free"
  using assms by (simp add: on_work_completed_def xmalloc_struct Let_def)

text \<open>The loop after a message and the end of the stream have been read.\<close>

definition after_both :: "addr \<Rightarrow> addr \<Rightarrow> bytes \<Rightarrow> uv_loop \<Rightarrow> uv_loop" where
  "after_both c e bs l =
     (let m = mem (srv l) in
      (with_mem l (after_close sample_work c e (after_read sample_work c e bs m)))
        \<lparr>pool := [(next_addr m + 1, Submitted_work), (next_addr m + 5, Close_work)], reading := reading l - {c}\<rparr>)"

lemma read_both:
  assumes c: "connected (srv l) c p e ep" and l: "idle l" and r: "c \<in> reading l"
    and room: "next_addr (mem (srv l)) + 9 \<le> mem_limit (mem (srv l))"
    and bs: "bs \<noteq> []" "length bs < 2 ^ 31"
  shows "loop_run l (Inr (after_both c e bs l))"
proof -
  let ?m = "mem (srv l)" and ?j = sample_work
  let ?a = "next_addr ?m" and ?m1 = "after_read ?j c e bs ?m"
  have fresh: "fresh_memory ?m" using l by (simp add: idle_def)
  note mem_defs = after_close_def after_read_def Let_def
  define l1 where "l1 = (with_mem l ?m1)\<lparr>pool := [(?a + 1, Submitted_work)]\<rparr>"
  have "read_event 0 ?j 0 c (int (length bs)) bs l = Inr l1"
    unfolding l1_def using room by (intro read_event_idle [OF c l _ _ _ bs]) simp_all
  with r bs have "loop_step l (Inr l1)"
    using ev_read [of c l "int (length bs)" bs 0 ?j 0] by (simp add: wf_read_def)
  then have run1: "loop_run l (Inr l1)" by (rule run_step [OF run_start])
  have c1: "connected (srv l1) c p e ep" and m1: "mem (srv l1) = ?m1" and r1: "c \<in> reading l1"
    using c r by (simp_all add: l1_def connected_def with_mem_def mem_defs)
  have "blocks ?m1 (next_addr ?m1) = None" "next_addr ?m1 = ?a + 4" "next_addr ?m1 + 3 \<le> mem_limit ?m1"
    using fresh_memory_at [OF fresh, of "?a + 4"] room by (simp_all add: mem_defs)
  with read_event_close [OF c1 m1 [symmetric], of 0 "-1" "[]" _ 0 ?j]
  have "read_event 0 ?j 0 c (-1) [] l1 = Inr (after_both c e bs l)"
    by (simp add: after_both_def Let_def add.commute) (simp add: l1_def with_mem_def add.commute)
  with r1 have "loop_step l1 (Inr (after_both c e bs l))"
    using ev_read [of c l1 "-1" "[]" 0 ?j 0] by (simp add: wf_read_def)
  with run1 show ?thesis by (rule run_step)
qed

text \<open>The work on the message, the work that frees the client, and the completion of the first.\<close>

lemma close_race:
  assumes c: "connected (srv l) c p e ep" and l: "idle l" and op: "open_peer ep acc" and r: "c \<in> reading l"
    and room: "next_addr (mem (srv l)) + 9 \<le> mem_limit (mem (srv l))"
    and f: "client_frame f" "fr_fin f" "known_opcode (fr_opcode f)"
    and len: "length acc + length (encode_frame f) + 14 < 2 ^ 31"
  shows "loop_run l (Inl Use_after_free)"
proof -
  let ?gs = "\<lambda>k :: nat. (zero_garbage, zero_garbage)" and ?bs = "encode_frame f"
  let ?j = sample_work and ?a = "next_addr (mem (srv l))"
  let ?m2 = "after_close ?j c e (after_read ?j c e ?bs (mem (srv l)))"
  let ?reply = "encode_frame (echo_frame (fr_opcode f) (acc @ fr_payload f))"
  have gs: "\<And>k. wf_garbage (fst (?gs k))" by simp
  have bs: "?bs \<noteq> []" "length ?bs < 2 ^ 31" using f(1) len by (simp_all add: encode_frame_nonempty)
  have none: "pool l = []" "finished l = []" using l by (simp_all add: idle_def)
  note mem_defs = after_close_def after_read_def Let_def
  define l2 where "l2 = after_both c e ?bs l"
  have run2: "loop_run l (Inr l2)" unfolding l2_def by (rule read_both [OF c l r room bs])
  have l2: "srv l2 = (srv l)\<lparr>mem := ?m2\<rparr>" "finished l2 = finished l"
    "pool l2 = [(?a + 1, Submitted_work), (?a + 5, Close_work)]"
    by (simp_all add: l2_def after_both_def Let_def with_mem_def)
  have h: "holds_request (srv l2) (?a + 1) (?a + 2) ?bs e ep"
    using c bs room by (auto simp: holds_request_def connected_def l2 mem_defs uv_buf_init_def)
  have m2: "mem (srv l2) = ?m2" by (simp add: l2)
  have free: "response_free (?a + 2, ?m2)" using room by (simp add: response_free_def mem_defs)
  let ?ep = "ep\<lparr>nt_write_cb := Some (on_write_response 0), nt_work_data := Some (?a + 2, ?m2)\<rparr>"
  let ?ep' = "?ep\<lparr>fromwire_buf := buf_of [], nt_work_data := Some (put_response (?a + 2, ?m2) ?reply), message_data := buf_of []\<rparr>"
  have "linked (on_write_response 0) (?a + 2, ?m2) [] acc ?ep" using op by (simp add: linked_def open_peer_def)
  note echo = on_write.one_message [where gs = ?gs, OF gs this free f len]
  define m3 where "m3 = snd (put_response (?a + 2, ?m2) ?reply)"
  define s3 where "s3 = (srv l2)\<lparr>mem := m3, endpoints := (endpoints (srv l2))(e \<mapsto> ?ep')\<rparr>"
  have "on_work_submitted 0 ?gs (?a + 1) (srv l2) = Inr s3"
    using on_work_submitted_run [OF h, of 0 ?gs, THEN conjunct1] echo
    by (simp add: m2 s3_def m3_def split: prod.splits)
  moreover define l3 where "l3 = l2\<lparr>srv := s3, pool := [(?a + 5, Close_work)], finished := [?a + 1]\<rparr>"
  ultimately have "work_event 0 ?gs l2 = Inr l3"
    using none by (simp add: work_event_def l2)
  then have "loop_step l2 (Inr l3)" using ev_work [where l = l2 and gs = ?gs and returned = 0, OF _ gs] by (simp add: l2)
  with run2 have run3: "loop_run l (Inr l3)" by (rule run_step)
  have c3: "connected (srv l3) c p e ?ep'" and w3: "work_reqs m3 (?a + 1) = Some (Some (?a + 2))"
    "work_reqs m3 (?a + 5) = Some (Some (?a + 6))" "works m3 (?a + 6) = Some (new_work ?j c (Some e) (uv_buf_init None 0) 0)"
    "\<exists>x. works m3 (?a + 2) = Some x \<and> wd_uvclient x = Some c \<and> (\<exists>b. buf_base (wd_response x) = Some b)"
    "next_addr m3 < mem_limit m3"
    using c room by (simp_all add: connected_def l3_def s3_def m3_def put_response_def l2 mem_defs)
  have m: "mem (srv l3) = m3" by (simp add: l3_def s3_def)
  obtain l4 where l4: "work_event 0 ?gs l3 = Inr l4" "finished l4 = [?a + 1]"
    "mem (srv l4) = m3\<lparr>peers := (peers m3)(p := None), clients := (clients m3)(c := None),
       works := (works m3)(?a + 6 := None), work_reqs := (work_reqs m3)(?a + 5 := None)\<rparr>"
    using on_work_client_closed_frees [OF _ _ _ _ _ _ c3, of "?a + 5" "?a + 6"] w3
    by (simp add: m work_event_def) (simp add: l3_def)
  then have "loop_step l3 (Inr l4)"
    using ev_work [where l = l3 and gs = ?gs and returned = 0, OF _ gs] by (simp add: l3_def)
  with run3 have run4: "loop_run l (Inr l4)" by (rule run_step)
  obtain x b where "works m3 (?a + 2) = Some x" "wd_uvclient x = Some c" "buf_base (wd_response x) = Some b"
    using w3(4) by blast
  then have "on_work_completed 0 0 (?a + 1) (srv l4) = Inl Use_after_free"
    using w3 by (intro completed_after_close [where wd = "?a + 2" and c = c]) (simp_all add: l4(3))
  then have "loop_step l4 (Inl Use_after_free)"
    using ev_completed [of l4 0 0] l4(2) by (simp add: completed_event_def)
  with run4 show ?thesis by (rule run_step)
qed

section \<open>The missing return value\<close>

lemma alloc_work_req_failed:
  assumes m: "next_addr m + 3 \<le> mem_limit m" and ret: "returned < 0"
    and buf: "buf = \<lparr>buf_base = Some b, buf_len = word_of_nat (length bs)\<rparr>" and b: "blocks m b = Some bs"
    and len: "length bs < 2 ^ 31" and run: "alloc_work_req returned junk ps (int (length bs)) buf 1 m = Inr (w, m')"
  shows "w = None"
proof -
  let ?a = "next_addr m"
  let ?m = "m\<lparr>next_addr := Suc (Suc ?a)\<rparr>"
  have room: "next_addr ?m < mem_limit ?m" using m by simp
  note copy = uv_buf_alloc_cpy_ok [OF room len refl, where more_bs = "[]"]
  have x1: "xmalloc sizeof_struct m = Inr (?a, m\<lparr>next_addr := Suc ?a\<rparr>)"
    using m by (intro xmalloc_struct) linarith
  have x2: "xmalloc sizeof_struct (m\<lparr>next_addr := Suc ?a\<rparr>) = Inr (Suc ?a, ?m)"
    using m by (subst xmalloc_struct) auto
  from run copy ret b show ?thesis
    by (auto simp: alloc_work_req_def x1 x2 Let_def block_ptr_def buf to_int32_of_nat [OF len] fault_simps)
qed

lemma read_event_failed:
  assumes c: "connected (srv l) c p e ep" and room: "next_addr (mem (srv l)) + 4 \<le> mem_limit (mem (srv l))"
    and ret: "returned < 0" and bs: "bs \<noteq> []" "length bs < 2 ^ 31"
  shows "\<exists>x. read_event returned junk rc c (int (length bs)) bs l = Inl x"
proof -
  let ?m = "mem (srv l)"
  let ?a = "next_addr ?m"
  let ?buf = "\<lparr>buf_base = Some ?a, buf_len = word_of_nat (length bs)\<rparr> :: uv_buf_t"
  let ?m1 = "?m\<lparr>next_addr := Suc ?a, blocks := (blocks ?m)(?a \<mapsto> bs)\<rparr>"
  let ?ps = "\<lparr>ps_uvclient = Some c, ps_endpoint = Some e\<rparr>"
  have "unat (word_of_nat (length bs) :: u64) = length bs" using bs by (simp add: unat_of_nat)
  then have alloc: "on_alloc_buffer bs (word_of_nat (length bs)) ?m = Inr (?buf, ?m1)"
    using room bs by (simp add: on_alloc_buffer_def xmalloc_ok)
  have c': "clients ?m c = Some (Some p)" "peers ?m p = Some ?ps" using c by (simp_all add: connected_def)
  have peers: "?m1\<lparr>peers := (peers ?m)(p \<mapsto> ?ps)\<rparr> = ?m1" using c'(2) by (simp add: map_upd_triv)
  have "w = None" if "alloc_work_req returned junk ?ps (int (length bs)) ?buf 1 ?m1 = Inr (w, m')" for w m'
    by (rule alloc_work_req_failed [OF _ ret refl _ bs(2) that]) (use room in simp_all)
  then have "\<exists>x. bindE (alloc_work_req returned junk ?ps (int (length bs)) ?buf 1 ?m1) (\<lambda>(work_req, m).
      bindE (uv_queue_work rc work_req Submitted_work) (\<lambda>w. Inr (Some w, m))) = Inl x"
    by (cases "alloc_work_req returned junk ?ps (int (length bs)) ?buf 1 ?m1") (auto simp: uv_queue_work_def)
  moreover have "\<not> int (length bs) < 0" "int (length bs) \<noteq> 0" using bs by simp_all
  ultimately show ?thesis
    using alloc c' peers by (auto simp: read_event_def on_peer_read_def Let_def)
qed

section \<open>Accepting a client\<close>

lemma connect_event_accepts:
  assumes l: "idle l" and room: "next_addr (mem (srv l)) + 3 \<le> mem_limit (mem (srv l))"
    and rcs: "0 \<le> rc_tcp_init rcs" "rc_accept rcs = 0" "0 \<le> rc_getpeername rcs" "0 \<le> rc_read_start rcs"
    and s: "0 \<le> status" and a: "a = next_addr (mem (srv l))"
  shows "connect_event rcs junk status l = Inr (l\<lparr>
    srv := (srv l)\<lparr>mem := (mem (srv l))\<lparr>next_addr := a + 3, clients := (clients (mem (srv l)))(a \<mapsto> Some (a + 1)),
        peers := (peers (mem (srv l)))(a + 1 \<mapsto> \<lparr>ps_uvclient = Some a, ps_endpoint = Some (a + 2)\<rparr>)\<rparr>,
      endpoints := (endpoints (srv l))(a + 2 \<mapsto> WebSocketEndpoint_new junk)\<rparr>,
    reading := insert a (reading l)\<rparr>)"
proof -
  let ?m = "mem (srv l)"
  have x1: "xmalloc sizeof_struct ?m = Inr (a, ?m\<lparr>next_addr := Suc a\<rparr>)"
    using room unfolding a by (intro xmalloc_struct) linarith
  have x2: "xmalloc sizeof_struct (?m\<lparr>next_addr := Suc a, clients := cl\<rparr>) =
      Inr (Suc a, ?m\<lparr>next_addr := Suc (Suc a), clients := cl\<rparr>)" for cl
    using room a by (subst xmalloc_struct) auto
  have x3: "xmalloc sizeof_struct (?m\<lparr>next_addr := Suc (Suc a), clients := cl\<rparr>) =
      Inr (Suc (Suc a), ?m\<lparr>next_addr := a + 3, clients := cl\<rparr>)" for cl
    using room a by (subst xmalloc_struct) auto
  show ?thesis
    using rcs s by (simp add: connect_event_def on_peer_connected_def x1 x2 x3 Let_def)
qed

section \<open>Properties\<close>

text \<open>One message through the whole server. When a client whose handshake is done sends a final
  frame, the callbacks of the read, of the work and of its completion hand \<^verbatim>\<open>uv_write\<close> exactly the
  echo of the message; the callback of the write then frees all that was allocated: the memory is
  as before but for the addresses used, and the loop is ready for the next message of the client.\<close>

theorem server_echoes_message:
  assumes "connected (srv l) c p e ep" and "idle l" and "open_peer ep acc"
    and "next_addr (mem (srv l)) + 6 \<le> mem_limit (mem (srv l))"
    and "0 \<le> returned" and "0 \<le> rc" and "\<And>k. wf_garbage (fst (gs k))"
    and "client_frame f" and "fr_fin f" and "known_opcode (fr_opcode f)"
    and "length acc + length (encode_frame f) + 14 < 2 ^ 31"
  shows "\<exists>l1 w l2 ep'. serve_read returned gs junk rc c (encode_frame f) l = Inr l1 \<and> writing l1 = [w] \<and>
    written (srv l1) w = Some (encode_frame (echo_frame (fr_opcode f) (acc @ fr_payload f))) \<and>
    sent_event 0 w l1 = Inr l2 \<and>
    mem (srv l2) = (mem (srv l))\<lparr>next_addr := next_addr (mem (srv l)) + 6\<rparr> \<and>
    idle l2 \<and> connected (srv l2) c p e ep' \<and> open_peer ep' []"
proof -
  let ?m = "mem (srv l)" and ?bs = "encode_frame f"
  let ?w = "(next_addr ?m + 2, after_read junk c e ?bs ?m)"
  let ?r = "encode_frame (echo_frame (fr_opcode f) (acc @ fr_payload f))"
  let ?ep = "(with_work returned junk c e ?bs ?m ep)\<lparr>fromwire_buf := buf_of [],
    nt_work_data := Some (put_response ?w ?r), message_data := buf_of []\<rparr>"
  have bs: "?bs \<noteq> []" "length ?bs < 2 ^ 31" using assms(8,11) by (simp_all add: encode_frame_nonempty)
  have run: "from_wire gs (Some ?bs) (int (length ?bs)) (with_work returned junk c e ?bs ?m ep) = Inr (int (length ?bs), ?ep)"
    by (rule on_write.one_message [OF assms(7) linked_with_work [OF assms(3)] after_read_free [OF assms(4)] assms(8-11)])
  have "open_peer ?ep []" using assms(3) by (simp add: open_peer_def with_work_def)
  with serve_and_send [OF assms(1,2,4,5,6) bs refl run] show ?thesis by fastforce
qed

theorem server_echoes_message_witness:
  "\<exists>l1 w l2 ep'. serve_read 0 (\<lambda>_. (zero_garbage, zero_garbage)) sample_work 0 0 (encode_frame hello_frame) (sample_loop True) = Inr l1 \<and>
    writing l1 = [w] \<and>
    written (srv l1) w = Some (encode_frame (echo_frame (fr_opcode hello_frame) ([] @ fr_payload hello_frame))) \<and>
    sent_event 0 w l1 = Inr l2 \<and>
    mem (srv l2) = (mem (srv (sample_loop True)))\<lparr>next_addr := next_addr (mem (srv (sample_loop True))) + 6\<rparr> \<and>
    idle l2 \<and> connected (srv l2) 0 1 2 ep' \<and> open_peer ep' []"
  by (rule server_echoes_message [OF sample_loop_facts(1,2,4,3)]) (simp_all add: hello_encoded)

text \<open>The handshake through the whole server. When a client that has just been accepted sends its
  upgrade request, the callbacks hand \<^verbatim>\<open>uv_write\<close> the reply of RFC 6455, free what was allocated,
  and leave the client ready for its first message.\<close>

theorem server_answers_upgrade:
  assumes "connected (srv l) c p e (WebSocketEndpoint_new junk_wd)" and "idle l"
    and "next_addr (mem (srv l)) + 6 \<le> mem_limit (mem (srv l))"
    and "0 \<le> returned" and "0 \<le> rc" and "\<And>k. wf_garbage (fst (gs k))"
    and "plain_upgrade r key" and "length (render_request r) \<le> 1024000"
  shows "\<exists>l1 w l2 ep'. serve_read returned gs junk rc c (bytes_of_str (render_request r)) l = Inr l1 \<and>
    writing l1 = [w] \<and> written (srv l1) w = Some (bytes_of_str (rfc_reply key)) \<and>
    sent_event 0 w l1 = Inr l2 \<and>
    mem (srv l2) = (mem (srv l))\<lparr>next_addr := next_addr (mem (srv l)) + 6\<rparr> \<and>
    idle l2 \<and> connected (srv l2) c p e ep' \<and> open_peer ep' []"
proof -
  let ?m = "mem (srv l)" and ?bs = "bytes_of_str (render_request r)"
  let ?w = "(next_addr ?m + 2, after_read junk c e ?bs ?m)"
  let ?r = "bytes_of_str (rfc_reply key)"
  let ?new = "with_work returned junk c e ?bs ?m (WebSocketEndpoint_new junk_wd)"
  let ?ep = "opened ?new (buf_of []) (put_response ?w ?r)"
  have "render_request r \<noteq> []" by (simp add: render_request_EOL)
  then have bs: "?bs \<noteq> []" "length ?bs < 2 ^ 31" using assms(8) by (auto simp: bytes_of_str_def)
  have fresh: "fresh (on_write_response returned) ?w [] ?new"
    by (simp add: fresh_def with_work_def WebSocketEndpoint_new_def ByteBuffer_new_buf_of)
  have "length ?r < 2 ^ 31" using sha1_reply_length [of key] by simp
  from on_write.deliver_one [OF after_read_free [OF assms(3)] this]
  have "deliver (on_write_response returned) [?r] ?w = Inr (put_response ?w ?r)" .
  then have run: "from_wire gs (Some ?bs) (int (length ?bs)) ?new = Inr (int (length (render_request r)), ?ep)"
    using from_wire_handshake [OF assms(6) fresh assms(7), of ?bs "[]" "[]"] assms(8) by (simp del: deliver.simps)
  have "open_peer ?ep []" by (simp add: open_peer_def opened_def with_work_def WebSocketEndpoint_new_def ByteBuffer_new_buf_of)
  moreover have "nt_work_data ?ep = Some (put_response ?w ?r)" by (simp add: opened_def)
  ultimately show ?thesis using serve_and_send [OF assms(1-5) bs refl run] by fastforce
qed

theorem server_answers_upgrade_witness:
  "\<exists>l1 w l2 ep'. serve_read 0 (\<lambda>_. (sample_garbage, sample_garbage)) sample_work 0 0
      (bytes_of_str (render_request get_request)) (sample_loop False) = Inr l1 \<and>
    writing l1 = [w] \<and> written (srv l1) w = Some (bytes_of_str (rfc_reply ''dGhlIHNhbXBsZSBub25jZQ=='')) \<and>
    sent_event 0 w l1 = Inr l2 \<and>
    mem (srv l2) = (mem (srv (sample_loop False)))\<lparr>next_addr := next_addr (mem (srv (sample_loop False))) + 6\<rparr> \<and>
    idle l2 \<and> connected (srv l2) 0 1 2 ep' \<and> open_peer ep' []"
proof (rule server_answers_upgrade [OF _ sample_loop_facts(2,3) _ _ _ plain_get_request])
  show "connected (srv (sample_loop False)) 0 1 2 (WebSocketEndpoint_new None)"
    using sample_loop_facts(1) [of False] by (simp add: WebSocketEndpoint_new_def)
qed (simp_all add: wf_garbage_def sample_garbage_def)





text \<open>C29: a client that leaves can bring the server down. From every state with an idle client there is a
  run in which a message and the end of the stream are read, the pool answers the message and then
  frees the client, and the completion of the first work writes to the client that has been freed.\<close>

theorem leaving_client_use_after_free:
  assumes "connected (srv l) c p e ep" and "idle l" and "open_peer ep acc" and "c \<in> reading l"
    and "next_addr (mem (srv l)) + 9 \<le> mem_limit (mem (srv l))"
    and "client_frame f" and "fr_fin f" and "known_opcode (fr_opcode f)"
    and "length acc + length (encode_frame f) + 14 < 2 ^ 31"
  shows "loop_run l (Inl Use_after_free)"
  by (rule close_race [OF assms])

theorem leaving_client_use_after_free_witness: "loop_run (sample_loop True) (Inl Use_after_free)"
  by (rule leaving_client_use_after_free [where f = hello_frame, OF sample_loop_facts(1,2,4)])
    (simp_all add: hello_encoded, simp_all add: sample_loop_def sample_memory_def)



text \<open>Accepting. When the calls of libuv succeed, a new connection allocates a client, its state and
  a fresh endpoint, links them, starts reading, leaves the loop idle and every other client as it is.\<close>

theorem server_accepts_client:
  assumes "idle l" and "next_addr (mem (srv l)) + 3 \<le> mem_limit (mem (srv l))"
    and "0 \<le> rc_tcp_init rcs" and "rc_accept rcs = 0" and "0 \<le> rc_getpeername rcs"
    and "0 \<le> rc_read_start rcs" and "0 \<le> status"
    and "connected (srv l) c p e ep" and "e < next_addr (mem (srv l))"
  shows "\<exists>l' c' p' e'. connect_event rcs junk status l = Inr l' \<and> idle l' \<and> c' \<in> reading l' \<and>
    connected (srv l') c' p' e' (WebSocketEndpoint_new junk) \<and> c' \<noteq> c \<and> p' \<noteq> p \<and> e' \<noteq> e \<and>
    connected (srv l') c p e ep"
proof -
  let ?m = "mem (srv l)"
  have fresh: "fresh_memory ?m" using assms(1) by (simp add: idle_def)
  have "c < next_addr ?m" "p < next_addr ?m"
    using fresh assms(8) by (auto simp: fresh_memory_def connected_def not_less [symmetric])
  moreover define l' where "l' = l\<lparr>
    srv := (srv l)\<lparr>mem := ?m\<lparr>next_addr := next_addr ?m + 3,
        clients := (clients ?m)(next_addr ?m \<mapsto> Some (next_addr ?m + 1)),
        peers := (peers ?m)(next_addr ?m + 1 \<mapsto> \<lparr>ps_uvclient = Some (next_addr ?m), ps_endpoint = Some (next_addr ?m + 2)\<rparr>)\<rparr>,
      endpoints := (endpoints (srv l))(next_addr ?m + 2 \<mapsto> WebSocketEndpoint_new junk)\<rparr>,
    reading := insert (next_addr ?m) (reading l)\<rparr>"
  ultimately have "idle l'" "next_addr ?m \<in> reading l'" "connected (srv l') c p e ep"
    "connected (srv l') (next_addr ?m) (next_addr ?m + 1) (next_addr ?m + 2) (WebSocketEndpoint_new junk)"
    using assms(1,8,9) by (auto simp: idle_def fresh_memory_def connected_def)
  moreover have "connect_event rcs junk status l = Inr l'"
    unfolding l'_def by (rule connect_event_accepts [OF assms(1-7) refl])
  ultimately show ?thesis
    using \<open>c < next_addr ?m\<close> \<open>p < next_addr ?m\<close> assms(9)
    by (intro exI [of _ l'] exI [of _ "next_addr ?m"] exI [of _ "next_addr ?m + 1"] exI [of _ "next_addr ?m + 2"]) simp
qed

definition all_well :: connect_results where
  "all_well = \<lparr>rc_tcp_init = 0, rc_accept = 0, rc_getpeername = 0, rc_read_start = 0\<rparr>"

theorem server_accepts_client_witness:
  "\<exists>l' c' p' e'. connect_event all_well None 0 (sample_loop True) = Inr l' \<and> idle l' \<and> c' \<in> reading l' \<and>
    connected (srv l') c' p' e' (WebSocketEndpoint_new None) \<and> c' \<noteq> 0 \<and> p' \<noteq> 1 \<and> e' \<noteq> 2 \<and>
    connected (srv l') 0 1 2 ((WebSocketEndpoint_new None)\<lparr>ws_handshake_completed := True\<rparr>)"
  by (rule server_accepts_client [OF sample_loop_facts(2) _ _ _ _ _ _ sample_loop_facts(1)])
    (simp_all add: all_well_def sample_loop_def sample_memory_def)

end
