(* ===== verification/Uv_Session.thy ===== *)
theory Uv_Session
  imports Uv_Server
begin

text \<open>
  Sessions of several clients with the server of src/src/main.cpp: what is written to each of them is
  what an automaton of its own makes of its own bytes, however the reads of different clients
  are interleaved. The automaton speaks of requests, frames and messages only.
\<close>

section \<open>A read without a response\<close>

lemma on_work_completed_quiet:
  assumes m: "fresh_memory m" and s: "mem s = after_read junk c e bs m"
  shows "on_work_completed rc 0 (next_addr m + 1) s = Inr (None, s\<lparr>mem := m\<lparr>next_addr := next_addr m + 4\<rparr>\<rparr>)"
proof -
  note w = after_read_def Let_def
  have old: "blocks m (next_addr m + 3) = None" "works m (next_addr m + 2) = None" "work_reqs m (next_addr m + 1) = None"
    using fresh_memory_at [OF m] by simp_all
  then show ?thesis
    by (simp add: on_work_completed_def free_work_data_def free_block_def s w fun_upd_fresh)
qed

lemma serve_read_quiet:
  assumes c: "connected (srv l) c p e ep" and l: "idle l"
    and room: "next_addr (mem (srv l)) + 6 \<le> mem_limit (mem (srv l))"
    and rc: "0 \<le> returned" "0 \<le> rc" and bs: "bs \<noteq> []" "length bs < 2 ^ 31" and m: "m = mem (srv l)"
    and run: "from_wire gs (Some bs) (int (length bs)) (with_work returned junk c e bs m ep) = Inr (n, ep')"
      "nt_work_data ep' = Some (next_addr m + 2, after_read junk c e bs m)"
  shows "serve_read returned gs junk rc c bs l =
    Inr (l\<lparr>srv := \<lparr>mem = m\<lparr>next_addr := next_addr m + 4\<rparr>, endpoints = (endpoints (srv l))(e \<mapsto> ep')\<rparr>\<rparr>)"
proof -
  let ?s2 = "\<lparr>mem = after_read junk c e bs m, endpoints = (endpoints (srv l))(e \<mapsto> ep')\<rparr> :: server"
  have fresh: "fresh_memory m" and none: "writing l = []" "finished l = []" using l by (simp_all add: idle_def m)
  from on_work_completed_quiet [OF fresh, of ?s2 junk c e bs rc] none show ?thesis
    by (simp add: serve_read_submitted [OF c l room rc bs m] run completed_event_def)
qed

section \<open>What a client sees\<close>

text \<open>
  A client before its handshake, and one whose connection is open, with the payloads of an unfinished message and
  the bytes of an unfinished frame. One read takes the client on by complete units of the
  protocol, with at most one response, for the server has room for one.
\<close>

datatype peer = Waiting | Opened bytes bytes

inductive peer_step :: "peer \<Rightarrow> bytes \<Rightarrow> bytes list \<Rightarrow> peer \<Rightarrow> bool" where
  upgrade: "plain_upgrade r key \<Longrightarrow> length (render_request r) \<le> 1024000 \<Longrightarrow>
    peer_step Waiting (bytes_of_str (render_request r)) [bytes_of_str (rfc_reply key)] (Opened [] [])"
| frames: "bs \<noteq> [] \<Longrightarrow> pre @ bs = stream fs @ rest \<Longrightarrow> list_all client_frame fs \<Longrightarrow> rest = [] \<or> partial_frame rest \<Longrightarrow>
    length acc + length (pre @ bs) + 14 < 2 ^ 31 \<Longrightarrow> length (snd (assemble acc fs)) \<le> 1 \<Longrightarrow>
    peer_step (Opened acc pre) bs (snd (assemble acc fs)) (Opened (fst (assemble acc fs)) rest)"

inductive peer_run :: "peer \<Rightarrow> bytes list \<Rightarrow> bytes list \<Rightarrow> peer \<Rightarrow> bool" where
  peer_end: "peer_run st [] [] st"
| peer_next: "peer_step st bs out st1 \<Longrightarrow> peer_run st1 bss outs st' \<Longrightarrow> peer_run st (bs # bss) (out @ outs) st'"

inductive_cases peer_runE: "peer_run st (bs # bss) outs st'"
inductive_cases peer_run_NilE: "peer_run st [] outs st'"

text \<open>The endpoint of a client in a state.\<close>

fun in_state :: "endpoint \<Rightarrow> peer \<Rightarrow> bool" where
  "in_state ep Waiting \<longleftrightarrow> \<not> ws_handshake_completed ep \<and> fromwire_buf ep = buf_of [] \<and> message_data ep = buf_of []"
| "in_state ep (Opened acc pre) \<longleftrightarrow> ws_handshake_completed ep \<and> fromwire_buf ep = buf_of pre \<and> message_data ep = buf_of acc"

text \<open>The endpoint makes of one read what the automaton says.\<close>

lemma small_response:
  assumes "list_all client_frame fs" and "length acc + length (stream fs) + 14 < 2 ^ 31" and "out \<in> set (snd (assemble acc fs))"
  shows "length out < 2 ^ 31"
  using assms
proof (induction fs arbitrary: acc)
  case (Cons f fs)
  have f: "wf_frame f" "length (fr_payload f) < 65536" using Cons.prems(1) by (simp_all add: client_frame_def)
  note size = encode_frame_size(1) [OF f(1)]
  have "out \<in> set (snd (assemble acc [f])) \<or> out \<in> set (snd (assemble (fst (assemble acc [f])) fs))"
    using Cons.prems(3) by (subst (asm) assemble_Cons) auto
  then show ?case
  proof
    assume "out \<in> set (snd (assemble acc [f]))"
    then have out: "out = encode_frame (echo_frame (fr_opcode f) (acc @ fr_payload f))"
      by (simp add: assemble.simps echoes_def split: if_splits)
    have "wf_frame (echo_frame (fr_opcode f) (acc @ fr_payload f))"
      using f Cons.prems(2) size by (auto simp: wf_frame_def echo_frame_def)
    from encode_frame_size(2) [OF this] show ?thesis
      using Cons.prems(2) size by (simp add: out echo_frame_def)
  next
    assume "out \<in> set (snd (assemble (fst (assemble acc [f])) fs))"
    moreover have "length (fst (assemble acc [f])) + length (stream fs) + 14 < 2 ^ 31"
      using Cons.prems(2) assemble_one_size [of acc f] size by simp
    ultimately show ?thesis using Cons.IH Cons.prems(1) by auto
  qed
qed simp

lemma from_wire_peer_step:
  assumes step: "peer_step st bs out st'" and ep: "in_state ep st" and free: "response_free w"
    and gs: "\<And>k. wf_garbage (fst (gs k))"
  shows "bs \<noteq> [] \<and> length bs < 2 ^ 31 \<and> length out \<le> 1 \<and>
    (\<exists>n ep'. from_wire gs (Some bs) (int (length bs)) (ep\<lparr>nt_write_cb := Some (on_write_response returned), nt_work_data := Some w\<rparr>) = Inr (n, ep') \<and>
      in_state ep' st' \<and> nt_work_data ep' = Some (case out of [] \<Rightarrow> w | b # _ \<Rightarrow> put_response w b))"
proof -
  let ?ep = "ep\<lparr>nt_write_cb := Some (on_write_response returned), nt_work_data := Some w\<rparr>"
  from step show ?thesis
  proof cases
    case (upgrade r key)
    have "render_request r \<noteq> []" by (simp add: render_request_EOL)
    then have bs: "bs \<noteq> []" "length bs < 2 ^ 31" using upgrade(2,6) by (auto simp: bytes_of_str_def)
    have fresh: "fresh (on_write_response returned) w [] ?ep"
      using ep by (simp add: upgrade(1) fresh_def)
    have "length (bytes_of_str (rfc_reply key)) < 2 ^ 31" using sha1_reply_length [of key] by simp
    from on_write.deliver_one [OF free this]
    have "deliver (on_write_response returned) [bytes_of_str (rfc_reply key)] w = Inr (put_response w (bytes_of_str (rfc_reply key)))" .
    then have "from_wire gs (Some bs) (int (length bs)) ?ep =
        Inr (int (length (render_request r)), opened ?ep (buf_of []) (put_response w (bytes_of_str (rfc_reply key))))"
      using from_wire_handshake [OF gs fresh upgrade(5), of bs "[]" "[]"] upgrade(2,6) by (simp del: deliver.simps)
    then show ?thesis
      using bs ep by (simp add: upgrade(1,3,4) opened_def)
  next
    case (frames pre fs rest acc)
    have ep': "linked (on_write_response returned) w pre acc ?ep"
      using ep by (simp add: frames(1) linked_def)
    have some: "fs \<noteq> [] \<or> rest \<noteq> []" using frames(4,5) by auto
    have run: "from_wire gs (Some bs) (int (length bs)) ?ep = stream_result (on_write_response returned) acc fs rest w ?ep"
      by (rule from_wire_stream [OF gs ep' frames(5) some frames(6,7,8)])
    have len: "length acc + length (stream fs) + 14 < 2 ^ 31" using frames(5,8) by (metis (no_types) add_le_mono1 add_left_mono le_add1 le_less_trans length_append)
    have "deliver (on_write_response returned) out w =
        Inr (case out of [] \<Rightarrow> w | b # _ \<Rightarrow> put_response w b)"
    proof (cases out)
      case (Cons b bs')
      then have "out = [b]" using frames(2,9) by simp
      moreover have "length b < 2 ^ 31"
        by (rule small_response [OF frames(6) len]) (use Cons frames(2) in simp)
      ultimately show ?thesis using on_write.deliver_one [OF free] by simp
    qed simp
    moreover have "length bs < 2 ^ 31" using frames(8) by simp
    ultimately show ?thesis
      using run frames ep by (simp add: stream_result_def)
  qed
qed

lemma from_wire_step:
  assumes "peer_step st bs out st'" and "in_state ep st" and "next_addr m + 6 \<le> mem_limit m" and "\<And>k. wf_garbage (fst (gs k))"
  shows "bs \<noteq> [] \<and> length bs < 2 ^ 31 \<and> length out \<le> 1 \<and>
    (\<exists>n ep'. from_wire gs (Some bs) (int (length bs)) (with_work returned junk c e bs m ep) = Inr (n, ep') \<and> in_state ep' st' \<and>
      nt_work_data ep' = Some (case out of [] \<Rightarrow> (next_addr m + 2, after_read junk c e bs m)
        | b # _ \<Rightarrow> put_response (next_addr m + 2, after_read junk c e bs m) b))"
  unfolding with_work_def by (rule from_wire_peer_step [OF assms(1,2) after_read_free [OF assms(3)] assms(4)])

section \<open>The server\<close>

text \<open>What is being written, and the stream it is written to.\<close>

definition outgoing :: "server \<Rightarrow> addr \<Rightarrow> (addr \<times> bytes) list" where
  "outgoing s w =
     (case write_reqs (mem s) w of
        Some (Some wd) \<Rightarrow>
          (case (works (mem s) wd, response_bytes (wd, mem s)) of
             (Some x, Some bs) \<Rightarrow> (case wd_uvclient x of Some c \<Rightarrow> [(c, bs)] | None \<Rightarrow> [])
           | _ \<Rightarrow> [])
      | _ \<Rightarrow> [])"

text \<open>
  One read is served: the callbacks of the read, of the work and of its completion, and when something is
  written the callback of the write. Then the next one. Reads come with the client they come from.
\<close>

definition serve :: "int \<Rightarrow> (nat \<Rightarrow> garbage \<times> garbage) \<Rightarrow> peer_work_data_t \<Rightarrow> int \<Rightarrow> addr \<times> bytes \<Rightarrow> uv_loop \<Rightarrow>
   fault + ((addr \<times> bytes) list \<times> uv_loop)" where
  "serve returned gs junk rc = (\<lambda>(client, bs) l.
     bindE (serve_read returned gs junk rc client bs l) (\<lambda>l.
     case writing l of
       [] \<Rightarrow> Inr ([], l)
     | w # _ \<Rightarrow> bindE (sent_event 0 w l) (\<lambda>l'. Inr (outgoing (srv l) w, l'))))"

fun serve_all :: "int \<Rightarrow> (nat \<Rightarrow> garbage \<times> garbage) \<Rightarrow> peer_work_data_t \<Rightarrow> int \<Rightarrow> (addr \<times> bytes) list \<Rightarrow> uv_loop \<Rightarrow>
   fault + ((addr \<times> bytes) list \<times> uv_loop)" where
  "serve_all returned gs junk rc [] l = Inr ([], l)"
| "serve_all returned gs junk rc (r # rs) l =
     bindE (serve returned gs junk rc r l) (\<lambda>(ws, l).
     bindE (serve_all returned gs junk rc rs l) (\<lambda>(ws', l). Inr (ws @ ws', l)))"

lemma outgoing_reply:
  "outgoing \<lparr>mem = after_completion junk c e bs reply m, endpoints = eps\<rparr> (next_addr m + 5) = [(c, reply)]"
  by (simp add: outgoing_def after_completion_def after_work_def put_response_def after_read_def response_bytes_def Let_def)

text \<open>A read of one client, which leaves the others alone.\<close>

lemma serve_one:
  assumes c: "connected (srv l) c p e ep" and l: "idle l" and room: "next_addr (mem (srv l)) + 6 \<le> mem_limit (mem (srv l))"
    and rc: "0 \<le> returned" "0 \<le> rc" and gs: "\<And>k. wf_garbage (fst (gs k))"
    and step: "peer_step st bs out st'" and ep: "in_state ep st" and reading: "c \<in> reading l"
  shows "\<exists>a ep' l'. serve returned gs junk rc (c, bs) l = Inr (map (Pair c) out, l') \<and> loop_run l (Inr l') \<and>
    l' = l\<lparr>srv := \<lparr>mem = (mem (srv l))\<lparr>next_addr := a\<rparr>, endpoints = (endpoints (srv l))(e \<mapsto> ep')\<rparr>\<rparr> \<and>
    next_addr (mem (srv l)) \<le> a \<and> a \<le> next_addr (mem (srv l)) + 6 \<and> in_state ep' st'"
proof -
  let ?m = "mem (srv l)"
  from from_wire_step [where gs = gs and junk = junk and c = c and e = e and returned = returned, OF step ep room gs] obtain n ep'
    where bs: "bs \<noteq> []" "length bs < 2 ^ 31" "length out \<le> 1"
    and run: "from_wire gs (Some bs) (int (length bs)) (with_work returned junk c e bs ?m ep) = Inr (n, ep')" "in_state ep' st'"
      "nt_work_data ep' = Some (case out of [] \<Rightarrow> (next_addr ?m + 2, after_read junk c e bs ?m)
        | b # _ \<Rightarrow> put_response (next_addr ?m + 2, after_read junk c e bs ?m) b)" by blast
  have none: "writing l = []" "pool l = []" using l by (simp_all add: idle_def)
  note run_read = serve_read_run [where gs = gs and returned = returned and junk = junk and rc = rc, OF reading none(2) bs(1,2) gs]
  show ?thesis
  proof (cases out)
    case Nil
    have "serve_read returned gs junk rc c bs l =
        Inr (l\<lparr>srv := \<lparr>mem = ?m\<lparr>next_addr := next_addr ?m + 4\<rparr>, endpoints = (endpoints (srv l))(e \<mapsto> ep')\<rparr>\<rparr>)"
      by (rule serve_read_quiet [OF c l room rc bs(1,2) refl run(1)]) (simp add: run(3) Nil)
    with run(2) run_read none Nil show ?thesis
      by (intro exI [of _ "next_addr ?m + 4"] exI [of _ ep'] exI) (simp add: serve_def)
  next
    case (Cons b bs')
    with bs(3) have out: "out = [b]" by simp
    have read: "serve_read returned gs junk rc c bs l =
        Inr (l\<lparr>srv := \<lparr>mem = after_completion junk c e bs b ?m, endpoints = (endpoints (srv l))(e \<mapsto> ep')\<rparr>,
          writing := [next_addr ?m + 5]\<rparr>)"
      by (rule serve_read_reply [OF c l room rc bs(1,2) refl run(1)]) (simp add: run(3) out)
    note sent = sent_event_restores [OF c l refl refl, where junk = junk and bs = bs and reply = b and ep' = ep']
    let ?l1 = "l\<lparr>srv := \<lparr>mem = after_completion junk c e bs b ?m, endpoints = (endpoints (srv l))(e \<mapsto> ep')\<rparr>,
          writing := [next_addr ?m + 5]\<rparr>"
    have "loop_step ?l1 (sent_event 0 (next_addr ?m + 5) ?l1)" by (rule ev_sent) simp
    with run_read read sent have "loop_run l (Inr (l\<lparr>srv := \<lparr>mem = ?m\<lparr>next_addr := next_addr ?m + 6\<rparr>,
        endpoints = (endpoints (srv l))(e \<mapsto> ep')\<rparr>\<rparr>))" by (auto intro: run_step)
    then show ?thesis
      by (intro exI [of _ "next_addr ?m + 6"] exI [of _ ep'] exI)
        (use read sent run(2) out outgoing_reply in \<open>simp add: serve_def\<close>)
  qed
qed

text \<open>The bytes of one client.\<close>

definition bytes_of :: "addr \<Rightarrow> (addr \<times> bytes) list \<Rightarrow> bytes list" where
  "bytes_of c rs = map snd (filter (\<lambda>r. fst r = c) rs)"

lemma bytes_of_simps [simp]:
  "bytes_of c [] = []" "bytes_of c (r # rs) = (if fst r = c then snd r # bytes_of c rs else bytes_of c rs)"
  "bytes_of c (rs @ rs') = bytes_of c rs @ bytes_of c rs'"
  "bytes_of c (map (Pair c') out) = (if c = c' then out else [])"
  by (simp_all add: bytes_of_def comp_def)

text \<open>Clients with endpoints of their own, each in its state.\<close>

definition all_in_state :: "uv_loop \<Rightarrow> addr set \<Rightarrow> (addr \<Rightarrow> addr) \<Rightarrow> (addr \<Rightarrow> addr) \<Rightarrow> (addr \<Rightarrow> peer) \<Rightarrow> bool" where
  "all_in_state l C p e st \<longleftrightarrow> idle l \<and> inj_on e C \<and> (\<forall>c \<in> C. \<exists>ep. connected (srv l) c (p c) (e c) ep \<and> in_state ep (st c))"

lemma loop_run_trans: "loop_run l1 r \<Longrightarrow> loop_run l (Inr l1) \<Longrightarrow> loop_run l r"
  by (induction l1 r rule: loop_run.induct) (auto intro: run_step)

lemma serve_all_run:
  assumes rc: "0 \<le> returned" "0 \<le> rc" and gs: "\<And>k. wf_garbage (fst (gs k))"
  shows "all_in_state l C p e st \<Longrightarrow> C \<subseteq> reading l \<Longrightarrow> fst ` set rs \<subseteq> C \<Longrightarrow>
    next_addr (mem (srv l)) + 6 * length rs \<le> mem_limit (mem (srv l)) \<Longrightarrow>
    (\<And>c. c \<in> C \<Longrightarrow> peer_run (st c) (bytes_of c rs) (outs c) (st' c)) \<Longrightarrow>
    \<exists>ws l' a. serve_all returned gs junk rc rs l = Inr (ws, l') \<and> loop_run l (Inr l') \<and> all_in_state l' C p e st' \<and>
      fst ` set ws \<subseteq> C \<and> (\<forall>c \<in> C. bytes_of c ws = outs c) \<and>
      mem (srv l') = (mem (srv l))\<lparr>next_addr := a\<rparr> \<and> a \<le> next_addr (mem (srv l)) + 6 * length rs"
proof (induction rs arbitrary: l st outs)
  case Nil
  then have end_run: "peer_run (st c) [] (outs c) (st' c)" if "c \<in> C" for c using that by simp
  have "outs c = [] \<and> st' c = st c" if "c \<in> C" for c using end_run [OF that] by (auto elim: peer_run_NilE)
  with Nil.prems(1) show ?case
    by (intro exI [of _ "[]"] exI [of _ l] exI [of _ "next_addr (mem (srv l))"]) (simp add: all_in_state_def run_start)
next
  case (Cons r rs)
  obtain c bs where r: "r = (c, bs)" by (cases r)
  have c: "c \<in> C" using Cons.prems(3) r by simp
  obtain ep where ep: "connected (srv l) c (p c) (e c) ep" "in_state ep (st c)" and l: "idle l" and inj: "inj_on e C"
    using Cons.prems(1) c unfolding all_in_state_def by blast
  have "peer_run (st c) (bs # bytes_of c rs) (outs c) (st' c)" using Cons.prems(5) [OF c] r by simp
  then obtain out st1 outs1 where step: "peer_step (st c) bs out st1" "peer_run st1 (bytes_of c rs) outs1 (st' c)" "outs c = out @ outs1"
    by (auto elim: peer_runE)
  have room: "next_addr (mem (srv l)) + 6 \<le> mem_limit (mem (srv l))" using Cons.prems(4) by simp
  have "c \<in> reading l" using Cons.prems(2) c by blast
  from serve_one [where gs = gs and junk = junk, OF ep(1) l room rc gs step(1) ep(2) this] obtain a ep' l1
    where l1: "serve returned gs junk rc (c, bs) l = Inr (map (Pair c) out, l1)" "loop_run l (Inr l1)"
      "l1 = l\<lparr>srv := \<lparr>mem = (mem (srv l))\<lparr>next_addr := a\<rparr>, endpoints = (endpoints (srv l))(e c \<mapsto> ep')\<rparr>\<rparr>"
      "next_addr (mem (srv l)) \<le> a" "a \<le> next_addr (mem (srv l)) + 6" "in_state ep' st1" by blast
  have "idle l1" using l l1(3,4) by (simp add: idle_def fresh_memory_def)
  moreover have "\<exists>ep. connected (srv l1) c' (p c') (e c') ep \<and> in_state ep ((st(c := st1)) c')" if c': "c' \<in> C" for c'
  proof (cases "c' = c")
    case True
    with ep(1) l1(3,6) show ?thesis by (simp add: connected_def)
  next
    case False
    then have "e c' \<noteq> e c" using inj c c' by (auto dest: inj_onD)
    moreover obtain ep1 where "connected (srv l) c' (p c') (e c') ep1" "in_state ep1 (st c')"
      using Cons.prems(1) c' unfolding all_in_state_def by blast
    ultimately show ?thesis using False l1(3) by (simp add: connected_def)
  qed
  ultimately have "all_in_state l1 C p e (st(c := st1))" using inj by (simp add: all_in_state_def)
  moreover have "C \<subseteq> reading l1" using Cons.prems(2) l1(3) by simp
  moreover have "fst ` set rs \<subseteq> C" using Cons.prems(3) by simp
  moreover have "next_addr (mem (srv l1)) + 6 * length rs \<le> mem_limit (mem (srv l1))" using Cons.prems(4) l1(3,5) by simp
  moreover have "peer_run ((st(c := st1)) c') (bytes_of c' rs) ((outs(c := outs1)) c') (st' c')" if "c' \<in> C" for c'
    using step(2) Cons.prems(5) [OF that] r by (cases "c' = c") simp_all
  ultimately obtain ws l' a' where ws: "serve_all returned gs junk rc rs l1 = Inr (ws, l')" "loop_run l1 (Inr l')" "all_in_state l' C p e st'"
    "fst ` set ws \<subseteq> C" "\<forall>c' \<in> C. bytes_of c' ws = (outs(c := outs1)) c'"
    "mem (srv l') = (mem (srv l1))\<lparr>next_addr := a'\<rparr>" "a' \<le> next_addr (mem (srv l1)) + 6 * length rs"
    using Cons.IH [of l1 "st(c := st1)" "outs(c := outs1)"] by blast
  have "bytes_of c' (map (Pair c) out @ ws) = outs c'" if "c' \<in> C" for c' using ws(5) step(3) that by auto
  moreover have "loop_run l (Inr l')" by (rule loop_run_trans [OF ws(2) l1(2)])
  ultimately show ?case using ws(1,3,4,6,7) l1(1,3,4,5) c r
    by (intro exI [of _ "map (Pair c) out @ ws"] exI [of _ l'] exI [of _ a']) auto
qed

text \<open>Of an open client the automaton assembles the messages, wherever the stream is cut into reads.\<close>

lemma peer_run_assembles:
  "peer_run (Opened acc pre) bss outs st' \<Longrightarrow> \<exists>fs acc' pre'. st' = Opened acc' pre' \<and> pre @ concat bss = stream fs @ pre' \<and>
     list_all client_frame fs \<and> acc' = fst (assemble acc fs) \<and> outs = snd (assemble acc fs)"
proof (induction bss arbitrary: acc pre outs)
  case Nil
  then have "outs = []" "st' = Opened acc pre" by (auto elim: peer_run_NilE)
  then show ?case by (intro exI [of _ "[] :: frame list"]) simp
next
  case (Cons bs bss)
  from Cons.prems obtain out st1 outs1 where step: "peer_step (Opened acc pre) bs out st1" "peer_run st1 bss outs1 st'" "outs = out @ outs1"
    by (rule peer_runE) blast
  from step(1) obtain fs rest where fs: "pre @ bs = stream fs @ rest" "list_all client_frame fs" "out = snd (assemble acc fs)"
    "st1 = Opened (fst (assemble acc fs)) rest" by (cases rule: peer_step.cases) auto
  from Cons.IH [OF step(2) [unfolded fs(4)]] obtain gs acc' pre' where gs: "st' = Opened acc' pre'" "rest @ concat bss = stream gs @ pre'"
    "list_all client_frame gs" "acc' = fst (assemble (fst (assemble acc fs)) gs)" "outs1 = snd (assemble (fst (assemble acc fs)) gs)"
    by blast
  have "pre @ concat (bs # bss) = stream (fs @ gs) @ pre'" using fs(1) gs(2) by (metis append.assoc concat.simps(2) stream_append)
  with fs gs step(3) show ?case
    by (intro exI [of _ "fs @ gs"] exI [of _ acc'] exI [of _ pre']) (simp add: assemble_append)
qed

section \<open>A sample\<close>

text \<open>A client before its handshake and one after it.\<close>

definition two_clients :: uv_loop where
  "two_clients = \<lparr>srv = \<lparr>mem = \<lparr>next_addr = 6, mem_limit = 1000, blocks = Map.empty, works = Map.empty, work_reqs = Map.empty,
       write_reqs = Map.empty, clients = [0 \<mapsto> Some 1, 3 \<mapsto> Some 4],
       peers = [1 \<mapsto> \<lparr>ps_uvclient = Some 0, ps_endpoint = Some 2\<rparr>, 4 \<mapsto> \<lparr>ps_uvclient = Some 3, ps_endpoint = Some 5\<rparr>]\<rparr>,
       endpoints = [2 \<mapsto> WebSocketEndpoint_new None, 5 \<mapsto> (WebSocketEndpoint_new None)\<lparr>ws_handshake_completed := True\<rparr>]\<rparr>,
     reading = {0, 3}, pool = [], finished = [], writing = [], closing = {}\<rparr>"

definition two_states :: "addr \<Rightarrow> peer" where
  "two_states c = (if c = 0 then Waiting else Opened [] [])"

lemma two_clients_in_state: "all_in_state two_clients {0, 3} (\<lambda>c. c + 1) (\<lambda>c. c + 2) two_states"
  by (simp add: all_in_state_def two_clients_def two_states_def idle_def fresh_memory_def connected_def
      WebSocketEndpoint_new_def ByteBuffer_new_buf_of)

definition hello_echo :: bytes where
  "hello_echo = encode_frame (echo_frame (fr_opcode hello_frame) (fr_payload hello_frame))"

lemma hello_step: "peer_step (Opened [] []) (encode_frame hello_frame) [hello_echo] (Opened [] [])"
proof -
  have "assemble [] [hello_frame] = ([], [hello_echo])" by (simp add: assemble.simps echoes_def hello_echo_def)
  moreover have "length (encode_frame hello_frame) < 2 ^ 30" by (simp add: hello_encoded)
  ultimately show ?thesis
    using frames [of "encode_frame hello_frame" "[]" "[hello_frame]" "[]" "[]"] encode_frame_nonempty [of hello_frame] by simp
qed

section \<open>Properties\<close>

text \<open>The server serves its clients independently of each other. Let the reads of any number of clients be interleaved in
  any way, each client going through its automaton on its own bytes: the handshake, then frames cut
  into reads anywhere, with one response at most in a read. Then the loop has a run in which everything
  written to a client is what its automaton says, in that order; it ends idle, with every client in
  the state of its automaton, and the memory is as before but for the addresses used.\<close>

theorem server_serves_clients:
  assumes "all_in_state l C p e st" and "C \<subseteq> reading l" and "fst ` set rs \<subseteq> C"
    and "next_addr (mem (srv l)) + 6 * length rs \<le> mem_limit (mem (srv l))"
    and "\<And>c. c \<in> C \<Longrightarrow> peer_run (st c) (bytes_of c rs) (outs c) (st' c)"
    and "0 \<le> returned" and "0 \<le> rc" and "\<And>k. wf_garbage (fst (gs k))"
  shows "\<exists>ws l' a. serve_all returned gs junk rc rs l = Inr (ws, l') \<and> loop_run l (Inr l') \<and> all_in_state l' C p e st' \<and>
    fst ` set ws \<subseteq> C \<and> (\<forall>c \<in> C. bytes_of c ws = outs c) \<and>
    mem (srv l') = (mem (srv l))\<lparr>next_addr := a\<rparr> \<and> a \<le> next_addr (mem (srv l)) + 6 * length rs"
  by (rule serve_all_run [OF assms(6,7,8,1,2,3,4)]) (rule assms(5))

theorem server_serves_clients_witness:
  "\<exists>ws l' a. serve_all 0 (\<lambda>_. (zero_garbage, zero_garbage)) sample_work 0
      [(0, bytes_of_str (render_request get_request)), (3, encode_frame hello_frame), (0, encode_frame hello_frame)] two_clients = Inr (ws, l') \<and>
    loop_run two_clients (Inr l') \<and> all_in_state l' {0, 3} (\<lambda>c. c + 1) (\<lambda>c. c + 2) (\<lambda>_. Opened [] []) \<and>
    fst ` set ws \<subseteq> {0, 3} \<and>
    (\<forall>c \<in> {0, 3}. bytes_of c ws =
      (if c = 0 then [bytes_of_str (rfc_reply ''dGhlIHNhbXBsZSBub25jZQ==''), hello_echo] else [hello_echo])) \<and>
    mem (srv l') = (mem (srv two_clients))\<lparr>next_addr := a\<rparr> \<and> a \<le> next_addr (mem (srv two_clients)) + 6 * length
      [(0 :: addr, bytes_of_str (render_request get_request)), (3, encode_frame hello_frame), (0, encode_frame hello_frame)]"
proof (rule server_serves_clients [OF two_clients_in_state])
  fix c :: addr
  have "length (render_request get_request) \<le> 1024000" by (simp add: get_request_def render_request_EOL request_lines_SP header_line_def)
  note up = upgrade [OF plain_get_request this]
  have one: "peer_run (Opened [] []) [encode_frame hello_frame] [hello_echo] (Opened [] [])"
    using peer_next [OF hello_step peer_end] by simp
  have two: "peer_run Waiting [bytes_of_str (render_request get_request), encode_frame hello_frame]
      [bytes_of_str (rfc_reply ''dGhlIHNhbXBsZSBub25jZQ==''), hello_echo] (Opened [] [])"
    using peer_next [OF up one] by simp
  assume "c \<in> {0, 3}"
  then show "peer_run (two_states c)
      (bytes_of c [(0, bytes_of_str (render_request get_request)), (3, encode_frame hello_frame), (0, encode_frame hello_frame)])
      (if c = 0 then [bytes_of_str (rfc_reply ''dGhlIHNhbXBsZSBub25jZQ==''), hello_echo] else [hello_echo]) (Opened [] [])"
    using one two by (auto simp: two_states_def)
qed (simp_all add: two_clients_def)

end
