(* ===== verification/Uv_Memory_Owners.thy ===== *)
theory Uv_Memory_Owners
  imports Uv_Server
begin

text \<open>
  Ownership in the memory of the server (src/src/main.cpp): a request holds its work data, and
  work data own the two blocks of their request and response. The functions of the endpoint do not touch
  the heap, and the callbacks that allocate and answer keep the owners apart.
\<close>

section \<open>Faults of the heap\<close>

definition heap_faults :: "fault set" where
  "heap_faults = {Use_after_free, Bad_free, Assert_failed}"

lemma not_heap_fault [simp]:
  "Out_of_range \<notin> heap_faults" "Length_error \<notin> heap_faults" "Null_deref \<notin> heap_faults" "Bad_read \<notin> heap_faults"
  "Deref_end \<notin> heap_faults" "Exit_failure \<notin> heap_faults" "Diverges \<notin> heap_faults"
  by (simp_all add: heap_faults_def)

text \<open>The execution ends in a result with \<open>R\<close>, or in a fault that has nothing to do with the heap.\<close>

definition safe :: "('a \<Rightarrow> bool) \<Rightarrow> fault + 'a \<Rightarrow> bool" where
  "safe R r = (case r of Inl e \<Rightarrow> e \<notin> heap_faults | Inr x \<Rightarrow> R x)"

lemma safe_simps [simp]: "safe R (Inl e) \<longleftrightarrow> e \<notin> heap_faults" "safe R (Inr x) \<longleftrightarrow> R x"
  by (simp_all add: safe_def)

lemma safe_bindE [intro]: "safe Q m \<Longrightarrow> (\<And>x. Q x \<Longrightarrow> safe R (f x)) \<Longrightarrow> safe R (bindE m f)"
  by (cases m) simp_all

lemma safe_mono: "safe Q m \<Longrightarrow> (\<And>x. Q x \<Longrightarrow> R x) \<Longrightarrow> safe R m"
  by (cases m) auto

definition clean :: "fault + 'a \<Rightarrow> bool" where
  "clean r = safe (\<lambda>_. True) r"

named_theorems clean_rules

lemma clean_simps [clean_rules]: "clean (Inr x)" "e \<notin> heap_faults \<Longrightarrow> clean (Inl e)"
  by (simp_all add: clean_def)

lemma clean_bindE [clean_rules]: "clean m \<Longrightarrow> (\<And>x. clean (f x)) \<Longrightarrow> clean (bindE m f)"
  unfolding clean_def by (rule safe_bindE)

lemma clean_if [clean_rules]: "(b \<Longrightarrow> clean x) \<Longrightarrow> (\<not> b \<Longrightarrow> clean y) \<Longrightarrow> clean (if b then x else y)"
  by simp

lemma clean_option [clean_rules]: "clean n \<Longrightarrow> (\<And>x. clean (s x)) \<Longrightarrow> clean (case p of None \<Rightarrow> n | Some x \<Rightarrow> s x)"
  by (cases p) simp_all

lemma clean_prod [clean_rules]: "(\<And>x y. clean (f x y)) \<Longrightarrow> clean (case p of (x, y) \<Rightarrow> f x y)"
  by (cases p) simp

lemma clean_list [clean_rules]: "clean n \<Longrightarrow> (\<And>x xs. clean (s x xs)) \<Longrightarrow> clean (case p of [] \<Rightarrow> n | x # xs \<Rightarrow> s x xs)"
  by (cases p) simp_all

lemma clean_let [clean_rules]: "(\<And>x. clean (f x)) \<Longrightarrow> clean (Let y f)"
  by simp

lemma safe_clean_bindE: "clean m \<Longrightarrow> (\<And>x. safe R (f x)) \<Longrightarrow> safe R (bindE m f)"
  unfolding clean_def by (rule safe_bindE)

section \<open>The endpoint does not touch the heap\<close>

lemma clean_mem_read [clean_rules]: "clean (mem_read p n)"
  by (simp add: mem_read_def clean_rules split: option.split)

lemma clean_buffer [clean_rules]:
  "clean (data_at_oft b)" "clean (curat b)" "clean (read_bytes_x b n)" "clean (read_over bs b)" "clean (append_bb b p n)"
proof -
  show at: "clean (data_at_oft b)" unfolding data_at_oft_def by (intro clean_rules | simp)+
  show "clean (curat b)" unfolding curat_def by (intro clean_rules at | simp)+
  show rd: "clean (read_bytes_x b n)" for n unfolding read_bytes_x_def by (intro clean_rules at | simp)+
  show "clean (read_over bs b)" unfolding read_over_def by (intro clean_rules rd | simp)+
  show "clean (append_bb b p n)" unfolding append_bb_def by (intro clean_rules | simp)+
qed

lemma clean_split [clean_rules]: "clean (splitStr acc s d)"
  unfolding splitStr_def by (intro clean_rules | simp)+

lemma clean_handshake [clean_rules]: "clean (fetch_hs_element s p)" "clean (recv_handshake p b)"
proof -
  show fetch: "clean (fetch_hs_element s p)" for s p unfolding fetch_hs_element_def by (intro clean_rules | simp)+
  show "clean (recv_handshake p b)" unfolding recv_handshake_def by (intro clean_rules fetch | simp)+
qed

lemma clean_mask_loop [clean_rules]: "clean (mask_loop key i n v src dst)"
proof (induction n arbitrary: i v src dst)
  case (Suc n)
  show ?case unfolding mask_loop.simps by (intro clean_rules Suc.IH)
qed (simp add: clean_rules)

lemma clean_frame [clean_rules]:
  "clean (fetch_length p b)" "clean (fetch_frame_info p b)" "clean (fetch_payload p b)" "clean (recv_dataframe p b)"
proof -
  show len: "clean (fetch_length p b)" for p b unfolding fetch_length_def by (intro clean_rules)
  show info: "clean (fetch_frame_info p b)" unfolding fetch_frame_info_def by (intro clean_rules len)
  show payload: "clean (fetch_payload p b)" for p b unfolding fetch_payload_def by (intro clean_rules)
  show "clean (recv_dataframe p b)" unfolding recv_dataframe_def by (intro clean_rules info payload)
qed

lemma clean_pack [clean_rules]: "clean (set_payload q n p)" "clean (append_byte x b)" "clean (pack_dataframe p b)"
proof -
  show "clean (set_payload q n p)" unfolding set_payload_def by (intro clean_rules)
  show byte: "clean (append_byte x b)" for x b unfolding append_byte_def by (intro clean_rules)
  show "clean (pack_dataframe p b)" unfolding pack_dataframe_def by (intro clean_rules byte)
qed

text \<open>
  What the write callback keeps, the endpoint keeps: it changes the work data through the
  callback only.
\<close>

definition carries :: "'w write_cb \<Rightarrow> ('w \<Rightarrow> bool) \<Rightarrow> 'w WebSocketEndpoint \<Rightarrow> bool" where
  "carries cb P ep \<longleftrightarrow> nt_write_cb ep = Some cb \<and> (\<exists>w. nt_work_data ep = Some w \<and> P w)"

definition keeps :: "('w write_cb) \<Rightarrow> ('w \<Rightarrow> bool) \<Rightarrow> bool" where
  "keeps cb P \<longleftrightarrow> (\<forall>buf n w. P w \<longrightarrow> safe P (cb buf n w))"

lemma carries_simps [simp]:
  "carries cb P (ep\<lparr>fromwire_buf := b\<rparr>) = carries cb P ep" "carries cb P (ep\<lparr>message_data := b\<rparr>) = carries cb P ep"
  "carries cb P (ep\<lparr>ws_handshake_completed := x\<rparr>) = carries cb P ep"
  by (simp_all add: carries_def)

lemma to_wire_carries: "keeps cb P \<Longrightarrow> carries cb P ep \<Longrightarrow> safe (carries cb P) (to_wire p n ep)"
  by (auto simp: to_wire_def carries_def keeps_def split: option.split intro!: safe_bindE)

lemma process_message_data_carries:
  assumes "keeps cb P" and "carries cb P ep"
  shows "safe (carries cb P) (process_message_data g p b ep)"
proof -
  have "safe (carries cb P) (user_defined_process g p b ep)"
    unfolding user_defined_process_def Let_def
    by (rule safe_clean_bindE, intro clean_rules, simp)
      (intro safe_clean_bindE clean_rules, auto intro!: to_wire_carries assms)
  with assms(2) show ?thesis by (simp add: process_message_data_def Let_def)
qed

lemma parse_packet_carries:
  assumes k: "keeps cb P" and c: "carries cb P ep"
  shows "safe (\<lambda>(n, ep). carries cb P ep) (parse_packet g g' ep)"
proof (cases "ws_handshake_completed ep")
  case False
  have "safe (\<lambda>(n, ep). carries cb P ep) (bindE (to_wire p n (ep\<lparr>fromwire_buf := b\<rparr>)) (\<lambda>ep. Inr (m, ep\<lparr>ws_handshake_completed := True\<rparr>)))" for p n b m
    by (rule safe_bindE [OF to_wire_carries [OF k]]) (simp_all add: c)
  with False c show ?thesis unfolding parse_packet_def
    by (simp add: Let_def) (rule safe_clean_bindE, intro clean_rules, auto simp: Let_def)
next
  case True
  have "safe (\<lambda>(n, ep). carries cb P ep) (bindE (process_message_data g' p b (ep\<lparr>fromwire_buf := b1, message_data := b2\<rparr>))
      (\<lambda>ep. Inr (m, ep\<lparr>message_data := f ep\<rparr>)))" for p b b1 b2 f and m :: int
    by (rule safe_bindE [OF process_message_data_carries [OF k]]) (simp_all add: c)
  then have tail: "safe (\<lambda>(n, ep). carries cb P ep) (if pk_fin p = 1 then bindE (process_message_data g' p b2 (ep\<lparr>fromwire_buf := b1, message_data := b2\<rparr>))
      (\<lambda>ep. Inr (m, ep\<lparr>message_data := f ep\<rparr>)) else Inr (m, ep\<lparr>fromwire_buf := b1, message_data := b2\<rparr>))" for p b1 b2 f and m :: int
    using c by simp
  have "safe (\<lambda>(n, ep). carries cb P ep) (bindE (append_bb b q k) (\<lambda>b2.
      if pk_fin p = 1 then bindE (process_message_data g' p b2 (ep\<lparr>fromwire_buf := b1, message_data := b2\<rparr>))
        (\<lambda>ep. Inr (m, ep\<lparr>message_data := f ep\<rparr>)) else Inr (m, ep\<lparr>fromwire_buf := b1, message_data := b2\<rparr>)))" for p b b1 q k f and m :: int
    by (rule safe_clean_bindE [OF clean_buffer(5) tail])
  with True c show ?thesis unfolding parse_packet_def
    by (simp add: Let_def) (rule safe_clean_bindE [OF clean_frame(4)], auto simp: Let_def cong: if_cong)
qed

lemma from_wire_loop_carries:
  assumes k: "keeps cb P"
  shows "from_wire_loop gs n ep = Some r \<Longrightarrow> carries cb P ep \<Longrightarrow> safe (\<lambda>(n, ep). carries cb P ep) r"
proof -
  assume "from_wire_loop gs n ep = Some r"
  then have "carries cb P ep \<longrightarrow> safe (\<lambda>(n, ep). carries cb P ep) r"
  proof (rule from_wire_loop.raw_induct [rotated])
    fix loop and gs :: "nat \<Rightarrow> garbage \<times> garbage" and n and ep :: "'a WebSocketEndpoint" and r
    assume IH: "\<And>gs n ep r. loop gs n ep = Some r \<Longrightarrow> carries cb P ep \<longrightarrow> safe (\<lambda>(n, ep). carries cb P ep) r"
      and r: "(case parse_packet (fst (gs n)) (snd (gs n)) ep of Inl e \<Rightarrow> Some (Inl e)
        | Inr (nrcv, ep) \<Rightarrow>
            if 0 < nrcv then
              let ep = ep\<lparr>fromwire_buf := resetoft (erase_bb (fromwire_buf ep) (to_int32 nrcv))\<rparr>
              in if length_bb (fromwire_buf ep) = 0 then Some (Inr (to_int32 nrcv, ep)) else loop gs (Suc n) ep
            else if nrcv = 0 then Some (Inr (0, ep\<lparr>fromwire_buf := resetoft (fromwire_buf ep)\<rparr>))
            else Some (Inr (- 1, ep))) = Some r"
    show "carries cb P ep \<longrightarrow> safe (\<lambda>(n, ep). carries cb P ep) r"
    proof
      assume c: "carries cb P ep"
      note parse = parse_packet_carries [OF k c, of "fst (gs n)" "snd (gs n)"]
      show "safe (\<lambda>(n, ep). carries cb P ep) r"
      proof (cases "parse_packet (fst (gs n)) (snd (gs n)) ep")
        case (Inl e)
        with parse r show ?thesis by auto
      next
        case (Inr x)
        with parse r IH show ?thesis by (cases x) (auto simp: Let_def split: if_splits)
      qed
    qed
  qed
  then show "carries cb P ep \<Longrightarrow> safe (\<lambda>(n, ep). carries cb P ep) r" by blast
qed

lemma process_cb_carries:
  assumes k: "keeps cb P" and w: "P w"
  shows "safe (\<lambda>(n, ep). carries cb P ep) (process_cb gs p n (Some cb) (Some w) ep)"
proof -
  have "carries cb P (ep\<lparr>nt_write_cb := Some cb, nt_work_data := Some w\<rparr>)" using w by (simp add: carries_def)
  then have c: "carries cb P (ep\<lparr>nt_write_cb := Some cb, nt_work_data := Some w, fromwire_buf := b\<rparr>)" for b
    by (simp add: carries_def)
  have "safe (\<lambda>(n, ep). carries cb P ep) (from_wire gs p n (ep\<lparr>nt_write_cb := Some cb, nt_work_data := Some w\<rparr>))"
    unfolding from_wire_def
    by (rule safe_clean_bindE [OF clean_buffer(5)]) (auto split: option.split intro: from_wire_loop_carries [OF k _ c])
  then show ?thesis by (simp add: process_cb_def)
qed

section \<open>Ownership\<close>

text \<open>
  A request holds its work data, and work data own the two blocks of their request and response.
\<close>

definition holds :: "memory \<Rightarrow> addr \<Rightarrow> addr \<Rightarrow> bool" where
  "holds m r wd \<longleftrightarrow> work_reqs m r = Some (Some wd) \<or> write_reqs m r = Some (Some wd)"

definition owns :: "memory \<Rightarrow> addr \<Rightarrow> addr \<Rightarrow> bool" where
  "owns m wd a \<longleftrightarrow> (\<exists>w. works m wd = Some w \<and> (buf_base (wd_request w) = Some a \<or> buf_base (wd_response w) = Some a))"

text \<open>Every request holds work data of its own, all work data are held, and every block has one owner.\<close>

definition owned_memory :: "memory \<Rightarrow> bool" where
  "owned_memory m \<longleftrightarrow> fresh_memory m \<and>
     (\<forall>r x. work_reqs m r = Some x \<or> write_reqs m r = Some x \<longrightarrow> (\<exists>wd. x = Some wd \<and> works m wd \<noteq> None)) \<and>
     (\<forall>r. work_reqs m r = None \<or> write_reqs m r = None) \<and>
     (\<forall>wd. works m wd \<noteq> None \<longrightarrow> (\<exists>r. holds m r wd)) \<and>
     (\<forall>r r' wd. holds m r wd \<longrightarrow> holds m r' wd \<longrightarrow> r = r') \<and>
     (\<forall>a. blocks m a \<noteq> None \<longleftrightarrow> (\<exists>wd. owns m wd a)) \<and>
     (\<forall>wd wd' a. owns m wd a \<longrightarrow> owns m wd' a \<longrightarrow> wd = wd') \<and>
     (\<forall>wd w a. works m wd = Some w \<longrightarrow> buf_base (wd_request w) = Some a \<longrightarrow> buf_base (wd_response w) \<noteq> Some a)"

lemma owned_memoryD:
  assumes "owned_memory m"
  shows "fresh_memory m"
    and "work_reqs m r = Some x \<Longrightarrow> \<exists>wd w. x = Some wd \<and> works m wd = Some w"
    and "write_reqs m r = Some x \<Longrightarrow> \<exists>wd w. x = Some wd \<and> works m wd = Some w"
    and "work_reqs m r = None \<or> write_reqs m r = None"
    and "works m wd = Some w \<Longrightarrow> \<exists>r. holds m r wd"
    and "holds m r wd \<Longrightarrow> holds m r' wd \<Longrightarrow> r = r'"
    and "owns m wd a \<Longrightarrow> \<exists>bs. blocks m a = Some bs"
    and "blocks m a = Some bs \<Longrightarrow> \<exists>wd. owns m wd a"
    and "owns m wd a \<Longrightarrow> owns m wd' a \<Longrightarrow> wd = wd'"
    and "works m wd = Some w \<Longrightarrow> buf_base (wd_request w) = Some a \<Longrightarrow> buf_base (wd_response w) \<noteq> Some a"
proof -
  note parts = assms [unfolded owned_memory_def]
  show "fresh_memory m" using parts by (elim conjE)
  have "work_reqs m r = Some x \<or> write_reqs m r = Some x \<Longrightarrow> \<exists>wd. x = Some wd \<and> works m wd \<noteq> None"
    using parts by (elim conjE allE [of _ r] allE [of _ x]) blast
  then show "work_reqs m r = Some x \<Longrightarrow> \<exists>wd w. x = Some wd \<and> works m wd = Some w"
    and "write_reqs m r = Some x \<Longrightarrow> \<exists>wd w. x = Some wd \<and> works m wd = Some w" by auto
  show "work_reqs m r = None \<or> write_reqs m r = None" using parts by (elim conjE) simp
  show "works m wd = Some w \<Longrightarrow> \<exists>r. holds m r wd" using parts by (elim conjE) simp
  show "holds m r wd \<Longrightarrow> holds m r' wd \<Longrightarrow> r = r'" using parts by (elim conjE) metis
  show "owns m wd a \<Longrightarrow> \<exists>bs. blocks m a = Some bs" using parts by (elim conjE) auto
  show "blocks m a = Some bs \<Longrightarrow> \<exists>wd. owns m wd a" using parts by (elim conjE) (metis option.distinct(1))
  show "owns m wd a \<Longrightarrow> owns m wd' a \<Longrightarrow> wd = wd'" using parts by (elim conjE) metis
  show "works m wd = Some w \<Longrightarrow> buf_base (wd_request w) = Some a \<Longrightarrow> buf_base (wd_response w) \<noteq> Some a"
    using parts by (elim conjE) metis
qed

lemma fresh_memoryD:
  assumes "fresh_memory m" and "next_addr m \<le> a"
  shows "blocks m a = None" and "works m a = None" and "work_reqs m a = None" and "write_reqs m a = None"
    and "clients m a = None" and "peers m a = None"
  using assms by (simp_all add: fresh_memory_def)

lemma owned_blocks: "owned_memory m \<Longrightarrow> (\<exists>bs. blocks m a = Some bs) \<longleftrightarrow> (\<exists>wd. owns m wd a)"
  using owned_memoryD(7,8) by blast

text \<open>What a request holds and work data own lies below the next address.\<close>

lemma owned_used:
  assumes "owned_memory m" and "owns m wd a"
  shows "a < next_addr m" and "wd < next_addr m"
proof -
  from owned_memoryD(7) [OF assms] fresh_memoryD(1) [OF owned_memoryD(1) [OF assms(1)]] show "a < next_addr m"
    by (metis leI option.distinct(1))
  from assms(2) fresh_memoryD(2) [OF owned_memoryD(1) [OF assms(1)]] show "wd < next_addr m"
    by (metis leI option.distinct(1) owns_def)
qed

lemma held_used:
  assumes "owned_memory m" and "holds m r wd"
  shows "r < next_addr m" and "wd < next_addr m" and "\<exists>w. works m wd = Some w"
proof -
  note fresh = fresh_memoryD [OF owned_memoryD(1) [OF assms(1)]]
  show "r < next_addr m" using assms(2) fresh(3,4) [of r] by (auto simp: holds_def not_le [symmetric])
  show w: "\<exists>w. works m wd = Some w"
    using assms(2) owned_memoryD(2,3) [OF assms(1), of r "Some wd"] by (auto simp: holds_def)
  show "wd < next_addr m" using w fresh(2) [of wd] by (auto simp: not_le [symmetric])
qed

text \<open>A new request with new work data, and a new block or none.\<close>

lemma owned_new_job:
  assumes m: "owned_memory m" and new: "next_addr m \<le> r" "next_addr m \<le> wd" "r < n" "wd < n"
    and w: "buf_base (wd_response w) = None"
    and m': "next_addr m' = n" "works m' = (works m)(wd \<mapsto> w)"
      "work_reqs m' = (work_reqs m)(r \<mapsto> Some wd)" "write_reqs m' = write_reqs m" "clients m' = clients m"
      "dom (peers m') = dom (peers m)"
    and block: "case buf_base (wd_request w) of None \<Rightarrow> blocks m' = blocks m
      | Some a \<Rightarrow> next_addr m \<le> a \<and> a < n \<and> blocks m' = (blocks m)(a \<mapsto> bs)"
  shows "owned_memory m'"
proof -
  note fresh = fresh_memoryD [OF owned_memoryD(1) [OF m]]
  note used = owned_used [OF m] held_used [OF m]
  have holds': "holds m' r' wd' \<longleftrightarrow> holds m r' wd' \<or> (r' = r \<and> wd' = wd)" for r' wd'
    using new fresh(3,4) [of r] by (auto simp: holds_def m')
  have owns': "owns m' wd' a' \<longleftrightarrow> owns m wd' a' \<or> (wd' = wd \<and> buf_base (wd_request w) = Some a')" for wd' a'
    using new fresh(2) [of wd] by (auto simp: owns_def m' w)
  have unheld: "\<not> holds m r' wd" for r' using used(4) [of r' wd] new(2) by auto
  have unowned: "buf_base (wd_request w) = Some a \<Longrightarrow> \<not> owns m wd' a" for wd' a
    using used(1) [of wd' a] block by auto
  have blocks': "(\<exists>bs. blocks m' a = Some bs) \<longleftrightarrow> (\<exists>bs. blocks m a = Some bs) \<or> buf_base (wd_request w) = Some a" for a
    using block by (auto split: option.splits)
  have "peers m' a = None" if "n \<le> a" for a
    using fresh(6) [of a] m'(6) new that by (metis domIff le_trans less_imp_le)
  then have "fresh_memory m'"
    using fresh new block unfolding fresh_memory_def m' by (auto split: option.splits)
  moreover have "\<forall>r x. work_reqs m' r = Some x \<or> write_reqs m' r = Some x \<longrightarrow> (\<exists>wd. x = Some wd \<and> works m' wd \<noteq> None)"
    using owned_memoryD(2) [OF m] owned_memoryD(3) [OF m] unfolding m' by (fastforce split: if_splits)
  moreover have "\<forall>r. work_reqs m' r = None \<or> write_reqs m' r = None"
    using owned_memoryD(4) [OF m] fresh(4) [OF new(1)] by (simp add: m')
  moreover have "\<forall>wd. works m' wd \<noteq> None \<longrightarrow> (\<exists>r. holds m' r wd)"
    using owned_memoryD(5) [OF m] by (fastforce simp: m'(2) holds')
  moreover have "\<forall>r r' wd. holds m' r wd \<longrightarrow> holds m' r' wd \<longrightarrow> r = r'"
    using owned_memoryD(6) [OF m] unheld by (auto simp: holds')
  moreover have "\<forall>a. blocks m' a \<noteq> None \<longleftrightarrow> (\<exists>wd. owns m' wd a)"
    using owned_blocks [OF m] blocks' by (auto simp: owns')
  moreover have "\<forall>wd wd' a. owns m' wd a \<longrightarrow> owns m' wd' a \<longrightarrow> wd = wd'"
    using owned_memoryD(9) [OF m] unowned by (auto simp: owns')
  moreover have "\<forall>wd w a. works m' wd = Some w \<longrightarrow> buf_base (wd_request w) = Some a \<longrightarrow> buf_base (wd_response w) \<noteq> Some a"
    using owned_memoryD(10) [OF m] w by (auto simp: m'(2))
  ultimately show ?thesis unfolding owned_memory_def by blast
qed

text \<open>Work data get a response, or none.\<close>

lemma owned_response:
  assumes m: "owned_memory m" and w: "works m wd = Some w" "buf_base (wd_response w) = None"
    and m': "works m' = (works m)(wd \<mapsto> w\<lparr>wd_response := resp\<rparr>)" "work_reqs m' = work_reqs m" "write_reqs m' = write_reqs m"
      "clients m' = clients m" "peers m' = peers m" "next_addr m \<le> next_addr m'"
    and resp: "case buf_base resp of None \<Rightarrow> blocks m' = blocks m
      | Some b \<Rightarrow> next_addr m \<le> b \<and> b < next_addr m' \<and> blocks m' = (blocks m)(b \<mapsto> bs)"
  shows "owned_memory m'"
proof -
  note fresh = fresh_memoryD [OF owned_memoryD(1) [OF m]]
  have wd: "wd < next_addr m" using fresh(2) [of wd] w by (auto simp: not_le [symmetric])
  have holds': "holds m' r' wd' \<longleftrightarrow> holds m r' wd'" for r' wd' by (simp add: holds_def m')
  have owns': "owns m' wd' a' \<longleftrightarrow> owns m wd' a' \<or> (wd' = wd \<and> buf_base resp = Some a')" for wd' a'
    using w by (auto simp: owns_def m')
  have new: "buf_base resp = Some b \<Longrightarrow> next_addr m \<le> b" for b using resp by simp
  have unowned: "buf_base resp = Some b \<Longrightarrow> \<not> owns m wd' b" for wd' b
    using owned_used(1) [OF m, of wd' b] new [of b] by auto
  have blocks': "(\<exists>bs. blocks m' a = Some bs) \<longleftrightarrow> (\<exists>bs. blocks m a = Some bs) \<or> buf_base resp = Some a" for a
    using resp by (auto split: option.splits)
  have "fresh_memory m'"
    using fresh wd m' resp unfolding fresh_memory_def by (auto split: option.splits)
  moreover have "\<forall>r x. work_reqs m' r = Some x \<or> write_reqs m' r = Some x \<longrightarrow> (\<exists>wd. x = Some wd \<and> works m' wd \<noteq> None)"
    using owned_memoryD(2) [OF m] owned_memoryD(3) [OF m] unfolding m' by (fastforce split: if_splits)
  moreover have "\<forall>r. work_reqs m' r = None \<or> write_reqs m' r = None"
    using owned_memoryD(4) [OF m] by (simp add: m')
  moreover have "\<forall>wd. works m' wd \<noteq> None \<longrightarrow> (\<exists>r. holds m' r wd)"
    using owned_memoryD(5) [OF m] w(1) by (fastforce simp: m'(1) holds' split: if_splits)
  moreover have "\<forall>r r' wd. holds m' r wd \<longrightarrow> holds m' r' wd \<longrightarrow> r = r'"
    using owned_memoryD(6) [OF m] by (simp add: holds')
  moreover have "\<forall>a. blocks m' a \<noteq> None \<longleftrightarrow> (\<exists>wd. owns m' wd a)"
    using owned_blocks [OF m] blocks' by (auto simp: owns')
  moreover have "\<forall>wd wd' a. owns m' wd a \<longrightarrow> owns m' wd' a \<longrightarrow> wd = wd'"
    using owned_memoryD(9) [OF m] unowned by (auto simp: owns')
  moreover have "\<forall>wd w a. works m' wd = Some w \<longrightarrow> buf_base (wd_request w) = Some a \<longrightarrow> buf_base (wd_response w) \<noteq> Some a"
  proof -
    have "buf_base (wd_request w) = Some a \<Longrightarrow> buf_base resp \<noteq> Some a" for a
      using unowned [of a wd] w(1) by (auto simp: owns_def)
    then show ?thesis using owned_memoryD(10) [OF m] by (auto simp: m'(1))
  qed
  ultimately show ?thesis unfolding owned_memory_def by blast
qed

text \<open>Another request, a write request, takes over the work data.\<close>

lemma owned_hand_over:
  assumes m: "owned_memory m" and r: "work_reqs m r = Some (Some wd)" and wr: "next_addr m \<le> wr" "wr < next_addr m'"
    and m': "works m' = works m" "work_reqs m' = (work_reqs m)(r := None)" "write_reqs m' = (write_reqs m)(wr \<mapsto> Some wd)"
      "clients m' = clients m" "peers m' = peers m" "blocks m' = blocks m"
  shows "owned_memory m'"
proof -
  note fresh = fresh_memoryD [OF owned_memoryD(1) [OF m]]
  have hr: "holds m r wd" using r by (simp add: holds_def)
  have "write_reqs m r = None" using owned_memoryD(4) [OF m, of r] r by simp
  then have "holds m' r' wd' \<longleftrightarrow> (if r' = wr then wd' = wd else r' \<noteq> r \<and> holds m r' wd')" for r' wd'
    using fresh(3,4) [OF wr(1)] r by (auto simp: holds_def m')
  then have holds': "holds m' r' wd' \<longleftrightarrow> (if wd' = wd then r' = wr else holds m r' wd')" for r' wd'
    using owned_memoryD(6) [OF m hr, of r'] held_used(1) [OF m, of r' wd'] wr(1) hr r \<open>write_reqs m r = None\<close>
    by (auto simp: holds_def)
  have owns': "owns m' wd' a' \<longleftrightarrow> owns m wd' a'" for wd' a' by (simp add: owns_def m')
  have "fresh_memory m'"
    using fresh wr m' unfolding fresh_memory_def by auto
  moreover have "\<forall>r x. work_reqs m' r = Some x \<or> write_reqs m' r = Some x \<longrightarrow> (\<exists>wd. x = Some wd \<and> works m' wd \<noteq> None)"
    using owned_memoryD(2) [OF m] owned_memoryD(3) [OF m] held_used(3) [OF m hr] unfolding m' by (fastforce split: if_splits)
  moreover have "\<forall>r. work_reqs m' r = None \<or> write_reqs m' r = None"
    using owned_memoryD(4) [OF m] fresh(3) [OF wr(1)] by (simp add: m')
  moreover have "\<forall>wd. works m' wd \<noteq> None \<longrightarrow> (\<exists>r. holds m' r wd)"
    using owned_memoryD(5) [OF m] by (auto simp: m'(1) holds')
  moreover have "\<forall>r r' wd. holds m' r wd \<longrightarrow> holds m' r' wd \<longrightarrow> r = r'"
    using owned_memoryD(6) [OF m] by (auto simp: holds')
  moreover have "\<forall>a. blocks m' a \<noteq> None \<longleftrightarrow> (\<exists>wd. owns m' wd a)"
    using owned_blocks [OF m] by (simp add: owns' m'(6))
  moreover have "\<forall>wd wd' a. owns m' wd a \<longrightarrow> owns m' wd' a \<longrightarrow> wd = wd'"
    using owned_memoryD(9) [OF m] by (simp add: owns')
  moreover have "\<forall>wd w a. works m' wd = Some w \<longrightarrow> buf_base (wd_request w) = Some a \<longrightarrow> buf_base (wd_response w) \<noteq> Some a"
    using owned_memoryD(10) [OF m] by (auto simp: m'(1))
  ultimately show ?thesis unfolding owned_memory_def by blast
qed

text \<open>A request is done with: it, its work data and their blocks are freed.\<close>

lemma owned_drop:
  assumes m: "owned_memory m" and r: "holds m r wd"
    and m': "works m' = (works m)(wd := None)" "work_reqs m' = (work_reqs m)(r := None)" "write_reqs m' = (write_reqs m)(r := None)"
      "dom (clients m') \<subseteq> dom (clients m)" "dom (peers m') \<subseteq> dom (peers m)" "next_addr m' = next_addr m"
      "\<And>a. blocks m' a = (if owns m wd a then None else blocks m a)"
  shows "owned_memory m'"
proof -
  note fresh = fresh_memoryD [OF owned_memoryD(1) [OF m]]
  have holds': "holds m' r' wd' \<longleftrightarrow> wd' \<noteq> wd \<and> holds m r' wd'" for r' wd'
  proof -
    have "holds m' r' wd' \<longleftrightarrow> r' \<noteq> r \<and> holds m r' wd'" by (auto simp: holds_def m')
    moreover have "holds m r wd' \<Longrightarrow> wd' = wd"
      using r owned_memoryD(4) [OF m, of r] by (auto simp: holds_def)
    moreover have "holds m r' wd \<Longrightarrow> r' = r" using owned_memoryD(6) [OF m r] by simp
    ultimately show ?thesis by metis
  qed
  have owns': "owns m' wd' a' \<longleftrightarrow> wd' \<noteq> wd \<and> owns m wd' a'" for wd' a' by (simp add: owns_def m')
  have "clients m' a = None" "peers m' a = None" if "next_addr m \<le> a" for a
    using fresh(5,6) [OF that] m'(4,5) by (auto simp: subset_iff domIff)
  then have "fresh_memory m'"
    using fresh unfolding fresh_memory_def m'(1-3,6,7) by auto
  moreover have "\<forall>r x. work_reqs m' r = Some x \<or> write_reqs m' r = Some x \<longrightarrow> (\<exists>wd. x = Some wd \<and> works m' wd \<noteq> None)"
  proof (intro allI impI)
    fix r' x assume "work_reqs m' r' = Some x \<or> write_reqs m' r' = Some x"
    then have x: "r' \<noteq> r" "work_reqs m r' = Some x \<or> write_reqs m r' = Some x" by (auto simp: m' split: if_splits)
    then obtain wd' w' where "x = Some wd'" "works m wd' = Some w'"
      using owned_memoryD(2,3) [OF m, of r' x] by blast
    moreover have "wd' \<noteq> wd" using owned_memoryD(6) [OF m r, of r'] x \<open>x = Some wd'\<close> by (auto simp: holds_def)
    ultimately show "\<exists>wd. x = Some wd \<and> works m' wd \<noteq> None" by (simp add: m'(1))
  qed
  moreover have "\<forall>r. work_reqs m' r = None \<or> write_reqs m' r = None"
    using owned_memoryD(4) [OF m] by (simp add: m')
  moreover have "\<forall>wd. works m' wd \<noteq> None \<longrightarrow> (\<exists>r. holds m' r wd)"
    using owned_memoryD(5) [OF m] by (auto simp: m'(1) holds')
  moreover have "\<forall>r r' wd. holds m' r wd \<longrightarrow> holds m' r' wd \<longrightarrow> r = r'"
    using owned_memoryD(6) [OF m] by (auto simp: holds')
  moreover have "\<forall>a. blocks m' a \<noteq> None \<longleftrightarrow> (\<exists>wd. owns m' wd a)"
    using owned_blocks [OF m] owned_memoryD(9) [OF m, of wd] by (auto simp: owns' m'(7)) metis
  moreover have "\<forall>wd wd' a. owns m' wd a \<longrightarrow> owns m' wd' a \<longrightarrow> wd = wd'"
    using owned_memoryD(9) [OF m] by (auto simp: owns')
  moreover have "\<forall>wd w a. works m' wd = Some w \<longrightarrow> buf_base (wd_request w) = Some a \<longrightarrow> buf_base (wd_response w) \<noteq> Some a"
    using owned_memoryD(10) [OF m] by (auto simp: m'(1))
  ultimately show ?thesis unfolding owned_memory_def by blast
qed

section \<open>The callbacks keep the ownership\<close>

lemma safe_malloc: "safe R (f (next_addr m, m\<lparr>next_addr := Suc (next_addr m)\<rparr>)) \<Longrightarrow> safe R (bindE (xmalloc sz m) f)"
  by (simp add: xmalloc_def fail_def)

lemma xmalloc_cases: "xmalloc sz m = Inl Exit_failure \<or> xmalloc sz m = Inr (next_addr m, m\<lparr>next_addr := Suc (next_addr m)\<rparr>)"
  by (simp add: xmalloc_def fail_def)

text \<open>The write callback stores at most one response, in a block of its own.\<close>

definition answered :: "addr \<Rightarrow> peer_work_data_t \<Rightarrow> memory \<Rightarrow> addr \<times> memory \<Rightarrow> bool" where
  "answered wd w m = (\<lambda>(wd', m'). wd' = wd \<and>
     (\<exists>resp bs. works m' = (works m)(wd \<mapsto> w\<lparr>wd_response := resp\<rparr>) \<and> work_reqs m' = work_reqs m \<and>
        write_reqs m' = write_reqs m \<and> clients m' = clients m \<and> peers m' = peers m \<and> next_addr m \<le> next_addr m' \<and>
        (case buf_base resp of None \<Rightarrow> blocks m' = blocks m
         | Some b \<Rightarrow> next_addr m \<le> b \<and> b < next_addr m' \<and> blocks m' = (blocks m)(b \<mapsto> bs))))"

lemma answered_start:
  assumes "works m wd = Some w" and "buf_base (wd_response w) = None"
  shows "answered wd w m (wd, m)"
proof -
  have "works m = (works m)(wd \<mapsto> w\<lparr>wd_response := wd_response w\<rparr>)" using assms(1) by (simp add: map_upd_triv)
  then show ?thesis unfolding answered_def using assms(2) by (auto intro!: exI [of _ "wd_response w"])
qed

lemma answered_owned:
  assumes "owned_memory m" and "works m wd = Some w" and "buf_base (wd_response w) = None" and "answered wd w m (wd', m')"
  shows "owned_memory m'"
proof -
  obtain resp bs where "works m' = (works m)(wd \<mapsto> w\<lparr>wd_response := resp\<rparr>)" "work_reqs m' = work_reqs m"
    "write_reqs m' = write_reqs m" "clients m' = clients m" "peers m' = peers m" "next_addr m \<le> next_addr m'"
    "case buf_base resp of None \<Rightarrow> blocks m' = blocks m
      | Some b \<Rightarrow> next_addr m \<le> b \<and> b < next_addr m' \<and> blocks m' = (blocks m)(b \<mapsto> bs)"
    using assms(4) by (auto simp: answered_def)
  from owned_response [OF assms(1-3) this] show ?thesis .
qed

lemma uv_buf_alloc_cpy_safe:
  "safe (\<lambda>(rc, d, m'). (rc = - 2 \<and> d = dst \<and> m' = m) \<or>
      (\<exists>bs. rc = returned \<and> buf_base d = Some (next_addr m) \<and>
        m' = m\<lparr>next_addr := Suc (next_addr m), blocks := (blocks m)(next_addr m \<mapsto> bs)\<rparr>))
    (uv_buf_alloc_cpy returned dst (Some (p, len)) sz m)"
  unfolding uv_buf_alloc_cpy_def
  by (simp, intro impI safe_malloc) (auto simp: mem_read_def split: option.split)

lemma on_write_response_keeps: "keeps (on_write_response returned) (answered wd w m)"
  unfolding keeps_def
proof (intro allI impI)
  fix buf n and x :: "addr \<times> memory"
  assume a: "answered wd w m x"
  obtain m1 where x: "x = (wd, m1)" using a by (cases x) (auto simp: answered_def)
  from a obtain resp bs where r: "works m1 = (works m)(wd \<mapsto> w\<lparr>wd_response := resp\<rparr>)" "work_reqs m1 = work_reqs m"
    "write_reqs m1 = write_reqs m" "clients m1 = clients m" "peers m1 = peers m" "next_addr m \<le> next_addr m1"
    "case buf_base resp of None \<Rightarrow> blocks m1 = blocks m
      | Some b \<Rightarrow> next_addr m \<le> b \<and> b < next_addr m1 \<and> blocks m1 = (blocks m)(b \<mapsto> bs)"
    by (auto simp: x answered_def)
  show "safe (answered wd w m) (on_write_response returned buf n x)"
  proof (cases "buf_base resp")
    case (Some b)
    with r(1) show ?thesis by (simp add: x on_write_response_def fail_def)
  next
    case None
    let ?put = "\<lambda>m' resp. (wd, m'\<lparr>works := (works m)(wd \<mapsto> w\<lparr>wd_response := resp\<rparr>)\<rparr>)"
    have "answered wd w m (?put m1 (uv_buf_init None 0))"
      using r None by (auto simp: answered_def intro!: exI [of _ "uv_buf_init None 0"])
    moreover have "answered wd w m (?put (m1\<lparr>next_addr := Suc (next_addr m1), blocks := (blocks m1)(next_addr m1 \<mapsto> bs)\<rparr>) d)"
      if "buf_base d = Some (next_addr m1)" for d bs
      using r None that by (auto simp: answered_def intro!: exI [of _ d] exI [of _ bs])
    ultimately show ?thesis
      using r None unfolding x on_write_response_def
      by (auto simp: Let_def intro!: safe_bindE [OF uv_buf_alloc_cpy_safe])
  qed
qed

text \<open>Reading: a request with work data and a copy of the bytes, or nothing.\<close>

lemma uv_buf_alloc_cpy_fits:
  assumes "\<not> len < word_of_int sz"
  shows "safe (\<lambda>(rc, d, m'). \<exists>bs. rc = returned \<and> buf_base d = Some (next_addr m) \<and>
        m' = m\<lparr>next_addr := Suc (next_addr m), blocks := (blocks m)(next_addr m \<mapsto> bs)\<rparr>)
    (uv_buf_alloc_cpy returned dst (Some (p, len)) sz m)"
  using assms unfolding uv_buf_alloc_cpy_def
  by (simp, intro safe_malloc) (auto simp: mem_read_def split: option.split)

definition new_job :: "addr \<Rightarrow> addr option \<Rightarrow> memory \<Rightarrow> addr \<Rightarrow> memory \<Rightarrow> bool" where
  "new_job c e m a m' \<longleftrightarrow> (\<exists>w bs. m' = m\<lparr>next_addr := a + 3, blocks := (blocks m)(a + 2 \<mapsto> bs),
       works := (works m)(a + 1 \<mapsto> w), work_reqs := (work_reqs m)(a \<mapsto> Some (a + 1))\<rparr> \<and>
     wd_uvclient w = Some c \<and> wd_endpoint w = e \<and> buf_base (wd_request w) = Some (a + 2) \<and> buf_base (wd_response w) = None)"

lemma safeE:
  assumes "safe R r"
  obtains e where "r = Inl e" and "e \<notin> heap_faults" | x where "r = Inr x" and "R x"
  using assms by (cases r) auto

lemma alloc_work_req_safe:
  assumes ret: "0 \<le> returned" and ps: "ps_uvclient ps = Some c" and b: "blocks m b = Some bs"
    and n: "\<not> buf_len buf < word_of_int n" "to_int32 n = n" and buf: "buf_base buf = Some b"
  shows "safe (\<lambda>(r, m'). r = Some (next_addr m) \<and> new_job c (ps_endpoint ps) m (next_addr m) m')
    (alloc_work_req returned junk ps n buf 1 m)"
proof -
  let ?m1 = "m\<lparr>next_addr := Suc (next_addr m)\<rparr>" and ?m2 = "m\<lparr>next_addr := Suc (Suc (next_addr m))\<rparr>"
  consider "xmalloc sizeof_struct m = Inl Exit_failure"
    | "xmalloc sizeof_struct m = Inr (next_addr m, ?m1)" "xmalloc sizeof_struct ?m1 = Inl Exit_failure"
    | "xmalloc sizeof_struct m = Inr (next_addr m, ?m1)" "xmalloc sizeof_struct ?m1 = Inr (Suc (next_addr m), ?m2)"
    using xmalloc_cases [of sizeof_struct m] xmalloc_cases [of sizeof_struct ?m1] by auto
  then show ?thesis
  proof cases
    case 3
    from uv_buf_alloc_cpy_fits [OF n(1), of returned ?m2 "uv_buf_init None 0" "Some bs"] show ?thesis
    proof (cases rule: safeE)
      case (1 e)
      with 3 n buf b show ?thesis by (simp add: alloc_work_req_def Let_def block_ptr_def)
    next
      case (2 x)
      then obtain d bs' where d: "uv_buf_alloc_cpy returned (uv_buf_init None 0) (Some (Some bs, buf_len buf)) n ?m2 =
          Inr (returned, d, ?m2\<lparr>next_addr := Suc (next_addr ?m2), blocks := (blocks m)(next_addr ?m2 \<mapsto> bs')\<rparr>)"
        "buf_base d = Some (next_addr ?m2)" by auto
      with 3 n buf b ret ps show ?thesis
        by (auto simp: alloc_work_req_def Let_def block_ptr_def new_job_def new_work_fold eval_nat_numeral
            intro!: exI [of _ "new_work junk c (ps_endpoint ps) d 1"] exI [of _ bs'])
    qed
  qed (simp_all add: alloc_work_req_def)
qed

lemma read_job:
  assumes "clients m c = Some (Some p)" and "peers m p = Some ps" and "0 \<le> returned" and "0 \<le> n" and "wf_read n bs"
    and "buf = \<lparr>buf_base = Some b, buf_len = word_of_nat (length bs)\<rparr>" and "blocks m b = Some bs"
  shows "safe (\<lambda>(w, m'). if n = 0 then w = None \<and> m' = m\<lparr>blocks := (blocks m)(b := None)\<rparr>
      else w = Some (next_addr m, Submitted_work) \<and>
        (\<exists>m1. new_job c (ps_endpoint ps) (m\<lparr>peers := (peers m)(p \<mapsto> ps\<lparr>ps_uvclient := Some c\<rparr>)\<rparr>) (next_addr m) m1 \<and>
          m' = m1\<lparr>blocks := (blocks m1)(b := None)\<rparr>))
    (on_peer_read returned junk rc c n buf m)"
proof (cases "n = 0")
  case True
  with assms show ?thesis by (simp add: on_peer_read_def free_block_def)
next
  case False
  let ?ps = "ps\<lparr>ps_uvclient := Some c\<rparr>"
  let ?m = "m\<lparr>peers := (peers m)(p \<mapsto> ?ps)\<rparr>"
  have n: "0 < n" "n \<le> int (length bs)" "length bs < 2 ^ 31" using assms(4,5) False by (simp_all add: wf_read_def)
  then have "to_int32 n = n" using to_int32_of_nat [of "nat n"] by simp
  moreover have fits: "\<not> (word_of_nat (length bs) :: u64) < word_of_int n"
  proof -
    have word: "uint (word_of_int k :: u64) = k" if "0 \<le> k" "k < 2 ^ 31" for k :: int
      using that by (simp add: uint_word_of_int)
    have "\<not> uint (word_of_int (int (length bs)) :: u64) < uint (word_of_int n :: u64)"
      using word [of n] word [of "int (length bs)"] n by simp
    then show ?thesis by (simp add: word_less_def)
  qed
  ultimately have alloc: "safe (\<lambda>(r, m'). r = Some (next_addr m) \<and> new_job c (ps_endpoint ?ps) ?m (next_addr m) m')
      (alloc_work_req returned junk ?ps n buf 1 ?m)" if "blocks m b = Some bs"
    using alloc_work_req_safe [of returned ?ps c ?m b bs buf n] assms(3,6,7) by simp
  have later: "safe (\<lambda>(w, m'). w = Some (next_addr m, Submitted_work) \<and>
        (\<exists>m1. new_job c (ps_endpoint ps) ?m (next_addr m) m1 \<and> m' = m1\<lparr>blocks := (blocks m1)(b := None)\<rparr>))
      (bindE (bindE (uv_queue_work rc (Some (next_addr m)) Submitted_work) (\<lambda>w. Inr (Some w, m1)))
        (\<lambda>(w, m). bindE (free_block (buf_base buf) m) (\<lambda>m. Inr (w, m))))"
    if "new_job c (ps_endpoint ps) ?m (next_addr m) m1" for m1
  proof -
    have "\<exists>bs. blocks m1 b = Some bs" using that assms(7) by (auto simp: new_job_def)
    then show ?thesis using that assms(6) by (auto simp: uv_queue_work_def free_block_def fail_def)
  qed
  have run: "on_peer_read returned junk rc c n buf m =
      bindE (bindE (alloc_work_req returned junk ?ps n buf 1 ?m) (\<lambda>(work_req, m).
          bindE (uv_queue_work rc work_req Submitted_work) (\<lambda>w. Inr (Some w, m))))
        (\<lambda>(w, m). bindE (free_block (buf_base buf) m) (\<lambda>m. Inr (w, m)))"
    using n(1) fits assms(1,2,6) by (simp add: on_peer_read_def Let_def)
  from alloc [OF assms(7)] show ?thesis
  proof (cases rule: safeE)
    case (1 e)
    then show ?thesis by (simp add: run)
  next
    case (2 x)
    obtain m1 where m1: "x = (Some (next_addr m), m1)" "new_job c (ps_endpoint ?ps) ?m (next_addr m) m1"
      using 2(2) by auto
    with 2(1) later [of m1] False show ?thesis by (simp add: run)
  qed
qed

end
