(* ===== verification/Uv_Server_Safety.thy ===== *)
theory Uv_Server_Safety
  imports Uv_Memory_Owners
begin

text \<open>
  The memory of the server (src/src/main.cpp) over all runs of the loop in which clients leave only when
  no work of theirs is pending: every object on the heap has exactly one owner among the events
  still to come and the clients, so that nothing is used or freed after it was freed, and nothing is lost.
\<close>

section \<open>The register of clients\<close>

definition peer_endpoint :: "memory \<Rightarrow> addr \<Rightarrow> addr option option" where
  "peer_endpoint m p = map_option ps_endpoint (peers m p)"

definition client_endpoint :: "server \<Rightarrow> addr \<Rightarrow> addr option" where
  "client_endpoint s c = (case clients (mem s) c of Some (Some p) \<Rightarrow> Option.bind (peer_endpoint (mem s) p) id | _ \<Rightarrow> None)"

text \<open>Every client has a state of its own, every state belongs to a client, and likewise for the endpoints.\<close>

definition registered :: "server \<Rightarrow> bool" where
  "registered s \<longleftrightarrow>
     (\<forall>c p. clients (mem s) c = Some (Some p) \<longrightarrow> (\<exists>e ep. peer_endpoint (mem s) p = Some (Some e) \<and> endpoints s e = Some ep)) \<and>
     (\<forall>c c' p. clients (mem s) c = Some (Some p) \<longrightarrow> clients (mem s) c' = Some (Some p) \<longrightarrow> c = c') \<and>
     (\<forall>p x. peer_endpoint (mem s) p = Some x \<longrightarrow> (\<exists>c. clients (mem s) c = Some (Some p))) \<and>
     (\<forall>p p' e. peer_endpoint (mem s) p = Some (Some e) \<longrightarrow> peer_endpoint (mem s) p' = Some (Some e) \<longrightarrow> p = p') \<and>
     (\<forall>e ep. endpoints s e = Some ep \<longrightarrow> (\<exists>p. peer_endpoint (mem s) p = Some (Some e))) \<and>
     (\<forall>e \<ge> next_addr (mem s). endpoints s e = None)"

lemma registeredD:
  assumes "registered s"
  shows "clients (mem s) c = Some (Some p) \<Longrightarrow> \<exists>e ep. peer_endpoint (mem s) p = Some (Some e) \<and> endpoints s e = Some ep"
    and "clients (mem s) c = Some (Some p) \<Longrightarrow> clients (mem s) c' = Some (Some p) \<Longrightarrow> c = c'"
    and "peer_endpoint (mem s) p = Some x \<Longrightarrow> \<exists>c. clients (mem s) c = Some (Some p)"
    and "peer_endpoint (mem s) p = Some (Some e) \<Longrightarrow> peer_endpoint (mem s) p' = Some (Some e) \<Longrightarrow> p = p'"
    and "endpoints s e = Some ep \<Longrightarrow> \<exists>p. peer_endpoint (mem s) p = Some (Some e)"
    and "next_addr (mem s) \<le> e \<Longrightarrow> endpoints s e = None"
  using assms unfolding registered_def by (elim conjE, blast)+

lemma peer_endpoint_upd: "peers m' = (peers m)(p \<mapsto> ps) \<Longrightarrow> peer_endpoint m' = (peer_endpoint m)(p \<mapsto> ps_endpoint ps)"
  by (simp add: peer_endpoint_def fun_eq_iff)

text \<open>The register of a client: its state and its endpoint.\<close>

lemma registeredE:
  assumes "registered s" and "clients (mem s) c = Some (Some p)"
  obtains ps e ep where "peers (mem s) p = Some ps" and "ps_endpoint ps = Some e" and "endpoints s e = Some ep"
    and "client_endpoint s c = Some e"
proof -
  obtain e ep where e: "peer_endpoint (mem s) p = Some (Some e)" "endpoints s e = Some ep"
    using registeredD(1) [OF assms] by blast
  moreover from e(1) obtain ps where "peers (mem s) p = Some ps" "ps_endpoint ps = Some e"
    by (auto simp: peer_endpoint_def)
  moreover have "client_endpoint s c = Some e" using e(1) assms(2) by (simp add: client_endpoint_def)
  ultimately show thesis using that by blast
qed

lemma registered_same:
  assumes "registered s" and "clients (mem s') = clients (mem s)" and "peer_endpoint (mem s') = peer_endpoint (mem s)"
    and "dom (endpoints s') = dom (endpoints s)" and "next_addr (mem s) \<le> next_addr (mem s')"
  shows "registered s'" and "client_endpoint s' = client_endpoint s"
proof -
  note D = registeredD [OF assms(1)]
  have dom: "(\<exists>ep. endpoints s' e = Some ep) \<longleftrightarrow> (\<exists>ep. endpoints s e = Some ep)" for e
    using assms(4) by (auto simp: set_eq_iff dom_def)
  show "registered s'" unfolding registered_def assms(2,3)
  proof (intro conjI allI impI)
    show "\<exists>e ep. peer_endpoint (mem s) p = Some (Some e) \<and> endpoints s' e = Some ep" if "clients (mem s) c = Some (Some p)" for c p
      using D(1) [OF that] dom by blast
    show "c = c'" if "clients (mem s) c = Some (Some p)" "clients (mem s) c' = Some (Some p)" for c c' p
      using D(2) that .
    show "\<exists>c. clients (mem s) c = Some (Some p)" if "peer_endpoint (mem s) p = Some x" for p x using D(3) that .
    show "p = p'" if "peer_endpoint (mem s) p = Some (Some e)" "peer_endpoint (mem s) p' = Some (Some e)" for p p' e
      using D(4) that .
    show "\<exists>p. peer_endpoint (mem s) p = Some (Some e)" if "endpoints s' e = Some ep" for e ep
      using D(5) dom that by blast
    show "endpoints s' e = None" if "next_addr (mem s') \<le> e" for e
      using D(6) [of e] dom [of e] assms(5) that by (cases "endpoints s' e") auto
  qed
  show "client_endpoint s' = client_endpoint s"
    by (simp add: client_endpoint_def assms(2,3) fun_eq_iff cong: option.case_cong)
qed

text \<open>A client is added, without a state or with one and an endpoint.\<close>

lemma registered_closing:
  assumes s: "registered s" and c: "clients (mem s) c = None \<or> clients (mem s) c = Some None" and x: "x = None \<or> x = Some None"
    and s': "clients (mem s') = (clients (mem s))(c := x)" "peer_endpoint (mem s') = peer_endpoint (mem s)"
      "endpoints s' = endpoints s" "next_addr (mem s) \<le> next_addr (mem s')"
  shows "registered s'" and "client_endpoint s' = client_endpoint s"
proof -
  have clients: "clients (mem s') c' = Some (Some p) \<longleftrightarrow> clients (mem s) c' = Some (Some p)" for c' p
    using c x by (auto simp: s')
  show "registered s'" using s s'(4) unfolding registered_def clients s'(2,3) by (elim conjE, intro conjI) (assumption | simp)+
  show "client_endpoint s' = client_endpoint s"
    using c x by (auto simp: client_endpoint_def s' fun_eq_iff cong: option.case_cong)
qed

lemma registered_new:
  assumes s: "registered s" and fresh: "fresh_memory (mem s)" and new: "next_addr (mem s) \<le> c" "next_addr (mem s) \<le> p" "next_addr (mem s) \<le> e"
    and s': "clients (mem s') = (clients (mem s))(c \<mapsto> Some p)" "peer_endpoint (mem s') = (peer_endpoint (mem s))(p \<mapsto> Some e)"
      "endpoints s' = (endpoints s)(e \<mapsto> ep)" "next_addr (mem s) \<le> next_addr (mem s')" "e < next_addr (mem s')"
  shows "registered s'" and "client_endpoint s' = (client_endpoint s)(c \<mapsto> e)"
proof -
  note D = registeredD [OF s]
  have p: "peer_endpoint (mem s) p = None" using fresh_memoryD(6) [OF fresh new(2)] by (simp add: peer_endpoint_def)
  have c: "clients (mem s) c = None" by (rule fresh_memoryD(5) [OF fresh new(1)])
  have e: "endpoints s e = None" using D(6) new(3) .
  have unused: "clients (mem s) c' \<noteq> Some (Some p)" for c' using D(1) [of c' p] p by auto
  have unheld: "peer_endpoint (mem s) p' \<noteq> Some (Some e)" for p'
  proof
    assume "peer_endpoint (mem s) p' = Some (Some e)"
    moreover from D(3) [OF this] obtain c' where "clients (mem s) c' = Some (Some p')" by blast
    ultimately show False using D(1) [of c' p'] e by auto
  qed
  show "registered s'" unfolding registered_def s'
  proof (intro conjI allI impI)
    show "\<exists>e' ep'. ((peer_endpoint (mem s))(p \<mapsto> Some e)) p' = Some (Some e') \<and> ((endpoints s)(e \<mapsto> ep)) e' = Some ep'"
      if "((clients (mem s))(c \<mapsto> Some p)) c' = Some (Some p')" for c' p'
      using D(1) [of c' p'] unused [of c'] that by (fastforce split: if_splits)
    show "c1 = c2" if "((clients (mem s))(c \<mapsto> Some p)) c1 = Some (Some p')" "((clients (mem s))(c \<mapsto> Some p)) c2 = Some (Some p')" for c1 c2 p'
      using D(2) unused that by (auto split: if_splits)
    show "\<exists>c'. ((clients (mem s))(c \<mapsto> Some p)) c' = Some (Some p')" if "((peer_endpoint (mem s))(p \<mapsto> Some e)) p' = Some x" for p' x
      using D(3) [of p' x] c that by (fastforce split: if_splits)
    show "p1 = p2" if "((peer_endpoint (mem s))(p \<mapsto> Some e)) p1 = Some (Some e')" "((peer_endpoint (mem s))(p \<mapsto> Some e)) p2 = Some (Some e')" for p1 p2 e'
      using D(4) unheld that by (auto split: if_splits)
    show "\<exists>p'. ((peer_endpoint (mem s))(p \<mapsto> Some e)) p' = Some (Some e')" if "((endpoints s)(e \<mapsto> ep)) e' = Some ep'" for e' ep'
      using D(5) [of e' ep'] p that by (fastforce split: if_splits)
    show "((endpoints s)(e \<mapsto> ep)) e' = None" if "next_addr (mem s') \<le> e'" for e'
      using D(6) [of e'] s'(4,5) that by auto
  qed
  show "client_endpoint s' = (client_endpoint s)(c \<mapsto> e)"
    using unused by (auto simp: client_endpoint_def s' fun_eq_iff split: option.splits)
qed

text \<open>A client is removed, with its state and its endpoint.\<close>

lemma registered_remove:
  assumes s: "registered s" and c: "clients (mem s) c = Some (Some p)" and e: "client_endpoint s c = Some e"
    and s': "clients (mem s') = (clients (mem s))(c := None)" "peer_endpoint (mem s') = (peer_endpoint (mem s))(p := None)"
      "endpoints s' = (endpoints s)(e := None)" "next_addr (mem s) \<le> next_addr (mem s')"
  shows "registered s'" and "client_endpoint s' = (client_endpoint s)(c := None)"
proof -
  note D = registeredD [OF s]
  have p: "peer_endpoint (mem s) p = Some (Some e)"
    using D(1) [OF c] c e by (auto simp: client_endpoint_def)
  show "registered s'" unfolding registered_def s'
  proof (intro conjI allI impI)
    show "\<exists>e' ep'. ((peer_endpoint (mem s))(p := None)) p' = Some (Some e') \<and> ((endpoints s)(e := None)) e' = Some ep'"
      if "((clients (mem s))(c := None)) c' = Some (Some p')" for c' p'
    proof -
      have c': "c' \<noteq> c" "clients (mem s) c' = Some (Some p')" using that by (auto split: if_splits)
      then have "p' \<noteq> p" using D(2) [OF c, of c'] by auto
      moreover obtain e' ep' where "peer_endpoint (mem s) p' = Some (Some e')" "endpoints s e' = Some ep'" using D(1) [OF c'(2)] by blast
      moreover from this \<open>p' \<noteq> p\<close> have "e' \<noteq> e" using D(4) [OF p, of p'] by auto
      ultimately show ?thesis by simp
    qed
    show "c1 = c2" if "((clients (mem s))(c := None)) c1 = Some (Some p')" "((clients (mem s))(c := None)) c2 = Some (Some p')" for c1 c2 p'
      using D(2) that by (auto split: if_splits)
    show "\<exists>c'. ((clients (mem s))(c := None)) c' = Some (Some p')" if "((peer_endpoint (mem s))(p := None)) p' = Some x" for p' x
    proof -
      have p': "p' \<noteq> p" "peer_endpoint (mem s) p' = Some x" using that by (auto split: if_splits)
      then obtain c' where "clients (mem s) c' = Some (Some p')" using D(3) by blast
      moreover from this p'(1) c have "c' \<noteq> c" by auto
      ultimately show ?thesis by auto
    qed
    show "p1 = p2" if "((peer_endpoint (mem s))(p := None)) p1 = Some (Some e')" "((peer_endpoint (mem s))(p := None)) p2 = Some (Some e')" for p1 p2 e'
      using D(4) that by (auto split: if_splits)
    show "\<exists>p'. ((peer_endpoint (mem s))(p := None)) p' = Some (Some e')" if "((endpoints s)(e := None)) e' = Some ep'" for e' ep'
    proof -
      have e': "e' \<noteq> e" "endpoints s e' = Some ep'" using that by (auto split: if_splits)
      then obtain p' where "peer_endpoint (mem s) p' = Some (Some e')" using D(5) by blast
      moreover from this e'(1) p have "p' \<noteq> p" by auto
      ultimately show ?thesis by auto
    qed
    show "((endpoints s)(e := None)) e' = None" if "next_addr (mem s') \<le> e'" for e'
      using D(6) [of e'] s'(4) that by auto
  qed
  have "clients (mem s) c' \<noteq> Some (Some p)" if "c' \<noteq> c" for c' using D(2) [OF c, of c'] that by auto
  then show "client_endpoint s' = (client_endpoint s)(c := None)"
    by (auto simp: client_endpoint_def s' fun_eq_iff split: option.splits)
qed

section \<open>The loop\<close>

text \<open>The work data of a request.\<close>

definition job :: "memory \<Rightarrow> addr \<Rightarrow> peer_work_data_t \<Rightarrow> bool" where
  "job m r w \<longleftrightarrow> (\<exists>wd. holds m r wd \<and> works m wd = Some w)"

lemma holds_unique:
  assumes "owned_memory m" and "holds m r wd" and "holds m r wd'"
  shows "wd = wd'"
  using assms(2,3) owned_memoryD(4) [OF assms(1), of r] by (auto simp: holds_def)

lemma job_unique:
  assumes "owned_memory m" and "job m r w" and "job m r w'"
  shows "w = w'"
proof -
  obtain wd wd' where "holds m r wd" "works m wd = Some w" "holds m r wd'" "works m wd' = Some w'"
    using assms(2,3) unfolding job_def by blast
  moreover from this have "wd = wd'" using holds_unique [OF assms(1)] by blast
  ultimately show ?thesis by simp
qed

lemma job_other:
  assumes "owned_memory m" and "holds m r wd" and "r' \<noteq> r"
    and "work_reqs m' r' = work_reqs m r'" and "write_reqs m' r' = write_reqs m r'"
    and "\<And>wd'. wd' \<noteq> wd \<Longrightarrow> works m' wd' = works m wd'"
  shows "job m' r' w \<longleftrightarrow> job m r' w"
proof -
  have holds': "holds m' r' wd' \<longleftrightarrow> holds m r' wd'" for wd' using assms(4,5) by (simp add: holds_def)
  moreover have "holds m r' wd' \<Longrightarrow> works m' wd' = works m wd'" for wd'
    using owned_memoryD(6) [OF assms(1,2), of r'] assms(3,6) by metis
  ultimately show ?thesis by (auto simp: job_def)
qed

text \<open>Work on bytes of a client that libuv reads from, and the work that ends the connection of one it no longer reads from.\<close>

definition serves :: "uv_loop \<Rightarrow> peer_work_data_t \<Rightarrow> bool" where
  "serves l w \<longleftrightarrow> (\<exists>c a. wd_uvclient w = Some c \<and> c \<in> reading l \<and> wd_endpoint w = client_endpoint (srv l) c \<and>
     buf_base (wd_request w) = Some a)"

definition leaves :: "uv_loop \<Rightarrow> peer_work_data_t \<Rightarrow> bool" where
  "leaves l w \<longleftrightarrow> (\<exists>c p. wd_uvclient w = Some c \<and> c \<notin> reading l \<and> wd_endpoint w = client_endpoint (srv l) c \<and>
     clients (mem (srv l)) c = Some (Some p) \<and> buf_base (wd_request w) = None)"

definition leaving :: "uv_loop \<Rightarrow> addr \<Rightarrow> bool" where
  "leaving l c \<longleftrightarrow> (\<exists>r w. (r, Close_work) \<in> set (pool l) \<and> job (mem (srv l)) r w \<and> wd_uvclient w = Some c)"

text \<open>
  The requests are those libuv holds: queued for the pool without a response, finished, or being
  written. Every client is read from, being closed, or leaving, and leaves once.
\<close>

definition owned_loop :: "uv_loop \<Rightarrow> bool" where
  "owned_loop l \<longleftrightarrow> owned_memory (mem (srv l)) \<and> registered (srv l) \<and>
     distinct (map fst (pool l) @ finished l) \<and> dom (work_reqs (mem (srv l))) = set (map fst (pool l) @ finished l) \<and>
     distinct (writing l) \<and> dom (write_reqs (mem (srv l))) = set (writing l) \<and>
     (\<forall>r. (r, Submitted_work) \<in> set (pool l) \<longrightarrow> (\<exists>w. job (mem (srv l)) r w \<and> buf_base (wd_response w) = None \<and> serves l w)) \<and>
     (\<forall>r. (r, Close_work) \<in> set (pool l) \<longrightarrow> (\<exists>w. job (mem (srv l)) r w \<and> buf_base (wd_response w) = None \<and> leaves l w)) \<and>
     (\<forall>r \<in> set (finished l @ writing l). \<exists>w. job (mem (srv l)) r w \<and> serves l w) \<and>
     (\<forall>r r' w w'. (r, Close_work) \<in> set (pool l) \<longrightarrow> (r', Close_work) \<in> set (pool l) \<longrightarrow> job (mem (srv l)) r w \<longrightarrow>
        job (mem (srv l)) r' w' \<longrightarrow> wd_uvclient w = wd_uvclient w' \<longrightarrow> r = r') \<and>
     (\<forall>c \<in> reading l. \<exists>p. clients (mem (srv l)) c = Some (Some p)) \<and>
     (\<forall>c \<in> closing l. clients (mem (srv l)) c = Some None) \<and>
     (\<forall>c x. clients (mem (srv l)) c = Some x \<longrightarrow> c \<in> reading l \<or> c \<in> closing l \<or> leaving l c)"

lemma owned_loopI:
  assumes "owned_memory (mem (srv l))" and "registered (srv l)"
    and "distinct (map fst (pool l) @ finished l)" and "dom (work_reqs (mem (srv l))) = set (map fst (pool l) @ finished l)"
    and "distinct (writing l)" and "dom (write_reqs (mem (srv l))) = set (writing l)"
    and "\<And>r. (r, Submitted_work) \<in> set (pool l) \<Longrightarrow> \<exists>w. job (mem (srv l)) r w \<and> buf_base (wd_response w) = None \<and> serves l w"
    and "\<And>r. (r, Close_work) \<in> set (pool l) \<Longrightarrow> \<exists>w. job (mem (srv l)) r w \<and> buf_base (wd_response w) = None \<and> leaves l w"
    and "\<And>r. r \<in> set (finished l @ writing l) \<Longrightarrow> \<exists>w. job (mem (srv l)) r w \<and> serves l w"
    and "\<And>r r' w w'. (r, Close_work) \<in> set (pool l) \<Longrightarrow> (r', Close_work) \<in> set (pool l) \<Longrightarrow> job (mem (srv l)) r w \<Longrightarrow>
        job (mem (srv l)) r' w' \<Longrightarrow> wd_uvclient w = wd_uvclient w' \<Longrightarrow> r = r'"
    and "\<And>c. c \<in> reading l \<Longrightarrow> \<exists>p. clients (mem (srv l)) c = Some (Some p)"
    and "\<And>c. c \<in> closing l \<Longrightarrow> clients (mem (srv l)) c = Some None"
    and "\<And>c x. clients (mem (srv l)) c = Some x \<Longrightarrow> c \<in> reading l \<or> c \<in> closing l \<or> leaving l c"
  shows "owned_loop l"
  unfolding owned_loop_def by (intro conjI allI ballI impI; rule assms; assumption)

lemma owned_loopD:
  assumes "owned_loop l"
  shows "owned_memory (mem (srv l))" and "registered (srv l)"
    and "distinct (map fst (pool l) @ finished l)" and "dom (work_reqs (mem (srv l))) = set (map fst (pool l) @ finished l)"
    and "distinct (writing l)" and "dom (write_reqs (mem (srv l))) = set (writing l)"
    and "(r, Submitted_work) \<in> set (pool l) \<Longrightarrow> \<exists>w. job (mem (srv l)) r w \<and> buf_base (wd_response w) = None \<and> serves l w"
    and "(r, Close_work) \<in> set (pool l) \<Longrightarrow> \<exists>w. job (mem (srv l)) r w \<and> buf_base (wd_response w) = None \<and> leaves l w"
    and "r \<in> set (finished l @ writing l) \<Longrightarrow> \<exists>w. job (mem (srv l)) r w \<and> serves l w"
    and "(r, Close_work) \<in> set (pool l) \<Longrightarrow> (r', Close_work) \<in> set (pool l) \<Longrightarrow> job (mem (srv l)) r w \<Longrightarrow>
        job (mem (srv l)) r' w' \<Longrightarrow> wd_uvclient w = wd_uvclient w' \<Longrightarrow> r = r'"
    and "c \<in> reading l \<Longrightarrow> \<exists>p. clients (mem (srv l)) c = Some (Some p)"
    and "c \<in> closing l \<Longrightarrow> clients (mem (srv l)) c = Some None"
    and "clients (mem (srv l)) c = Some x \<Longrightarrow> c \<in> reading l \<or> c \<in> closing l \<or> leaving l c"
proof -
  note parts = assms [unfolded owned_loop_def]
  show "owned_memory (mem (srv l))" "registered (srv l)" "distinct (map fst (pool l) @ finished l)"
    "dom (work_reqs (mem (srv l))) = set (map fst (pool l) @ finished l)" "distinct (writing l)"
    "dom (write_reqs (mem (srv l))) = set (writing l)"
    by (insert parts, elim conjE, assumption)+
  show "(r, Submitted_work) \<in> set (pool l) \<Longrightarrow> \<exists>w. job (mem (srv l)) r w \<and> buf_base (wd_response w) = None \<and> serves l w"
    using parts by (elim conjE) blast
  show "(r, Close_work) \<in> set (pool l) \<Longrightarrow> \<exists>w. job (mem (srv l)) r w \<and> buf_base (wd_response w) = None \<and> leaves l w"
    using parts by (elim conjE) blast
  show "r \<in> set (finished l @ writing l) \<Longrightarrow> \<exists>w. job (mem (srv l)) r w \<and> serves l w" using parts by (elim conjE) blast
  show "(r, Close_work) \<in> set (pool l) \<Longrightarrow> (r', Close_work) \<in> set (pool l) \<Longrightarrow> job (mem (srv l)) r w \<Longrightarrow>
        job (mem (srv l)) r' w' \<Longrightarrow> wd_uvclient w = wd_uvclient w' \<Longrightarrow> r = r'" using parts by (elim conjE) blast
  show "c \<in> reading l \<Longrightarrow> \<exists>p. clients (mem (srv l)) c = Some (Some p)" using parts by (elim conjE) blast
  show "c \<in> closing l \<Longrightarrow> clients (mem (srv l)) c = Some None" using parts by (elim conjE) blast
  show "clients (mem (srv l)) c = Some x \<Longrightarrow> c \<in> reading l \<or> c \<in> closing l \<or> leaving l c" using parts by (elim conjE) blast
qed

text \<open>Steps that change one request of a client that stays.\<close>

lemma owned_loop_work:
  assumes l: "owned_loop l" and m': "owned_memory (mem (srv l'))"
    and same: "clients (mem (srv l')) = clients (mem (srv l))" "peer_endpoint (mem (srv l')) = peer_endpoint (mem (srv l))"
      "dom (endpoints (srv l')) = dom (endpoints (srv l))" "next_addr (mem (srv l)) \<le> next_addr (mem (srv l'))"
      "reading l' = reading l" "closing l' = closing l"
    and held: "distinct (map fst (pool l') @ finished l')" "dom (work_reqs (mem (srv l'))) = set (map fst (pool l') @ finished l')"
      "distinct (writing l')" "dom (write_reqs (mem (srv l'))) = set (writing l')"
    and close: "\<And>r. (r, Close_work) \<in> set (pool l') \<longleftrightarrow> (r, Close_work) \<in> set (pool l)"
      "\<And>r w. (r, Close_work) \<in> set (pool l) \<Longrightarrow> job (mem (srv l')) r w \<longleftrightarrow> job (mem (srv l)) r w"
    and submitted: "\<And>r. (r, Submitted_work) \<in> set (pool l') \<Longrightarrow> \<exists>w. job (mem (srv l')) r w \<and> buf_base (wd_response w) = None \<and> serves l w"
    and ended: "\<And>r. r \<in> set (finished l' @ writing l') \<Longrightarrow> \<exists>w. job (mem (srv l')) r w \<and> serves l w"
  shows "owned_loop l'"
proof -
  note D = owned_loopD [OF l]
  note reg = registered_same [OF D(2) same(1-4)]
  have eq: "serves l' w \<longleftrightarrow> serves l w" "leaves l' w \<longleftrightarrow> leaves l w" for w
    by (simp_all add: serves_def leaves_def same reg(2))
  have leaving: "leaving l' c \<longleftrightarrow> leaving l c" for c
    unfolding leaving_def close(1) using close(2) by blast
  show ?thesis
  proof (rule owned_loopI)
    show "owned_memory (mem (srv l'))" by (rule m')
    show "registered (srv l')" by (rule reg(1))
    show "\<exists>w. job (mem (srv l')) r w \<and> buf_base (wd_response w) = None \<and> leaves l' w" if "(r, Close_work) \<in> set (pool l')" for r
      using D(8) [of r] close that by (simp add: eq)
    show "r = r'" if "(r, Close_work) \<in> set (pool l')" "(r', Close_work) \<in> set (pool l')" "job (mem (srv l')) r w"
      "job (mem (srv l')) r' w'" "wd_uvclient w = wd_uvclient w'" for r r' w w'
      using D(10) [of r r' w w'] close that by simp
  qed (use held submitted ended D(11-13) in \<open>simp_all add: eq same leaving\<close>)
qed

text \<open>Of a request without changes, the work data serve as before.\<close>

lemma task_kept:
  assumes "owned_loop l" and "\<And>w. job m' r w \<longleftrightarrow> job (mem (srv l)) r w"
  shows "(r, Submitted_work) \<in> set (pool l) \<Longrightarrow> \<exists>w. job m' r w \<and> buf_base (wd_response w) = None \<and> serves l w"
    and "r \<in> set (finished l @ writing l) \<Longrightarrow> \<exists>w. job m' r w \<and> serves l w"
  using owned_loopD(7,9) [OF assms(1), of r] assms(2) by blast+

lemma serves_unfold:
  assumes l: "owned_loop l" and "serves l w"
  obtains c p ps e ep a where "wd_uvclient w = Some c" and "c \<in> reading l" and "clients (mem (srv l)) c = Some (Some p)"
    and "peers (mem (srv l)) p = Some ps" and "ps_endpoint ps = Some e" and "wd_endpoint w = Some e"
    and "endpoints (srv l) e = Some ep" and "buf_base (wd_request w) = Some a"
proof -
  obtain c a where c: "wd_uvclient w = Some c" "c \<in> reading l" "wd_endpoint w = client_endpoint (srv l) c"
    "buf_base (wd_request w) = Some a" using assms(2) unfolding serves_def by blast
  obtain p where p: "clients (mem (srv l)) c = Some (Some p)" using owned_loopD(11) [OF l c(2)] by blast
  from registeredE [OF owned_loopD(2) [OF l] p] obtain ps e ep where "peers (mem (srv l)) p = Some ps" "ps_endpoint ps = Some e"
    "endpoints (srv l) e = Some ep" "client_endpoint (srv l) c = Some e" .
  with c p show thesis using that by simp
qed

section \<open>The work of the pool\<close>

text \<open>A piece of work of the pool.\<close>

lemma on_work_submitted_safe:
  assumes m: "owned_memory (mem s)" and req: "work_reqs (mem s) req = Some (Some wd)" "works (mem s) wd = Some w"
    and w: "wd_endpoint w = Some e" "endpoints s e = Some ep" "buf_base (wd_request w) = Some a" "buf_base (wd_response w) = None"
  shows "safe (\<lambda>s'. \<exists>m' ep'. answered wd w (mem s) (wd, m') \<and> s' = s\<lparr>mem := m', endpoints := (endpoints s)(e \<mapsto> ep')\<rparr>)
    (on_work_submitted returned gs req s)"
proof -
  have "owns (mem s) wd a" using req w by (simp add: owns_def)
  then obtain bs where bs: "blocks (mem s) a = Some bs" using owned_memoryD(7) [OF m] by blast
  let ?n = "to_int32 (uint (buf_len (wd_request w)))"
  have "safe (\<lambda>(n, ep). carries (on_write_response returned) (answered wd w (mem s)) ep)
      (process_cb gs (Some bs) ?n (Some (on_write_response returned)) (Some (wd, mem s)) ep)"
    by (rule process_cb_carries [OF on_write_response_keeps answered_start [OF req(2) w(4)]])
  then show ?thesis
  proof (cases rule: safeE)
    case (1 f)
    with req w bs show ?thesis by (simp add: on_work_submitted_def block_ptr_def)
  next
    case (2 x)
    obtain nrc ep' wd' m' where "x = (nrc, ep')" "nt_work_data ep' = Some (wd', m')" "answered wd w (mem s) (wd', m')"
      using 2(2) by (cases x) (auto simp: carries_def)
    moreover from this have "wd' = wd" by (simp add: answered_def)
    ultimately show ?thesis
      using 2(1) req w bs by (auto simp: on_work_submitted_def block_ptr_def Let_def)
  qed
qed

text \<open>What a request in the queue of the pool holds.\<close>

lemma work_request:
  assumes l: "owned_loop l" and r: "r \<in> set (map fst (pool l) @ finished l)" and j: "job (mem (srv l)) r w"
  obtains wd where "work_reqs (mem (srv l)) r = Some (Some wd)" and "write_reqs (mem (srv l)) r = None"
    and "works (mem (srv l)) wd = Some w" and "holds (mem (srv l)) r wd"
proof -
  note m = owned_loopD(1) [OF l]
  obtain x where x: "work_reqs (mem (srv l)) r = Some x" using owned_loopD(4) [OF l] r by blast
  then have no: "write_reqs (mem (srv l)) r = None" using owned_memoryD(4) [OF m, of r] by simp
  obtain wd where "holds (mem (srv l)) r wd" "works (mem (srv l)) wd = Some w" using j unfolding job_def by blast
  with x no show thesis using that by (simp add: holds_def)
qed

lemma work_event_owned:
  assumes l: "owned_loop l" and p: "pool l = (req, Submitted_work) # rest"
  shows "safe owned_loop (work_event returned gs l)"
proof -
  note D = owned_loopD [OF l]
  obtain w where j: "job (mem (srv l)) req w" "buf_base (wd_response w) = None" "serves l w"
    using D(7) [of req] p by auto
  obtain wd where req: "work_reqs (mem (srv l)) req = Some (Some wd)" "works (mem (srv l)) wd = Some w" "holds (mem (srv l)) req wd"
    using work_request [OF l _ j(1)] p by auto
  from serves_unfold [OF l j(3)] obtain e ep a where w: "wd_endpoint w = Some e" "endpoints (srv l) e = Some ep"
    "buf_base (wd_request w) = Some a" by metis
  have step: "owned_loop (l\<lparr>srv := (srv l)\<lparr>mem := m', endpoints := (endpoints (srv l))(e \<mapsto> ep')\<rparr>, pool := rest, finished := finished l @ [req]\<rparr>)"
    (is "owned_loop ?l") if ans: "answered wd w (mem (srv l)) (wd, m')" for m' ep'
  proof -
    obtain resp bs where m': "works m' = (works (mem (srv l)))(wd \<mapsto> w\<lparr>wd_response := resp\<rparr>)" "work_reqs m' = work_reqs (mem (srv l))"
      "write_reqs m' = write_reqs (mem (srv l))" "clients m' = clients (mem (srv l))" "peers m' = peers (mem (srv l))"
      "next_addr (mem (srv l)) \<le> next_addr m'"
      using ans by (auto simp: answered_def)
    have other: "job m' r w' \<longleftrightarrow> job (mem (srv l)) r w'" if "r \<noteq> req" for r w'
      by (rule job_other [OF D(1) req(3) that]) (simp_all add: m')
    have this_one: "job m' req (w\<lparr>wd_response := resp\<rparr>)" using req(1) by (auto simp: job_def holds_def m')
    have first: "(req, k) \<notin> set rest" "req \<notin> set (finished l)" for k using D(3) p by (auto simp: image_iff)
    have unwritten: "req \<notin> set (writing l)" using D(6) owned_memoryD(4) [OF D(1), of req] req(1) by auto
    show ?thesis
    proof (rule owned_loop_work [OF l])
      show "owned_memory (mem (srv ?l))" using answered_owned [OF D(1) req(2) j(2) ans] by simp
      show "(r, Close_work) \<in> set (pool ?l) \<longleftrightarrow> (r, Close_work) \<in> set (pool l)" for r using p by simp
      show "job (mem (srv ?l)) r w' \<longleftrightarrow> job (mem (srv l)) r w'" if "(r, Close_work) \<in> set (pool l)" for r w'
        using other [of r w'] first(1) [of Close_work] that p by auto
      show "\<exists>w. job (mem (srv ?l)) r w \<and> buf_base (wd_response w) = None \<and> serves l w" if "(r, Submitted_work) \<in> set (pool ?l)" for r
        using task_kept(1) [where m' = m' and r = r, OF l other] first(1) [of Submitted_work] that p by auto
      show "\<exists>w. job (mem (srv ?l)) r w \<and> serves l w" if "r \<in> set (finished ?l @ writing ?l)" for r
      proof (cases "r = req")
        case True
        then show ?thesis using this_one j(3) by (auto simp: serves_def)
      next
        case False
        then show ?thesis using task_kept(2) [where m' = m' and r = r, OF l other] that by auto
      qed
    qed (use D(3-6) p w(2) in \<open>auto simp: m' peer_endpoint_def\<close>)
  qed
  have "safe (\<lambda>s'. \<exists>m' ep'. answered wd w (mem (srv l)) (wd, m') \<and> s' = (srv l)\<lparr>mem := m', endpoints := (endpoints (srv l))(e \<mapsto> ep')\<rparr>)
    (on_work_submitted returned gs req (srv l))"
    by (rule on_work_submitted_safe [OF D(1) req(1,2) w j(2)])
  then show ?thesis
    by (cases rule: safeE) (use step p in \<open>auto simp: work_event_def\<close>)
qed

text \<open>The work that ends a connection.\<close>

lemma close_event_run:
  assumes l: "owned_loop l" and pool: "pool l = (req, Close_work) # rest"
  obtains w wd c p e where "job (mem (srv l)) req w" and "leaves l w" and "work_reqs (mem (srv l)) req = Some (Some wd)"
    and "write_reqs (mem (srv l)) req = None" and "works (mem (srv l)) wd = Some w" and "holds (mem (srv l)) req wd"
    and "wd_uvclient w = Some c" and "c \<notin> reading l" and "clients (mem (srv l)) c = Some (Some p)"
    and "buf_base (wd_request w) = None" and "buf_base (wd_response w) = None" and "client_endpoint (srv l) c = Some e"
    and "\<And>returned gs. work_event returned gs l = Inr (l\<lparr>srv := (srv l)\<lparr>endpoints := (endpoints (srv l))(e := None),
      mem := (mem (srv l))\<lparr>peers := (peers (mem (srv l)))(p := None), clients := (clients (mem (srv l)))(c := None),
        works := (works (mem (srv l)))(wd := None), work_reqs := (work_reqs (mem (srv l)))(req := None)\<rparr>\<rparr>, pool := rest\<rparr>)"
proof -
  note D = owned_loopD [OF l]
  let ?m = "mem (srv l)"
  obtain w where j: "job ?m req w" "buf_base (wd_response w) = None" "leaves l w"
    using D(8) [of req] pool by auto
  obtain wd where req: "work_reqs ?m req = Some (Some wd)" "write_reqs ?m req = None" "works ?m wd = Some w" "holds ?m req wd"
    using work_request [OF l _ j(1)] pool by auto
  obtain c p where c: "wd_uvclient w = Some c" "c \<notin> reading l" "wd_endpoint w = client_endpoint (srv l) c"
    "clients ?m c = Some (Some p)" "buf_base (wd_request w) = None" using j(3) unfolding leaves_def by blast
  from registeredE [OF D(2) c(4)] obtain ps e ep where e: "peers ?m p = Some ps" "endpoints (srv l) e = Some ep"
    "client_endpoint (srv l) c = Some e" .
  have "work_event returned gs l = Inr (l\<lparr>srv := (srv l)\<lparr>endpoints := (endpoints (srv l))(e := None),
      mem := ?m\<lparr>peers := (peers ?m)(p := None), clients := (clients ?m)(c := None),
        works := (works ?m)(wd := None), work_reqs := (work_reqs ?m)(req := None)\<rparr>\<rparr>, pool := rest\<rparr>)" for returned gs
    using req c j(2) e pool by (simp add: work_event_def on_work_client_closed_def free_block_def Let_def)
  with j req c e that show thesis by blast
qed

lemma close_event_owned:
  assumes l: "owned_loop l" and pool: "pool l = (req, Close_work) # rest"
  shows "safe owned_loop (work_event returned gs l)"
proof -
  note D = owned_loopD [OF l]
  let ?m = "mem (srv l)"
  from close_event_run [OF l pool] obtain w wd c p e where j1: "job ?m req w" "leaves l w"
    and req: "work_reqs ?m req = Some (Some wd)" "write_reqs ?m req = None" "works ?m wd = Some w" "holds ?m req wd"
    and c: "wd_uvclient w = Some c" "c \<notin> reading l" "clients ?m c = Some (Some p)" "buf_base (wd_request w) = None"
    and j2: "buf_base (wd_response w) = None" and e: "client_endpoint (srv l) c = Some e"
    and run: "work_event returned gs l = Inr (l\<lparr>srv := (srv l)\<lparr>endpoints := (endpoints (srv l))(e := None),
      mem := ?m\<lparr>peers := (peers ?m)(p := None), clients := (clients ?m)(c := None),
        works := (works ?m)(wd := None), work_reqs := (work_reqs ?m)(req := None)\<rparr>\<rparr>, pool := rest\<rparr>)" by metis
  let ?m' = "?m\<lparr>peers := (peers ?m)(p := None), clients := (clients ?m)(c := None), works := (works ?m)(wd := None),
    work_reqs := (work_reqs ?m)(req := None)\<rparr>"
  let ?s = "(srv l)\<lparr>endpoints := (endpoints (srv l))(e := None), mem := ?m'\<rparr>"
  let ?l = "l\<lparr>srv := ?s, pool := rest\<rparr>"
  have reg: "registered ?s" "client_endpoint ?s = (client_endpoint (srv l))(c := None)"
    by (rule registered_remove [OF D(2) c(3) e]; simp add: peer_endpoint_def fun_eq_iff)+
  have other: "job ?m' r w' \<longleftrightarrow> job ?m r w'" if "r \<noteq> req" for r w'
    by (rule job_other [OF D(1) req(4) that]) (use that in simp_all)
  have first: "(req, k) \<notin> set rest" "req \<notin> set (finished l)" "req \<notin> set (writing l)" for k
    using D(3,6) req(2) pool by (auto simp: image_iff)
  have leaver: "c' \<noteq> c" if "(r, Close_work) \<in> set rest" "job ?m r w'" "wd_uvclient w' = Some c'" for r w' c'
    using D(10) [of r req w' w] that j1(1) c(1) pool first(1) [of Close_work] by auto
  have serves': "serves ?l w'" if "serves l w'" for w' using that c(2) by (auto simp: serves_def reg(2))
  have "owned_loop ?l"
  proof (rule owned_loopI)
    show "owned_memory (mem (srv ?l))"
      by (rule owned_drop [OF D(1) req(4)]) (use req c j2 in \<open>auto simp: owns_def\<close>)
    show "registered (srv ?l)" using reg(1) by simp
    show "\<exists>w. job (mem (srv ?l)) r w \<and> buf_base (wd_response w) = None \<and> serves ?l w" if q: "(r, Submitted_work) \<in> set (pool ?l)" for r
    proof -
      have r: "r \<noteq> req" using first(1) [of Submitted_work] q by auto
      then obtain w' where "job ?m r w'" "buf_base (wd_response w') = None" "serves l w'" using D(7) [of r] q pool by auto
      with serves' other [OF r] show ?thesis by auto
    qed
    show "\<exists>w. job (mem (srv ?l)) r w \<and> buf_base (wd_response w) = None \<and> leaves ?l w" if q: "(r, Close_work) \<in> set (pool ?l)" for r
    proof -
      have r: "r \<noteq> req" using first(1) [of Close_work] q by auto
      obtain w' where w': "job ?m r w'" "buf_base (wd_response w') = None" "leaves l w'" using D(8) [of r] q pool by auto
      then obtain c' where "wd_uvclient w' = Some c'" unfolding leaves_def by blast
      with leaver [of r w' c'] w' other [OF r, of w'] q show ?thesis
        by (intro exI [of _ w']) (auto simp: leaves_def reg(2))
    qed
    show "\<exists>w. job (mem (srv ?l)) r w \<and> serves ?l w" if q: "r \<in> set (finished ?l @ writing ?l)" for r
    proof -
      have r: "r \<noteq> req" using first(2,3) q by auto
      then obtain w' where "job ?m r w'" "serves l w'" using D(9) [of r] q by auto
      with serves' other [OF r] show ?thesis by auto
    qed
    show "r = r'" if "(r, Close_work) \<in> set (pool ?l)" "(r', Close_work) \<in> set (pool ?l)" "job (mem (srv ?l)) r w1"
      "job (mem (srv ?l)) r' w2" "wd_uvclient w1 = wd_uvclient w2" for r r' w1 w2
    proof -
      have "r \<noteq> req" "r' \<noteq> req" using first(1) [of Close_work] that by auto
      then show ?thesis using D(10) [of r r' w1 w2] other [of r w1] other [of r' w2] that pool by auto
    qed
    show "\<exists>p. clients (mem (srv ?l)) c' = Some (Some p)" if "c' \<in> reading ?l" for c' using D(11) [of c'] c(2) that by auto
    show "clients (mem (srv ?l)) c' = Some None" if "c' \<in> closing ?l" for c' using D(12) [of c'] c(3) that by auto
    show "c' \<in> reading ?l \<or> c' \<in> closing ?l \<or> leaving ?l c'" if x: "clients (mem (srv ?l)) c' = Some x" for c' x
    proof -
      have "c' \<noteq> c" "clients ?m c' = Some x" using x by (auto split: if_splits)
      then consider "c' \<in> reading l" | "c' \<in> closing l" | "leaving l c'" using D(13) by blast
      then show ?thesis
      proof cases
        case 3
        then obtain r w' where r: "(r, Close_work) \<in> set (pool l)" "job ?m r w'" "wd_uvclient w' = Some c'" unfolding leaving_def by blast
        then have "r \<noteq> req" using job_unique [OF D(1) j1(1), of w'] c(1) \<open>c' \<noteq> c\<close> by auto
        with r other [OF this] pool show ?thesis by (auto simp: leaving_def)
      qed simp_all
    qed
  qed (use D(3-6) pool in auto)
  then show ?thesis by (simp add: run)
qed

section \<open>Reads\<close>

text \<open>A read of data, or of nothing.\<close>

lemma owned_same:
  assumes "owned_memory m" and "blocks m' = blocks m" and "works m' = works m" and "work_reqs m' = work_reqs m"
    and "write_reqs m' = write_reqs m" and "fresh_memory m'"
  shows "owned_memory m'"
  using assms(1,6) unfolding owned_memory_def holds_def owns_def assms(2-5)
  by (elim conjE, intro conjI) assumption+

lemma fresh_used:
  assumes l: "owned_loop l" and r: "r \<in> set (map fst (pool l) @ finished l @ writing l)"
  shows "r < next_addr (mem (srv l))"
proof -
  have "work_reqs (mem (srv l)) r \<noteq> None \<or> write_reqs (mem (srv l)) r \<noteq> None"
    using owned_loopD(4,6) [OF l] r by (auto simp: dom_def set_eq_iff)
  then show ?thesis
    using fresh_memoryD(3,4) [OF owned_memoryD(1) [OF owned_loopD(1) [OF l]], of r] by (auto simp: not_le [symmetric])
qed

text \<open>A new request leaves the other ones alone.\<close>

lemma job_new:
  assumes "owned_memory m" and "next_addr m \<le> wd" and "r' \<noteq> r"
    and "works m' = (works m)(wd \<mapsto> w)" "work_reqs m' = (work_reqs m)(r \<mapsto> Some wd)" "write_reqs m' = write_reqs m"
  shows "job m' r' w' \<longleftrightarrow> job m r' w'"
proof -
  have "holds m' r' wd' \<longleftrightarrow> holds m r' wd'" for wd' using assms(3,5,6) by (simp add: holds_def)
  moreover have "holds m r' wd' \<Longrightarrow> works m' wd' = works m wd'" for wd'
    using held_used(2) [OF assms(1), of r' wd'] assms(2,4) by auto
  ultimately show ?thesis by (auto simp: job_def)
qed

lemma read_none_owned:
  assumes l: "owned_loop l"
  shows "owned_loop (with_mem l ((mem (srv l))\<lparr>next_addr := Suc (next_addr (mem (srv l)))\<rparr>))" (is "owned_loop ?l")
proof -
  note D = owned_loopD [OF l]
  note fresh = fresh_memoryD [OF owned_memoryD(1) [OF D(1)]]
  have job: "job (mem (srv ?l)) r w \<longleftrightarrow> job (mem (srv l)) r w" for r w by (simp add: job_def holds_def with_mem_def)
  show ?thesis
  proof (rule owned_loop_work [OF l])
    show "owned_memory (mem (srv ?l))"
      by (rule owned_same [OF D(1)]) (use fresh in \<open>simp_all add: with_mem_def fresh_memory_def\<close>)
  qed (use D(3-7,9) job in \<open>simp_all add: with_mem_def peer_endpoint_def fun_eq_iff\<close>)
qed

lemma read_data_owned:
  assumes l: "owned_loop l" and c: "c \<in> reading l" and p: "clients (mem (srv l)) c = Some (Some p)" "peers (mem (srv l)) p = Some ps"
    and b: "b = next_addr (mem (srv l))"
    and m': "new_job c (client_endpoint (srv l) c)
      ((mem (srv l))\<lparr>next_addr := Suc b, blocks := (blocks (mem (srv l)))(b \<mapsto> bs), peers := (peers (mem (srv l)))(p \<mapsto> ps\<lparr>ps_uvclient := Some c\<rparr>)\<rparr>) (Suc b) m'"
  shows "owned_loop ((with_mem l (m'\<lparr>blocks := (blocks m')(b := None)\<rparr>))\<lparr>pool := pool l @ [(Suc b, Submitted_work)]\<rparr>)" (is "owned_loop ?l")
proof -
  note D = owned_loopD [OF l]
  let ?m = "mem (srv l)" and ?m2 = "m'\<lparr>blocks := (blocks m')(b := None)\<rparr>"
  note fresh = fresh_memoryD [OF owned_memoryD(1) [OF D(1)]]
  obtain w bs' where eq: "m' = ?m\<lparr>peers := (peers ?m)(p \<mapsto> ps\<lparr>ps_uvclient := Some c\<rparr>), next_addr := b + 4, blocks := (blocks ?m)(b \<mapsto> bs, b + 3 \<mapsto> bs'),
      works := (works ?m)(b + 2 \<mapsto> w), work_reqs := (work_reqs ?m)(b + 1 \<mapsto> Some (b + 2))\<rparr>"
    and w: "wd_uvclient w = Some c" "wd_endpoint w = client_endpoint (srv l) c" "buf_base (wd_request w) = Some (b + 3)" "buf_base (wd_response w) = None"
    using m' by (auto simp: new_job_def eval_nat_numeral)
  have blocks: "blocks ?m2 = (blocks ?m)(b + 3 \<mapsto> bs')" using fresh(1) [of b] b by (auto simp: eq fun_eq_iff)
  have other: "job ?m2 r w' \<longleftrightarrow> job ?m r w'" if "r \<noteq> b + 1" for r w'
    by (rule job_new [OF D(1), of "b + 2" r "b + 1"]) (use that b in \<open>simp_all add: eq\<close>)
  have new: "job ?m2 (b + 1) w" by (auto simp: job_def holds_def eq)
  note used = fresh_used [OF l, folded b]
  show ?thesis
  proof (rule owned_loop_work [OF l])
    have "owned_memory ?m2"
      by (rule owned_new_job [OF D(1), of "b + 1" "b + 2" "b + 4" w _ bs'])
        (use w p(2) b blocks in \<open>auto simp: eq\<close>)
    then show "owned_memory (mem (srv ?l))" by (simp add: with_mem_def)
    show "peer_endpoint (mem (srv ?l)) = peer_endpoint ?m"
      using p(2) by (auto simp: with_mem_def eq peer_endpoint_def)
    show "distinct (map fst (pool ?l) @ finished ?l)" using D(3) used [of "Suc b"] by (auto simp: with_mem_def)
    show "(r, Close_work) \<in> set (pool ?l) \<longleftrightarrow> (r, Close_work) \<in> set (pool l)" for r by (simp add: with_mem_def)
    show "job (mem (srv ?l)) r w' \<longleftrightarrow> job ?m r w'" if "(r, Close_work) \<in> set (pool l)" for r w'
      using used [of r] that other [of r w'] by (force simp: with_mem_def)
    show "\<exists>w. job (mem (srv ?l)) r w \<and> buf_base (wd_response w) = None \<and> serves l w" if "(r, Submitted_work) \<in> set (pool ?l)" for r
    proof (cases "r = b + 1")
      case True
      with new w c show ?thesis by (auto simp: with_mem_def serves_def)
    next
      case False
      with that task_kept(1) [where m' = ?m2 and r = r, OF l other] show ?thesis by (auto simp: with_mem_def)
    qed
    show "\<exists>w. job (mem (srv ?l)) r w \<and> serves l w" if "r \<in> set (finished ?l @ writing ?l)" for r
    proof -
      have r: "r \<in> set (finished l @ writing l)" using that by (simp add: with_mem_def)
      then have "r \<noteq> b + 1" using used [of r] by auto
      with task_kept(2) [where m' = ?m2 and r = r, OF l other] r show ?thesis by (auto simp: with_mem_def)
    qed
  qed (use D(4-6) b in \<open>auto simp: with_mem_def eq\<close>)
qed

text \<open>The loop after a read: libuv's buffer is gone again, and there is a new request or none.\<close>

definition after_read_event :: "uv_loop \<Rightarrow> addr \<Rightarrow> bytes \<Rightarrow> uv_loop \<Rightarrow> bool" where
  "after_read_event l c bs l' \<longleftrightarrow>
     l' = with_mem l ((mem (srv l))\<lparr>next_addr := Suc (next_addr (mem (srv l)))\<rparr>) \<or>
     (\<exists>b p ps m'. b = next_addr (mem (srv l)) \<and> clients (mem (srv l)) c = Some (Some p) \<and> peers (mem (srv l)) p = Some ps \<and>
        new_job c (client_endpoint (srv l) c) ((mem (srv l))\<lparr>next_addr := Suc b, blocks := (blocks (mem (srv l)))(b \<mapsto> bs),
          peers := (peers (mem (srv l)))(p \<mapsto> ps\<lparr>ps_uvclient := Some c\<rparr>)\<rparr>) (Suc b) m' \<and>
        l' = (with_mem l (m'\<lparr>blocks := (blocks m')(b := None)\<rparr>))\<lparr>pool := pool l @ [(Suc b, Submitted_work)]\<rparr>)"

lemma read_event_shape:
  assumes l: "owned_loop l" and c: "c \<in> reading l" and n: "0 \<le> n" "wf_read n bs" and ret: "0 \<le> returned"
  shows "safe (after_read_event l c bs) (read_event returned junk rc c n bs l)"
proof -
  let ?m = "mem (srv l)"
  let ?b = "next_addr ?m"
  let ?m1 = "?m\<lparr>next_addr := Suc ?b, blocks := (blocks ?m)(?b \<mapsto> bs)\<rparr>"
  let ?buf = "\<lparr>buf_base = Some ?b, buf_len = word_of_nat (length bs)\<rparr> :: uv_buf_t"
  obtain p where p: "clients ?m c = Some (Some p)" using owned_loopD(11) [OF l c] by blast
  from registeredE [OF owned_loopD(2) [OF l] p] obtain ps e where ps: "peers ?m p = Some ps" "ps_endpoint ps = client_endpoint (srv l) c"
    by metis
  have unused: "(blocks ?m)(?b := None) = blocks ?m"
    using fresh_memoryD(1) [OF owned_memoryD(1) [OF owned_loopD(1) [OF l]], of ?b] by (simp add: fun_eq_iff)
  have "safe (\<lambda>(w, m'). if n = 0 then w = None \<and> m' = ?m1\<lparr>blocks := (blocks ?m1)(?b := None)\<rparr>
      else w = Some (next_addr ?m1, Submitted_work) \<and>
        (\<exists>m2. new_job c (ps_endpoint ps) (?m1\<lparr>peers := (peers ?m1)(p \<mapsto> ps\<lparr>ps_uvclient := Some c\<rparr>)\<rparr>) (next_addr ?m1) m2 \<and>
          m' = m2\<lparr>blocks := (blocks m2)(?b := None)\<rparr>))
    (on_peer_read returned junk rc c n ?buf ?m1)"
    by (rule read_job [OF _ _ ret n refl]) (use p ps in simp_all)
  then show ?thesis
  proof (cases rule: safeE)
    case (1 f)
    with xmalloc_cases [of "word_of_nat (length bs)" ?m] show ?thesis by (auto simp: read_event_def on_alloc_buffer_def)
  next
    case (2 x)
    then show ?thesis
      using xmalloc_cases [of "word_of_nat (length bs)" ?m] n(1) p ps unused
      by (cases x) (auto simp: after_read_event_def read_event_def on_alloc_buffer_def queued_def with_mem_def split: if_splits)
  qed
qed

lemma read_event_owned:
  assumes l: "owned_loop l" and c: "c \<in> reading l" and n: "0 \<le> n" "wf_read n bs" and ret: "0 \<le> returned"
  shows "safe owned_loop (read_event returned junk rc c n bs l)"
  by (rule safe_mono [OF read_event_shape [OF l c n ret]])
    (use read_none_owned [OF l] read_data_owned [OF l c _ _ refl] in \<open>auto simp: after_read_event_def\<close>)

text \<open>The end of a stream, or an error, when no work of the client is pending.\<close>

definition no_work :: "uv_loop \<Rightarrow> addr \<Rightarrow> bool" where
  "no_work l c \<longleftrightarrow> (\<forall>wd w. works (mem (srv l)) wd = Some w \<longrightarrow> wd_uvclient w \<noteq> Some c)"

lemma alloc_close_safe:
  assumes "ps_uvclient ps = Some c"
  shows "safe (\<lambda>(r, m'). r = Some (next_addr m) \<and> (\<exists>w. m' = m\<lparr>next_addr := next_addr m + 2,
        works := (works m)(next_addr m + 1 \<mapsto> w), work_reqs := (work_reqs m)(next_addr m \<mapsto> Some (next_addr m + 1))\<rparr> \<and>
      wd_uvclient w = Some c \<and> wd_endpoint w = ps_endpoint ps \<and> buf_base (wd_request w) = None \<and> buf_base (wd_response w) = None))
    (alloc_work_req returned junk ps n buf 0 m)"
  unfolding alloc_work_req_def
  by (intro safe_malloc) (use assms in \<open>auto simp: Let_def eval_nat_numeral new_work_fold
    intro!: safe_malloc exI [of _ "new_work junk c (ps_endpoint ps) (uv_buf_init None 0) 0"]\<close>)

lemma leave_owned:
  assumes l: "owned_loop l" and c: "c \<in> reading l" and none: "no_work l c"
    and p: "clients (mem (srv l)) c = Some (Some p)" "peers (mem (srv l)) p = Some ps" and b: "b = next_addr (mem (srv l))"
    and m': "m' = (mem (srv l))\<lparr>peers := (peers (mem (srv l)))(p \<mapsto> ps\<lparr>ps_uvclient := x\<rparr>), next_addr := b + 3,
      works := (works (mem (srv l)))(b + 2 \<mapsto> w), work_reqs := (work_reqs (mem (srv l)))(b + 1 \<mapsto> Some (b + 2))\<rparr>"
    and w: "wd_uvclient w = Some c" "wd_endpoint w = client_endpoint (srv l) c" "buf_base (wd_request w) = None" "buf_base (wd_response w) = None"
  shows "owned_loop ((with_mem l m')\<lparr>pool := pool l @ [(b + 1, Close_work)], reading := reading l - {c}\<rparr>)" (is "owned_loop ?l")
proof -
  note D = owned_loopD [OF l]
  let ?m = "mem (srv l)"
  have srv: "srv ?l = (srv l)\<lparr>mem := m'\<rparr>" by (simp add: with_mem_def)
  have cl: "clients m' = clients ?m" by (simp add: m')
  have other: "job m' r w' \<longleftrightarrow> job ?m r w'" if "r \<noteq> b + 1" for r w'
    by (rule job_new [OF D(1), of "b + 2" r "b + 1"]) (use that b in \<open>simp_all add: m'\<close>)
  have new: "job m' (b + 1) w" by (auto simp: job_def holds_def m')
  have owned: "owned_memory m'"
    by (rule owned_new_job [OF D(1), of "b + 1" "b + 2" "b + 3" w]) (use w p(2) b in \<open>auto simp: m'\<close>)
  have only: "w' = w" if "job m' (b + 1) w'" for w' using job_unique [OF owned new that] by simp
  have "peer_endpoint m' = peer_endpoint ?m" using p(2) by (auto simp: m' peer_endpoint_def)
  then have reg: "registered ((srv l)\<lparr>mem := m'\<rparr>)" "client_endpoint ((srv l)\<lparr>mem := m'\<rparr>) = client_endpoint (srv l)"
    using registered_same [OF D(2), of "(srv l)\<lparr>mem := m'\<rparr>"] b by (simp_all add: m')
  note used = fresh_used [OF l, folded b]
  have busy: "wd_uvclient w' \<noteq> Some c" if "job ?m r w'" for r w' using none that by (auto simp: no_work_def job_def)
  have same: "serves l w' \<Longrightarrow> job ?m r w' \<Longrightarrow> serves ?l w'" "leaves l w' \<Longrightarrow> leaves ?l w'" for r w'
    using busy [of r w'] by (auto simp: serves_def leaves_def with_mem_def reg(2) cl)
  have old: "r \<noteq> b + 1" if "(r, k) \<in> set (pool l)" for r k using used [of r] that by force
  have close: "(r, Close_work) \<in> set (pool ?l) \<longleftrightarrow> (r, Close_work) \<in> set (pool l) \<or> r = b + 1" for r by (auto simp: with_mem_def)
  have mem: "mem (srv ?l) = m'" by (simp add: with_mem_def)
  show ?thesis
  proof (rule owned_loopI; (unfold mem)?)
    show "owned_memory m'" by (rule owned)
    show "registered (srv ?l)" unfolding srv by (rule reg(1))
    show "distinct (map fst (pool ?l) @ finished ?l)" using D(3) used [of "Suc b"] by (auto simp: with_mem_def)
    show "\<exists>w. job m' r w \<and> buf_base (wd_response w) = None \<and> serves ?l w" if q: "(r, Submitted_work) \<in> set (pool ?l)" for r
    proof -
      have r: "(r, Submitted_work) \<in> set (pool l)" using q by (simp add: with_mem_def)
      with D(7) [OF r] other [OF old [OF r]] same(1) [of _ r] show ?thesis by blast
    qed
    show "\<exists>w. job m' r w \<and> buf_base (wd_response w) = None \<and> leaves ?l w" if q: "(r, Close_work) \<in> set (pool ?l)" for r
    proof (cases "r = b + 1")
      case True
      have "leaves ?l w" using w p(1) by (auto simp: leaves_def with_mem_def reg(2) cl)
      with True new w show ?thesis by blast
    next
      case False
      with q close have r: "(r, Close_work) \<in> set (pool l)" by simp
      with D(8) [OF r] other [OF False] same(2) show ?thesis by blast
    qed
    show "\<exists>w. job m' r w \<and> serves ?l w" if q: "r \<in> set (finished ?l @ writing ?l)" for r
    proof -
      have r: "r \<in> set (finished l @ writing l)" using q by (simp add: with_mem_def)
      then have "r \<noteq> b + 1" using used [of r] by auto
      with D(9) [OF r] other [OF this] same(1) [of _ r] show ?thesis by blast
    qed
    show "r = r'" if "(r, Close_work) \<in> set (pool ?l)" "(r', Close_work) \<in> set (pool ?l)" "job m' r w1" "job m' r' w2"
      "wd_uvclient w1 = wd_uvclient w2" for r r' w1 w2
    proof (cases "r = b + 1"; cases "r' = b + 1")
      assume "r = b + 1" "r' \<noteq> b + 1"
      with that only [of w1] other [of r' w2] busy [of r' w2] w(1) show ?thesis by auto
    next
      assume "r \<noteq> b + 1" "r' = b + 1"
      with that only [of w2] other [of r w1] busy [of r w1] w(1) show ?thesis by auto
    next
      assume "r \<noteq> b + 1" "r' \<noteq> b + 1"
      with that other [of r w1] other [of r' w2] D(10) [of r r' w1 w2] close show ?thesis by simp
    qed simp
    show "c' \<in> reading ?l \<or> c' \<in> closing ?l \<or> leaving ?l c'" if x: "clients m' c' = Some x" for c' x
    proof (cases "c' = c")
      case True
      with new w(1) close show ?thesis unfolding leaving_def mem by blast
    next
      case False
      from D(13) [of c' x] x consider "c' \<in> reading l" | "c' \<in> closing l" | "leaving l c'" by (auto simp: m')
      then show ?thesis
      proof cases
        case 3
        then obtain r w' where r: "(r, Close_work) \<in> set (pool l)" "job ?m r w'" "wd_uvclient w' = Some c'" unfolding leaving_def by blast
        with other [OF old [OF r(1)]] close show ?thesis unfolding leaving_def mem by blast
      qed (use False in \<open>simp_all add: with_mem_def\<close>)
    qed
    show "\<exists>p. clients m' c' = Some (Some p)" if "c' \<in> reading ?l" for c' using D(11) [of c'] that by (simp add: m')
    show "clients m' c' = Some None" if "c' \<in> closing ?l" for c' using D(12) [of c'] that by (simp add: m' with_mem_def)
  qed (use D(4-6) b in \<open>auto simp: with_mem_def m'\<close>)
qed

definition after_end_event :: "uv_loop \<Rightarrow> addr \<Rightarrow> uv_loop \<Rightarrow> bool" where
  "after_end_event l c l' \<longleftrightarrow>
     (\<exists>b p ps w m'. b = next_addr (mem (srv l)) \<and> clients (mem (srv l)) c = Some (Some p) \<and> peers (mem (srv l)) p = Some ps \<and>
        m' = (mem (srv l))\<lparr>peers := (peers (mem (srv l)))(p \<mapsto> ps\<lparr>ps_uvclient := Some c\<rparr>), next_addr := b + 3,
          works := (works (mem (srv l)))(b + 2 \<mapsto> w), work_reqs := (work_reqs (mem (srv l)))(b + 1 \<mapsto> Some (b + 2))\<rparr> \<and>
        wd_uvclient w = Some c \<and> wd_endpoint w = client_endpoint (srv l) c \<and> buf_base (wd_request w) = None \<and> buf_base (wd_response w) = None \<and>
        l' = (with_mem l m')\<lparr>pool := pool l @ [(b + 1, Close_work)], reading := reading l - {c}\<rparr>)"

lemma read_end_shape:
  assumes l: "owned_loop l" and c: "c \<in> reading l" and n: "n < 0"
  shows "safe (after_end_event l c) (read_event returned junk rc c n bs l)"
proof -
  let ?m = "mem (srv l)"
  let ?b = "next_addr ?m"
  let ?m1 = "?m\<lparr>next_addr := Suc ?b, blocks := (blocks ?m)(?b \<mapsto> bs)\<rparr>"
  let ?buf = "\<lparr>buf_base = Some ?b, buf_len = word_of_nat (length bs)\<rparr> :: uv_buf_t"
  obtain p where p: "clients ?m c = Some (Some p)" using owned_loopD(11) [OF l c] by blast
  from registeredE [OF owned_loopD(2) [OF l] p] obtain ps e where ps: "peers ?m p = Some ps" "ps_endpoint ps = client_endpoint (srv l) c"
    by metis
  let ?ps = "ps\<lparr>ps_uvclient := Some c\<rparr>"
  let ?m2 = "?m1\<lparr>peers := (peers ?m)(p \<mapsto> ?ps)\<rparr>"
  have unused: "(blocks ?m)(?b := None) = blocks ?m"
    using fresh_memoryD(1) [OF owned_memoryD(1) [OF owned_loopD(1) [OF l]], of ?b] by (simp add: fun_eq_iff)
  have run: "on_peer_read returned junk rc c n ?buf ?m1 =
      bindE (bindE (alloc_work_req returned junk ?ps n ?buf 0 ?m2) (\<lambda>(work_req, m).
          bindE (uv_queue_work rc work_req Close_work) (\<lambda>w. Inr (Some w, m))))
        (\<lambda>(w, m). bindE (free_block (buf_base ?buf) m) (\<lambda>m. Inr (w, m)))"
    using n p ps(1) by (simp add: on_peer_read_def Let_def)
  have alloc: "safe (\<lambda>(r, m'). r = Some (next_addr ?m2) \<and> (\<exists>w. m' = ?m2\<lparr>next_addr := next_addr ?m2 + 2,
        works := (works ?m2)(next_addr ?m2 + 1 \<mapsto> w), work_reqs := (work_reqs ?m2)(next_addr ?m2 \<mapsto> Some (next_addr ?m2 + 1))\<rparr> \<and>
      wd_uvclient w = Some c \<and> wd_endpoint w = ps_endpoint ?ps \<and> buf_base (wd_request w) = None \<and> buf_base (wd_response w) = None))
    (alloc_work_req returned junk ?ps n ?buf 0 ?m2)"
    by (rule alloc_close_safe) simp
  show ?thesis
  proof (cases "xmalloc (word_of_nat (length bs)) ?m = Inl Exit_failure")
    case True
    then show ?thesis by (simp add: read_event_def on_alloc_buffer_def)
  next
    case False
    then have malloc: "xmalloc (word_of_nat (length bs)) ?m = Inr (?b, ?m\<lparr>next_addr := Suc ?b\<rparr>)"
      using xmalloc_cases [of "word_of_nat (length bs)" ?m] by simp
    from alloc show ?thesis
    proof (cases rule: safeE)
      case (1 f)
      with malloc run show ?thesis by (simp add: read_event_def on_alloc_buffer_def)
    next
      case (2 x)
      obtain w where w: "x = (Some (Suc ?b), ?m2\<lparr>next_addr := ?b + 3, works := (works ?m)(?b + 2 \<mapsto> w), work_reqs := (work_reqs ?m)(?b + 1 \<mapsto> Some (?b + 2))\<rparr>)"
        "wd_uvclient w = Some c" "wd_endpoint w = client_endpoint (srv l) c" "buf_base (wd_request w) = None" "buf_base (wd_response w) = None"
        using 2(2) ps(2) by (cases x) (auto simp: eval_nat_numeral)
      have "(with_mem l (?m\<lparr>peers := (peers ?m)(p \<mapsto> ?ps), next_addr := ?b + 3, works := (works ?m)(?b + 2 \<mapsto> w),
          work_reqs := (work_reqs ?m)(?b + 1 \<mapsto> Some (?b + 2))\<rparr>))\<lparr>pool := pool l @ [(?b + 1, Close_work)], reading := reading l - {c}\<rparr> = l' \<Longrightarrow>
          after_end_event l c l'" for l'
        unfolding after_end_event_def using p ps(1) w(2-5) by blast
      then show ?thesis
        using 2(1) malloc run n unused
        by (auto simp: w(1) read_event_def on_alloc_buffer_def uv_queue_work_def free_block_def fail_def queued_def with_mem_def)
    qed
  qed
qed

lemma read_end_owned:
  assumes l: "owned_loop l" and c: "c \<in> reading l" and n: "n < 0" and none: "no_work l c"
  shows "safe owned_loop (read_event returned junk rc c n bs l)"
  by (rule safe_mono [OF read_end_shape [OF l c n]])
    (use leave_owned [OF l c none _ _ refl refl] in \<open>auto simp: after_end_event_def\<close>)

section \<open>Completion and writes\<close>

text \<open>Finished work, and a response that has been written.\<close>

lemma free_work_data_ok:
  assumes "works m wd = Some w"
    and "\<And>a. buf_base (wd_request w) = Some a \<Longrightarrow> \<exists>bs. blocks m a = Some bs"
    and "\<And>a. buf_base (wd_response w) = Some a \<Longrightarrow> \<exists>bs. blocks m a = Some bs"
    and "\<And>a. buf_base (wd_request w) = Some a \<Longrightarrow> buf_base (wd_response w) \<noteq> Some a"
  shows "free_work_data (Some wd) m = Inr (m\<lparr>works := (works m)(wd := None),
    blocks := (\<lambda>a. if buf_base (wd_request w) = Some a \<or> buf_base (wd_response w) = Some a then None else blocks m a)\<rparr>)"
proof -
  let ?m1 = "m\<lparr>blocks := (\<lambda>a. if buf_base (wd_request w) = Some a then None else blocks m a)\<rparr>"
  have free: "free_block p m' = Inr (m'\<lparr>blocks := (\<lambda>a. if p = Some a then None else blocks m' a)\<rparr>)"
    if "\<And>a. p = Some a \<Longrightarrow> \<exists>bs. blocks m' a = Some bs" for p and m' :: memory
    using that by (cases p) (auto simp: free_block_def fun_eq_iff intro!: arg_cong [where f = "\<lambda>x. m'\<lparr>blocks := x\<rparr>"])
  have "free_block (buf_base (wd_request w)) m = Inr ?m1" by (rule free) (rule assms(2))
  moreover have "free_block (buf_base (wd_response w)) ?m1 =
      Inr (?m1\<lparr>blocks := (\<lambda>a. if buf_base (wd_response w) = Some a then None else blocks ?m1 a)\<rparr>)"
    by (rule free) (use assms(3,4) in auto)
  moreover have "(\<lambda>a. if buf_base (wd_response w) = Some a then None else blocks ?m1 a) =
      (\<lambda>a. if buf_base (wd_request w) = Some a \<or> buf_base (wd_response w) = Some a then None else blocks m a)"
    by auto
  ultimately show ?thesis using assms(1) by (simp add: free_work_data_def)
qed

lemma owned_free_work:
  assumes m: "owned_memory m" and "works m wd = Some w"
    and m': "works m' = (works m)(wd \<mapsto> w')" "blocks m' = blocks m" "wd_request w' = wd_request w" "wd_response w' = wd_response w"
  shows "free_work_data (Some wd) m' = Inr (m'\<lparr>works := (works m)(wd := None),
    blocks := (\<lambda>a. if owns m wd a then None else blocks m a)\<rparr>)"
proof -
  have owns: "owns m wd a \<longleftrightarrow> buf_base (wd_request w) = Some a \<or> buf_base (wd_response w) = Some a" for a
    using assms(2) by (simp add: owns_def)
  show ?thesis
    using free_work_data_ok [of m' wd w'] owned_memoryD(7) [OF m, of wd] owned_memoryD(10) [OF m assms(2)]
    by (simp add: m' owns cong: if_cong)
qed

text \<open>What is left when a request is done with, and when a write request takes over its work data.\<close>

definition drop_memory :: "memory \<Rightarrow> addr \<Rightarrow> addr \<Rightarrow> memory" where
  "drop_memory m req wd = m\<lparr>works := (works m)(wd := None), blocks := (\<lambda>a. if owns m wd a then None else blocks m a),
     work_reqs := (work_reqs m)(req := None), write_reqs := (write_reqs m)(req := None)\<rparr>"

definition hand_over :: "memory \<Rightarrow> addr \<Rightarrow> addr \<Rightarrow> memory" where
  "hand_over m req wd = m\<lparr>next_addr := Suc (next_addr m), write_reqs := (write_reqs m)(next_addr m \<mapsto> Some wd),
     work_reqs := (work_reqs m)(req := None)\<rparr>"

lemma drop_request:
  assumes l: "owned_loop l" and h: "holds (mem (srv l)) req wd"
    and m': "m' = drop_memory (mem (srv l)) req wd"
    and no: "req \<notin> set (map fst (pool l))" and fin: "finished l' = remove1 req (finished l)" and wrt: "writing l' = remove1 req (writing l)"
    and l': "srv l' = (srv l)\<lparr>mem := m'\<rparr>" "pool l' = pool l" "reading l' = reading l" "closing l' = closing l"
  shows "owned_loop l'"
proof -
  note m' = m' [unfolded drop_memory_def]
  note D = owned_loopD [OF l]
  let ?m = "mem (srv l)"
  have other: "job m' r w \<longleftrightarrow> job ?m r w" if "r \<noteq> req" for r w
    by (rule job_other [OF D(1) h that]) (use that in \<open>simp_all add: m'\<close>)
  have pool: "r \<noteq> req" if "(r, k) \<in> set (pool l)" for r k using no that by force
  have sets: "set (finished l') = set (finished l) - {req}" "set (writing l') = set (writing l) - {req}"
    using D(3,5) by (simp_all add: fin wrt)
  show ?thesis
  proof (rule owned_loop_work [OF l])
    show "owned_memory (mem (srv l'))"
      unfolding l' by (simp, rule owned_drop [OF D(1) h]) (simp_all add: m')
    show "distinct (map fst (pool l') @ finished l')" using D(3) sets(1) by (auto simp: l' fin)
    show "dom (work_reqs (mem (srv l'))) = set (map fst (pool l') @ finished l')"
      using D(4) no sets(1) by (auto simp: l' m')
    show "dom (write_reqs (mem (srv l'))) = set (writing l')" using D(6) sets(2) by (auto simp: l' m')
    show "job (mem (srv l')) r w \<longleftrightarrow> job ?m r w" if "(r, Close_work) \<in> set (pool l)" for r w
      using other [OF pool [OF that]] by (simp add: l')
    show "\<exists>w. job (mem (srv l')) r w \<and> buf_base (wd_response w) = None \<and> serves l w" if "(r, Submitted_work) \<in> set (pool l')" for r
      using task_kept(1) [where m' = m' and r = r, OF l other] pool [of r] that by (simp add: l')
    show "\<exists>w. job (mem (srv l')) r w \<and> serves l w" if "r \<in> set (finished l' @ writing l')" for r
      using task_kept(2) [where m' = m' and r = r, OF l other] sets that by (auto simp: l')
  qed (use D(5) in \<open>simp_all add: l' m' wrt peer_endpoint_def fun_eq_iff\<close>)
qed

lemma completed_event_run:
  assumes l: "owned_loop l" and fin: "finished l = req # rest" and m: "m = mem (srv l)"
  obtains w wd c p where "job m req w" and "serves l w" and "work_reqs m req = Some (Some wd)" and "write_reqs m req = None"
    and "works m wd = Some w" and "holds m req wd" and "wd_uvclient w = Some c" and "clients m c = Some (Some p)"
    and "\<And>rc status. completed_event rc status l =
      (if status \<noteq> 0 then Inl Exit_failure
       else if buf_base (wd_response w) = None then Inr (l\<lparr>srv := (srv l)\<lparr>mem := drop_memory m req wd\<rparr>, finished := rest\<rparr>)
       else if next_addr m < mem_limit m \<and> 0 \<le> rc then
         Inr (l\<lparr>srv := (srv l)\<lparr>mem := hand_over m req wd\<rparr>, finished := rest, writing := writing l @ [next_addr m]\<rparr>)
       else Inl Exit_failure)"
proof -
  note D = owned_loopD [OF l, folded m]
  obtain w where j: "job m req w" "serves l w" using D(9) [of req] fin by auto
  obtain wd where req: "work_reqs m req = Some (Some wd)" "write_reqs m req = None" "works m wd = Some w" "holds m req wd"
    using work_request [OF l _ j(1) [unfolded m]] fin by (auto simp: m)
  from serves_unfold [OF l j(2)] obtain c p where c: "wd_uvclient w = Some c" "clients m c = Some (Some p)" unfolding m by metis
  let ?m1 = "m\<lparr>works := (works m)(wd \<mapsto> w\<lparr>wd_endpoint := None, wd_uvclient := None\<rparr>)\<rparr>"
  have free: "free_work_data (Some wd) ?m1 = Inr (?m1\<lparr>works := (works m)(wd := None), blocks := (\<lambda>a. if owns m wd a then None else blocks m a)\<rparr>)"
    by (rule owned_free_work [where w' = "w\<lparr>wd_endpoint := None, wd_uvclient := None\<rparr>", OF D(1) req(3)]) simp_all
  have drop: "drop_memory m req wd = m\<lparr>works := (works m)(wd := None), blocks := (\<lambda>a. if owns m wd a then None else blocks m a),
      work_reqs := (work_reqs m)(req := None)\<rparr>"
    using req(2) by (simp add: drop_memory_def fun_upd_idem)
  show thesis
  proof (rule that [OF j req c])
    fix rc status
    show "completed_event rc status l =
      (if status \<noteq> 0 then Inl Exit_failure
       else if buf_base (wd_response w) = None then Inr (l\<lparr>srv := (srv l)\<lparr>mem := drop_memory m req wd\<rparr>, finished := rest\<rparr>)
       else if next_addr m < mem_limit m \<and> 0 \<le> rc then
         Inr (l\<lparr>srv := (srv l)\<lparr>mem := hand_over m req wd\<rparr>, finished := rest, writing := writing l @ [next_addr m]\<rparr>)
       else Inl Exit_failure)"
      using free req fin c unfolding drop hand_over_def
      by (simp add: completed_event_def on_work_completed_def fail_def xmalloc_def sizeof_struct_def Let_def flip: m)
  qed
qed

lemma completed_event_owned:
  assumes l: "owned_loop l" and fin: "finished l = req # rest"
  shows "safe owned_loop (completed_event rc status l)"
proof (rule completed_event_run [OF l fin refl])
  note D = owned_loopD [OF l]
  let ?m = "mem (srv l)"
  let ?wr = "next_addr ?m"
  fix w wd c p
  assume j: "job ?m req w" "serves l w"
    and req: "work_reqs ?m req = Some (Some wd)" "write_reqs ?m req = None" "works ?m wd = Some w" "holds ?m req wd"
    and run: "\<And>rc status. completed_event rc status l =
      (if status \<noteq> 0 then Inl Exit_failure
       else if buf_base (wd_response w) = None then Inr (l\<lparr>srv := (srv l)\<lparr>mem := drop_memory ?m req wd\<rparr>, finished := rest\<rparr>)
       else if ?wr < mem_limit ?m \<and> 0 \<le> rc then
         Inr (l\<lparr>srv := (srv l)\<lparr>mem := hand_over ?m req wd\<rparr>, finished := rest, writing := writing l @ [?wr]\<rparr>)
       else Inl Exit_failure)"
  have no: "req \<notin> set (map fst (pool l))" "req \<notin> set rest" using D(3) fin by auto
  have unwritten: "req \<notin> set (writing l)" using D(6) req(2) by auto
  have quiet: "owned_loop (l\<lparr>srv := (srv l)\<lparr>mem := drop_memory ?m req wd\<rparr>, finished := rest\<rparr>)"
    by (rule drop_request [OF l req(4) refl no(1)]) (use fin unwritten in \<open>simp_all add: remove1_idem\<close>)
  have send: "owned_loop (l\<lparr>srv := (srv l)\<lparr>mem := hand_over ?m req wd\<rparr>, finished := rest, writing := writing l @ [?wr]\<rparr>)" (is "owned_loop ?l")
  proof -
    let ?m' = "mem (srv ?l)"
    have other: "job ?m' r w' \<longleftrightarrow> job ?m r w'" if "r \<noteq> req" "r \<noteq> ?wr" for r w'
      by (rule job_other [OF D(1) req(4) that(1)]) (use that in \<open>simp_all add: hand_over_def\<close>)
    have new: "job ?m' ?wr w" using req(3) by (auto simp: job_def holds_def hand_over_def)
    note used = fresh_used [OF l]
    have pool: "r \<noteq> req" "r \<noteq> ?wr" if "(r, k) \<in> set (pool l)" for r k
      using no(1) used [of r] that by force+
    show ?thesis
    proof (rule owned_loop_work [OF l])
      show "owned_memory (mem (srv ?l))" by (rule owned_hand_over [OF D(1) req(1), of ?wr]) (simp_all add: hand_over_def)
      show "distinct (writing ?l)" using D(5) used [of ?wr] by auto
      show "job (mem (srv ?l)) r w' \<longleftrightarrow> job ?m r w'" if "(r, Close_work) \<in> set (pool l)" for r w'
        using other [OF pool [OF that]] .
      show "\<exists>w. job (mem (srv ?l)) r w \<and> buf_base (wd_response w) = None \<and> serves l w" if "(r, Submitted_work) \<in> set (pool ?l)" for r
        using task_kept(1) [where m' = ?m' and r = r, OF l other] pool [of r Submitted_work] that by simp
      show "\<exists>w. job (mem (srv ?l)) r w \<and> serves l w" if q: "r \<in> set (finished ?l @ writing ?l)" for r
      proof (cases "r = ?wr")
        case True
        with new j(2) show ?thesis by blast
      next
        case False
        have "r \<noteq> req" "r \<in> set (finished l @ writing l)" using q no(2) unwritten fin False by auto
        with task_kept(2) [where m' = ?m' and r = r, OF l other] False show ?thesis by blast
      qed
    qed (use D(3,4,6) fin in \<open>auto simp: peer_endpoint_def hand_over_def\<close>)
  qed
  from quiet send show ?thesis by (simp add: run)
qed

lemma sent_event_run:
  assumes l: "owned_loop l" and wr: "wr \<in> set (writing l)" and m: "m = mem (srv l)"
  obtains wd where "holds m wr wd" and "wr \<notin> set (map fst (pool l) @ finished l)"
    and "sent_event 0 wr l = Inr (l\<lparr>srv := (srv l)\<lparr>mem := drop_memory m wr wd\<rparr>, writing := remove1 wr (writing l)\<rparr>)"
proof -
  note D = owned_loopD [OF l, folded m]
  have "wr \<in> dom (write_reqs m)" using D(6) wr by simp
  then obtain wd w where wd: "write_reqs m wr = Some (Some wd)" "works m wd = Some w"
    using owned_memoryD(3) [OF D(1), of wr] by blast
  then have hold: "holds m wr wd" by (simp add: holds_def)
  have unworked: "work_reqs m wr = None" using owned_memoryD(4) [OF D(1), of wr] wd by simp
  then have no: "wr \<notin> set (map fst (pool l) @ finished l)" using D(4) by blast
  have "free_work_data (Some wd) m = Inr (m\<lparr>works := (works m)(wd := None), blocks := (\<lambda>a. if owns m wd a then None else blocks m a)\<rparr>)"
    by (rule owned_free_work [OF D(1) wd(2)]) (use wd(2) in \<open>simp_all add: map_upd_triv\<close>)
  moreover have "drop_memory m wr wd = m\<lparr>works := (works m)(wd := None), blocks := (\<lambda>a. if owns m wd a then None else blocks m a),
      write_reqs := (write_reqs m)(wr := None)\<rparr>"
    using unworked by (simp add: drop_memory_def fun_upd_idem)
  ultimately have "sent_event 0 wr l = Inr (l\<lparr>srv := (srv l)\<lparr>mem := drop_memory m wr wd\<rparr>, writing := remove1 wr (writing l)\<rparr>)"
    using wd by (simp add: sent_event_def on_sent_response_def flip: m)
  from that [OF hold no this] show thesis .
qed

lemma sent_event_owned:
  assumes l: "owned_loop l" and wr: "wr \<in> set (writing l)"
  shows "safe owned_loop (sent_event status wr l)"
proof (cases "status = 0")
  case True
  let ?m = "mem (srv l)"
  from sent_event_run [OF l wr refl] obtain wd where hold: "holds ?m wr wd" and no: "wr \<notin> set (map fst (pool l) @ finished l)"
    and run: "sent_event 0 wr l = Inr (l\<lparr>srv := (srv l)\<lparr>mem := drop_memory ?m wr wd\<rparr>, writing := remove1 wr (writing l)\<rparr>)" .
  have "owned_loop (l\<lparr>srv := (srv l)\<lparr>mem := drop_memory ?m wr wd\<rparr>, writing := remove1 wr (writing l)\<rparr>)"
    by (rule drop_request [OF l hold refl]) (use no in \<open>simp_all add: remove1_idem\<close>)
  with run True show ?thesis by simp
qed (simp add: sent_event_def on_sent_response_def fail_def)

section \<open>Connections\<close>

text \<open>Steps that change the register only: the requests and their work data are as before.\<close>

lemma register_step:
  assumes l: "owned_loop l" and reg: "registered s'" and m': "fresh_memory (mem s')"
    and same: "blocks (mem s') = blocks (mem (srv l))" "works (mem s') = works (mem (srv l))"
      "work_reqs (mem s') = work_reqs (mem (srv l))" "write_reqs (mem s') = write_reqs (mem (srv l))"
      "pool l' = pool l" "finished l' = finished l" "writing l' = writing l" "srv l' = s'"
    and old: "\<And>c p. clients (mem (srv l)) c = Some (Some p) \<Longrightarrow> clients (mem s') c = Some (Some p) \<and>
        client_endpoint s' c = client_endpoint (srv l) c \<and> (c \<in> reading l' \<longleftrightarrow> c \<in> reading l)"
    and reading: "\<And>c. c \<in> reading l' \<Longrightarrow> \<exists>p. clients (mem s') c = Some (Some p)"
    and closing: "\<And>c. c \<in> closing l' \<Longrightarrow> clients (mem s') c = Some None"
    and known: "\<And>c x. clients (mem s') c = Some x \<Longrightarrow> c \<in> reading l' \<or> c \<in> closing l' \<or> leaving l c"
  shows "owned_loop l'"
proof -
  note D = owned_loopD [OF l]
  have job: "job (mem s') r w \<longleftrightarrow> job (mem (srv l)) r w" for r w by (simp add: job_def holds_def same)
  have serves': "serves l' w" if s: "serves l w" for w
  proof -
    obtain c a where c: "wd_uvclient w = Some c" "c \<in> reading l" "wd_endpoint w = client_endpoint (srv l) c"
      "buf_base (wd_request w) = Some a" using s unfolding serves_def by blast
    obtain p where p: "clients (mem (srv l)) c = Some (Some p)" using D(11) [OF c(2)] by blast
    from old [OF p] c show ?thesis by (auto simp: serves_def same)
  qed
  have leaves': "leaves l' w" if s: "leaves l w" for w
  proof -
    obtain c p where c: "wd_uvclient w = Some c" "c \<notin> reading l" "wd_endpoint w = client_endpoint (srv l) c"
      "clients (mem (srv l)) c = Some (Some p)" "buf_base (wd_request w) = None" using s unfolding leaves_def by blast
    from old [OF c(4)] c show ?thesis by (auto simp: leaves_def same)
  qed
  have leaving: "leaving l' c \<longleftrightarrow> leaving l c" for c by (simp add: leaving_def same job)
  show ?thesis
  proof (rule owned_loopI)
    show "owned_memory (mem (srv l'))" by (rule owned_same [OF D(1)]) (use same m' in simp_all)
    show "\<exists>w. job (mem (srv l')) r w \<and> buf_base (wd_response w) = None \<and> serves l' w" if "(r, Submitted_work) \<in> set (pool l')" for r
      using D(7) [of r] serves' that by (auto simp: same job)
    show "\<exists>w. job (mem (srv l')) r w \<and> buf_base (wd_response w) = None \<and> leaves l' w" if "(r, Close_work) \<in> set (pool l')" for r
      using D(8) [of r] leaves' that by (auto simp: same job)
    show "\<exists>w. job (mem (srv l')) r w \<and> serves l' w" if "r \<in> set (finished l' @ writing l')" for r
      using D(9) [of r] serves' that by (auto simp: same job)
    show "r = r'" if "(r, Close_work) \<in> set (pool l')" "(r', Close_work) \<in> set (pool l')" "job (mem (srv l')) r w"
      "job (mem (srv l')) r' w'" "wd_uvclient w = wd_uvclient w'" for r r' w w'
      using D(10) [of r r' w w'] that by (simp add: same job)
  qed (use D(3-6) reg reading closing known in \<open>simp_all add: same leaving\<close>)
qed

lemma connect_event_owned:
  assumes l: "owned_loop l"
  shows "safe owned_loop (connect_event rcs junk status l)"
proof -
  note D = owned_loopD [OF l]
  let ?m = "mem (srv l)"
  let ?a = "next_addr ?m"
  let ?m1 = "?m\<lparr>next_addr := Suc ?a, clients := (clients ?m)(?a \<mapsto> None)\<rparr>"
  let ?m2 = "?m\<lparr>next_addr := Suc (Suc (Suc ?a)), peers := (peers ?m)(Suc ?a \<mapsto> \<lparr>ps_uvclient = Some ?a, ps_endpoint = Some (Suc (Suc ?a))\<rparr>),
    clients := (clients ?m)(?a \<mapsto> Some (Suc ?a))\<rparr>"
  note fm = owned_memoryD(1) [OF D(1)]
  note fresh = fresh_memoryD [OF fm]
  have old: "c \<noteq> ?a" if "clients ?m c = Some x" for c x using fresh(5) [of ?a] that by auto
  have unread: "?a \<notin> reading l" "?a \<notin> closing l" using D(11,12) old by blast+
  have closing: "owned_loop (l\<lparr>srv := (srv l)\<lparr>mem := ?m1\<rparr>, closing := insert ?a (closing l)\<rparr>)"
  proof -
    let ?s = "(srv l)\<lparr>mem := ?m1\<rparr>"
    have reg: "registered ?s" "client_endpoint ?s = client_endpoint (srv l)"
      by (rule registered_closing [OF D(2), of ?a "Some None"]; use fresh(5) [of ?a] in \<open>simp add: peer_endpoint_def fun_eq_iff\<close>)+
    show ?thesis
    proof (rule register_step [OF l reg(1)])
      show "fresh_memory (mem ?s)" using fresh by (simp add: fresh_memory_def)
    qed (use D(11-13) old unread reg(2) in \<open>auto split: if_splits\<close>)
  qed
  have reading: "owned_loop (l\<lparr>srv := (srv l)\<lparr>mem := ?m2, endpoints := (endpoints (srv l))(Suc (Suc ?a) \<mapsto> ep)\<rparr>,
      reading := insert ?a (reading l)\<rparr>)" for ep
  proof -
    let ?s = "(srv l)\<lparr>mem := ?m2, endpoints := (endpoints (srv l))(Suc (Suc ?a) \<mapsto> ep)\<rparr>"
    have reg: "registered ?s" "client_endpoint ?s = (client_endpoint (srv l))(?a \<mapsto> Suc (Suc ?a))"
      by (rule registered_new [OF D(2) fm, of ?a "Suc ?a" "Suc (Suc ?a)"]; simp add: peer_endpoint_def fun_eq_iff)+
    show ?thesis
    proof (rule register_step [OF l reg(1)])
      show "fresh_memory (mem ?s)" using fresh by (simp add: fresh_memory_def)
    qed (use D(11-13) old unread reg(2) in \<open>auto split: if_splits\<close>)
  qed
  have same: "l\<lparr>srv := srv l, reading := reading l, closing := closing l\<rparr> = l" by simp
  from closing reading l show ?thesis
    using xmalloc_cases [of sizeof_struct ?m] xmalloc_cases [of sizeof_struct ?m1]
      xmalloc_cases [of sizeof_struct "?m1\<lparr>next_addr := Suc (Suc ?a)\<rparr>"]
    by (auto simp: connect_event_def on_peer_connected_def fail_def Let_def)
qed

lemma closed_event_owned:
  assumes l: "owned_loop l" and c: "c \<in> closing l"
  shows "safe owned_loop (closed_event c l)"
proof -
  note D = owned_loopD [OF l]
  let ?m = "mem (srv l)"
  let ?s = "(srv l)\<lparr>mem := ?m\<lparr>clients := (clients ?m)(c := None)\<rparr>\<rparr>"
  have reg: "registered ?s" "client_endpoint ?s = client_endpoint (srv l)"
    by (rule registered_closing [OF D(2), of c None]; use D(12) [OF c] in \<open>simp add: peer_endpoint_def fun_eq_iff\<close>)+
  have unread: "c \<notin> reading l" using D(11) [of c] D(12) [OF c] by auto
  have "owned_loop (l\<lparr>srv := ?s, closing := closing l - {c}\<rparr>)"
  proof (rule register_step [OF l reg(1)])
    show "fresh_memory (mem ?s)"
      using fresh_memoryD [OF owned_memoryD(1) [OF D(1)]] by (simp add: fresh_memory_def)
  qed (use D(11-13) D(12) [OF c] unread reg(2) in \<open>auto split: if_splits\<close>)
  then show ?thesis using D(12) [OF c] by (simp add: closed_event_def on_client_closed_def)
qed

section \<open>Orderly runs\<close>

text \<open>
  The steps of the loop in which a client leaves only when no work of its own is pending, and the
  copy of the bytes of a read is taken to have succeeded.
\<close>

inductive orderly_step :: "uv_loop \<Rightarrow> fault + uv_loop \<Rightarrow> bool" where
  or_connect: "orderly_step l (connect_event rcs junk status l)"
| or_read: "client \<in> reading l \<Longrightarrow> wf_read nread bs \<Longrightarrow> 0 \<le> nread \<Longrightarrow> 0 \<le> returned \<Longrightarrow>
    orderly_step l (read_event returned junk rc client nread bs l)"
| or_leave: "client \<in> reading l \<Longrightarrow> wf_read nread bs \<Longrightarrow> nread < 0 \<Longrightarrow> no_work l client \<Longrightarrow>
    orderly_step l (read_event returned junk rc client nread bs l)"
| or_work: "pool l \<noteq> [] \<Longrightarrow> (\<And>k. wf_garbage (fst (gs k))) \<Longrightarrow> orderly_step l (work_event returned gs l)"
| or_completed: "finished l \<noteq> [] \<Longrightarrow> orderly_step l (completed_event rc status l)"
| or_sent: "w \<in> set (writing l) \<Longrightarrow> orderly_step l (sent_event status w l)"
| or_closed: "handle \<in> closing l \<Longrightarrow> orderly_step l (closed_event handle l)"

inductive orderly_run :: "uv_loop \<Rightarrow> fault + uv_loop \<Rightarrow> bool" where
  orderly_start: "orderly_run l (Inr l)"
| orderly_next: "orderly_run l (Inr l1) \<Longrightarrow> orderly_step l1 r \<Longrightarrow> orderly_run l r"

lemma orderly_step_loop_step: "orderly_step l r \<Longrightarrow> loop_step l r"
  by (induction rule: orderly_step.induct) (auto intro: loop_step.intros)

lemma orderly_run_loop_run: "orderly_run l r \<Longrightarrow> loop_run l r"
  by (induction rule: orderly_run.induct) (auto intro: loop_run.intros orderly_step_loop_step)

lemma orderly_step_owned: "orderly_step l r \<Longrightarrow> owned_loop l \<Longrightarrow> safe owned_loop r"
proof (induction rule: orderly_step.induct)
  case (or_work l gs returned)
  obtain req k rest where pool: "pool l = (req, k) # rest" using or_work(1) by (cases "pool l") auto
  then show ?case
    using work_event_owned [OF or_work(3)] close_event_owned [OF or_work(3)] by (cases k) auto
next
  case (or_completed l rc status)
  then show ?case using completed_event_owned by (cases "finished l") auto
qed (auto intro: connect_event_owned read_event_owned read_end_owned sent_event_owned closed_event_owned)

lemma orderly_run_owned: "orderly_run l r \<Longrightarrow> owned_loop l \<Longrightarrow> safe owned_loop r"
  by (induction rule: orderly_run.induct) (auto dest: orderly_step_owned)

definition start_loop :: "addr \<Rightarrow> uv_loop" where
  "start_loop limit = \<lparr>srv = \<lparr>mem = \<lparr>next_addr = 0, mem_limit = limit, blocks = Map.empty, works = Map.empty,
       work_reqs = Map.empty, write_reqs = Map.empty, clients = Map.empty, peers = Map.empty\<rparr>, endpoints = Map.empty\<rparr>,
     reading = {}, pool = [], finished = [], writing = [], closing = {}\<rparr>"

lemma start_loop_owned: "owned_loop (start_loop limit)"
  by (simp add: owned_loop_def start_loop_def owned_memory_def fresh_memory_def holds_def owns_def registered_def
      peer_endpoint_def)

text \<open>Nothing is allocated.\<close>

definition no_objects :: "server \<Rightarrow> bool" where
  "no_objects s \<longleftrightarrow> blocks (mem s) = Map.empty \<and> works (mem s) = Map.empty \<and> work_reqs (mem s) = Map.empty \<and>
     write_reqs (mem s) = Map.empty \<and> clients (mem s) = Map.empty \<and> peers (mem s) = Map.empty \<and> endpoints s = Map.empty"

lemma owned_quiet:
  assumes l: "owned_loop l" and "pool l = []" "finished l = []" "writing l = []"
  shows "blocks (mem (srv l)) = Map.empty" and "works (mem (srv l)) = Map.empty"
    and "work_reqs (mem (srv l)) = Map.empty" and "write_reqs (mem (srv l)) = Map.empty"
proof -
  note D = owned_loopD [OF l]
  show reqs: "work_reqs (mem (srv l)) = Map.empty" "write_reqs (mem (srv l)) = Map.empty"
    using D(4,6) assms(2-4) by simp_all
  have works: "works (mem (srv l)) wd = None" for wd
    using owned_memoryD(5) [OF D(1), of wd] reqs by (cases "works (mem (srv l)) wd") (auto simp: holds_def)
  then show "works (mem (srv l)) = Map.empty" by auto
  have "blocks (mem (srv l)) a = None" for a
    using owned_memoryD(8) [OF D(1), of a] works by (cases "blocks (mem (srv l)) a") (auto simp: owns_def)
  then show "blocks (mem (srv l)) = Map.empty" by auto
qed

lemma owned_empty:
  assumes l: "owned_loop l" and q: "pool l = []" "finished l = []" "writing l = []" and r: "reading l = {}" "closing l = {}"
  shows "no_objects (srv l)"
proof -
  note D = owned_loopD [OF l]
  note reg = registeredD [OF D(2)]
  have c: "clients (mem (srv l)) c = None" for c
    using D(13) [of c] q(1) r by (cases "clients (mem (srv l)) c") (auto simp: leaving_def)
  have p: "peer_endpoint (mem (srv l)) p = None" for p
    using reg(3) [of p] c by (cases "peer_endpoint (mem (srv l)) p") auto
  have "endpoints (srv l) e = None" for e
    using reg(5) [of e] p by (cases "endpoints (srv l) e") auto
  moreover have "peers (mem (srv l)) p = None" for p using p [of p] by (simp add: peer_endpoint_def)
  ultimately show ?thesis using owned_quiet [OF l q] c by (auto simp: no_objects_def)
qed

text \<open>C9: the memory of the server. From the start, over any number of connections, reads and replies in any order,
  as long as clients leave only when no work of theirs is pending: the callbacks use nothing after it has been
  freed, free nothing twice and keep the assertion of the read; whenever no work is pending
  and no reply is being written, no buffer and no request is left on the heap, and when all clients have
  gone nothing is. (What libuv itself does with the handle of a client is not part of the model.)\<close>

theorem server_memory_safe:
  assumes "orderly_run (start_loop limit) r"
  shows "case r of
      Inl f \<Rightarrow> f \<noteq> Use_after_free \<and> f \<noteq> Bad_free \<and> f \<noteq> Assert_failed
    | Inr l \<Rightarrow> (pool l = [] \<and> finished l = [] \<and> writing l = [] \<longrightarrow>
          blocks (mem (srv l)) = Map.empty \<and> works (mem (srv l)) = Map.empty \<and>
          work_reqs (mem (srv l)) = Map.empty \<and> write_reqs (mem (srv l)) = Map.empty \<and>
          (reading l = {} \<and> closing l = {} \<longrightarrow> no_objects (srv l)))"
proof -
  have "safe owned_loop r" by (rule orderly_run_owned [OF assms start_loop_owned])
  then show ?thesis
    by (cases r) (auto simp: heap_faults_def owned_quiet owned_empty)
qed

text \<open>A client connects and leaves again.\<close>

definition one_client :: uv_loop where
  "one_client = (start_loop 20)\<lparr>
     srv := \<lparr>mem = (mem (srv (start_loop 20)))\<lparr>next_addr := 3, clients := [0 \<mapsto> Some 1],
         peers := [1 \<mapsto> \<lparr>ps_uvclient = Some 0, ps_endpoint = Some 2\<rparr>]\<rparr>,
       endpoints = [2 \<mapsto> WebSocketEndpoint_new None]\<rparr>,
     reading := {0}\<rparr>"

definition client_left :: uv_loop where
  "client_left = one_client\<lparr>
     srv := (srv one_client)\<lparr>mem := (mem (srv one_client))\<lparr>next_addr := 6,
         works := [5 \<mapsto> new_work sample_work 0 (Some 2) (uv_buf_init None 0) 0], work_reqs := [4 \<mapsto> Some 5]\<rparr>\<rparr>,
     reading := {}, pool := [(4, Close_work)]\<rparr>"

lemma one_client_connects: "connect_event all_well None 0 (start_loop 20) = Inr one_client"
  by (simp add: connect_event_def on_peer_connected_def xmalloc_def sizeof_struct_def start_loop_def one_client_def
      all_well_def Let_def numeral_2_eq_2 [symmetric])

lemma one_client_leaves: "read_event 0 sample_work 0 0 (- 1) [] one_client = Inr client_left"
  by (simp add: read_event_def on_alloc_buffer_def on_peer_read_def alloc_work_req_def xmalloc_def sizeof_struct_def
      start_loop_def one_client_def client_left_def Let_def uv_queue_work_def free_block_def queued_def with_mem_def new_work_fold)

theorem server_memory_safe_witness:
  "\<exists>l. orderly_run (start_loop 20) (Inr l) \<and> next_addr (mem (srv l)) = 6 \<and> no_objects (srv l)"
proof -
  obtain l where l: "work_event 0 (\<lambda>_. (zero_garbage, zero_garbage)) client_left = Inr l"
    "pool l = []" "finished l = []" "writing l = []" "reading l = {}" "closing l = {}" "next_addr (mem (srv l)) = 6"
    by (simp add: work_event_def client_left_def one_client_def start_loop_def on_work_client_closed_def free_block_def Let_def)
  have "orderly_run (start_loop 20) (Inr one_client)"
    using orderly_next [OF orderly_start or_connect] one_client_connects by metis
  moreover have "orderly_step one_client (Inr client_left)"
    using or_leave [of 0 one_client "- 1" "[]" 0 sample_work 0] one_client_leaves
    by (simp add: one_client_def start_loop_def no_work_def wf_read_def)
  moreover have "orderly_step client_left (Inr l)"
    using or_work [of client_left "\<lambda>_. (zero_garbage, zero_garbage)" 0] l(1) by (simp add: client_left_def)
  ultimately have run: "orderly_run (start_loop 20) (Inr l)" by (blast intro: orderly_next)
  with server_memory_safe [OF run] l show ?thesis by auto
qed

text \<open>C28: the state of the loop is well-formed at the start and after every orderly step: every request
  in the queues has work data of its own that belong to a client and its endpoint, every block of memory
  belongs to one of them, every client has a state and an endpoint of its own, and is read from, being closed or leaving.\<close>

theorem server_keeps_well_formed:
  assumes "owned_loop l" and "orderly_step l r"
  shows "owned_loop (start_loop limit) \<and>
    (case r of Inl f \<Rightarrow> f \<noteq> Use_after_free \<and> f \<noteq> Bad_free \<and> f \<noteq> Assert_failed | Inr l' \<Rightarrow> owned_loop l')"
  using start_loop_owned orderly_step_owned [OF assms(2,1)] by (cases r) (auto simp: heap_faults_def)

theorem server_keeps_well_formed_witness: "owned_loop client_left"
proof -
  have "orderly_step (start_loop 20) (Inr one_client)"
    using or_connect [of "start_loop 20" all_well None 0] by (simp add: one_client_connects)
  from server_keeps_well_formed [OF start_loop_owned this] have "owned_loop one_client" by simp
  moreover have "orderly_step one_client (Inr client_left)"
    using or_leave [of 0 one_client "- 1" "[]" 0 sample_work 0] one_client_leaves
    by (simp add: one_client_def start_loop_def no_work_def wf_read_def)
  ultimately show ?thesis using server_keeps_well_formed [of one_client "Inr client_left"] by simp
qed

end
