(* ===== verification/Uv_Isolation.thy ===== *)
theory Uv_Isolation
  imports Uv_Server_Safety
begin

text \<open>
  The two threads of the server of src/src/main.cpp. While the pool's thread is inside \<^verbatim>\<open>on_work_submitted\<close>, the
  thread of the loop goes on calling the other callbacks. They use different objects: what the work reads is not changed by any
  number of other callbacks, and what the work changes is used by none of them.
\<close>

section \<open>What a step leaves alone\<close>

text \<open>A request that a step leaves alone.\<close>

definition untouched :: "memory \<Rightarrow> memory \<Rightarrow> addr \<Rightarrow> bool" where
  "untouched m m' r \<longleftrightarrow> work_reqs m' r = work_reqs m r \<and>
     (\<forall>wd. work_reqs m r = Some (Some wd) \<longrightarrow> works m' wd = works m wd \<and> (\<forall>a. owns m wd a \<longrightarrow> blocks m' a = blocks m a))"

text \<open>Two requests do not share anything.\<close>

lemma others_untouched:
  assumes m: "owned_memory m" and h: "holds m req wd" and r: "r \<noteq> req" "work_reqs m' r = work_reqs m r"
    and works: "\<And>wd'. wd' \<noteq> wd \<Longrightarrow> wd' < next_addr m \<Longrightarrow> works m' wd' = works m wd'"
    and blocks: "\<And>a. a < next_addr m \<Longrightarrow> \<not> owns m wd a \<Longrightarrow> blocks m' a = blocks m a"
  shows "untouched m m' r"
  unfolding untouched_def
proof (intro conjI allI impI)
  fix wd' assume wd': "work_reqs m r = Some (Some wd')"
  then have hold: "holds m r wd'" by (simp add: holds_def)
  then have ne: "wd' \<noteq> wd" using owned_memoryD(6) [OF m h, of r] r(1) by auto
  show "works m' wd' = works m wd'" using works [OF ne] held_used(2) [OF m hold] .
  fix a assume a: "owns m wd' a"
  then have "\<not> owns m wd a" using owned_memoryD(9) [OF m a, of wd] ne by auto
  then show "blocks m' a = blocks m a" using blocks owned_used(1) [OF m a] by blast
qed (rule r(2))

lemma old_untouched:
  assumes m: "owned_memory m" and r: "work_reqs m' r = work_reqs m r"
    and works: "\<And>wd'. wd' < next_addr m \<Longrightarrow> works m' wd' = works m wd'"
    and blocks: "\<And>a. a < next_addr m \<Longrightarrow> blocks m' a = blocks m a"
  shows "untouched m m' r"
  unfolding untouched_def
proof (intro conjI allI impI r)
  fix wd assume "work_reqs m r = Some (Some wd)"
  then have "holds m r wd" by (simp add: holds_def)
  then show "works m' wd = works m wd" by (rule works [OF held_used(2) [OF m]])
  show "blocks m' a = blocks m a" if "owns m wd a" for a by (rule blocks [OF owned_used(1) [OF m that]])
qed

lemma queued_used: "owned_loop l \<Longrightarrow> r \<in> set (map fst (pool l)) \<Longrightarrow> r < next_addr (mem (srv l))"
  using fresh_used [of l r] by simp

lemma finished_used: "owned_loop l \<Longrightarrow> r \<in> set (finished l) \<Longrightarrow> r < next_addr (mem (srv l))"
  using fresh_used [of l r] by simp

text \<open>A step of the loop's thread, seen from the work that is queued or running.\<close>

definition undisturbed :: "uv_loop \<Rightarrow> uv_loop \<Rightarrow> bool" where
  "undisturbed l l' \<longleftrightarrow> (\<exists>q. pool l' = pool l @ q) \<and> (\<forall>r \<in> set (map fst (pool l)). untouched (mem (srv l)) (mem (srv l')) r) \<and>
     (\<forall>e ep. endpoints (srv l) e = Some ep \<longrightarrow> endpoints (srv l') e = Some ep)"

lemma undisturbed_trans:
  assumes "undisturbed l l1" and "undisturbed l1 l2"
  shows "undisturbed l l2"
proof -
  obtain q q1 where q: "pool l1 = pool l @ q" "pool l2 = pool l1 @ q1" using assms by (auto simp: undisturbed_def)
  have "untouched (mem (srv l)) (mem (srv l2)) r" if r: "r \<in> set (map fst (pool l))" for r
  proof -
    have u: "untouched (mem (srv l)) (mem (srv l1)) r" "untouched (mem (srv l1)) (mem (srv l2)) r"
      using assms r q(1) by (auto simp: undisturbed_def)
    show ?thesis unfolding untouched_def
    proof (intro conjI allI impI)
      show "work_reqs (mem (srv l2)) r = work_reqs (mem (srv l)) r" using u by (simp add: untouched_def)
      fix wd assume wd: "work_reqs (mem (srv l)) r = Some (Some wd)"
      then show "works (mem (srv l2)) wd = works (mem (srv l)) wd" using u by (simp add: untouched_def)
      fix a assume "owns (mem (srv l)) wd a"
      then have "owns (mem (srv l1)) wd a" using u(1) wd by (simp add: untouched_def owns_def)
      with u wd \<open>owns (mem (srv l)) wd a\<close> show "blocks (mem (srv l2)) a = blocks (mem (srv l)) a" by (simp add: untouched_def)
    qed
  qed
  with assms q show ?thesis by (simp add: undisturbed_def)
qed

lemma undisturbed_fresh:
  assumes l: "owned_loop l" and pool: "pool l' = pool l @ q"
    and reqs: "\<And>r. r < next_addr (mem (srv l)) \<Longrightarrow> work_reqs (mem (srv l')) r = work_reqs (mem (srv l)) r"
    and works: "\<And>wd. wd < next_addr (mem (srv l)) \<Longrightarrow> works (mem (srv l')) wd = works (mem (srv l)) wd"
    and blocks: "\<And>a. a < next_addr (mem (srv l)) \<Longrightarrow> blocks (mem (srv l')) a = blocks (mem (srv l)) a"
    and ends: "\<And>e ep. endpoints (srv l) e = Some ep \<Longrightarrow> endpoints (srv l') e = Some ep"
  shows "undisturbed l l'"
  using old_untouched [OF owned_loopD(1) [OF l] reqs [OF queued_used [OF l]] works blocks] pool ends
  by (simp add: undisturbed_def)

section \<open>The callbacks of the loop\<close>

lemma read_undisturbed:
  assumes l: "owned_loop l" and a: "after_read_event l c bs l'"
  shows "undisturbed l l'"
  using a unfolding after_read_event_def
proof (elim disjE exE conjE)
  assume "l' = with_mem l ((mem (srv l))\<lparr>next_addr := Suc (next_addr (mem (srv l)))\<rparr>)"
  then show ?thesis by (intro undisturbed_fresh [OF l, of _ "[]"]) (simp_all add: with_mem_def)
next
  fix b p ps m'
  assume b: "b = next_addr (mem (srv l))" and job: "new_job c (client_endpoint (srv l) c) ((mem (srv l))\<lparr>next_addr := Suc b,
      blocks := (blocks (mem (srv l)))(b \<mapsto> bs), peers := (peers (mem (srv l)))(p \<mapsto> ps\<lparr>ps_uvclient := Some c\<rparr>)\<rparr>) (Suc b) m'"
    and l': "l' = (with_mem l (m'\<lparr>blocks := (blocks m')(b := None)\<rparr>))\<lparr>pool := pool l @ [(Suc b, Submitted_work)]\<rparr>"
  from job show ?thesis
    by (intro undisturbed_fresh [OF l, of _ "[(Suc b, Submitted_work)]"]) (auto simp: l' with_mem_def new_job_def b)
qed

lemma end_undisturbed:
  assumes l: "owned_loop l" and a: "after_end_event l c l'"
  shows "undisturbed l l'"
  using a unfolding after_end_event_def
  by (elim exE conjE) (rule undisturbed_fresh [OF l], auto simp: with_mem_def)

lemma connect_undisturbed:
  assumes l: "owned_loop l"
  shows "safe (undisturbed l) (connect_event rcs junk status l)"
proof -
  let ?m = "mem (srv l)"
  let ?a = "next_addr ?m"
  let ?m1 = "?m\<lparr>next_addr := Suc ?a, clients := (clients ?m)(?a \<mapsto> None)\<rparr>"
  let ?m2 = "?m\<lparr>next_addr := Suc (Suc (Suc ?a)), peers := (peers ?m)(Suc ?a \<mapsto> \<lparr>ps_uvclient = Some ?a, ps_endpoint = Some (Suc (Suc ?a))\<rparr>),
    clients := (clients ?m)(?a \<mapsto> Some (Suc ?a))\<rparr>"
  have "endpoints (srv l) (Suc (Suc ?a)) = None" using registeredD(6) [OF owned_loopD(2) [OF l]] by simp
  then have "undisturbed l (l\<lparr>srv := (srv l)\<lparr>mem := ?m2, endpoints := (endpoints (srv l))(Suc (Suc ?a) \<mapsto> ep)\<rparr>,
      reading := insert ?a (reading l)\<rparr>)" for ep
    by (intro undisturbed_fresh [OF l, of _ "[]"]) auto
  moreover have "undisturbed l (l\<lparr>srv := (srv l)\<lparr>mem := ?m1\<rparr>, closing := insert ?a (closing l)\<rparr>)" "undisturbed l l"
    by (rule undisturbed_fresh [OF l, of _ "[]"]; simp)+
  ultimately show ?thesis
    using xmalloc_cases [of sizeof_struct ?m] xmalloc_cases [of sizeof_struct ?m1]
      xmalloc_cases [of sizeof_struct "?m1\<lparr>next_addr := Suc (Suc ?a)\<rparr>"]
    by (auto simp: connect_event_def on_peer_connected_def fail_def Let_def)
qed

lemma drop_undisturbed:
  assumes l: "owned_loop l" and h: "holds (mem (srv l)) req wd" and no: "req \<notin> set (map fst (pool l))"
    and m': "mem (srv l') = drop_memory (mem (srv l)) req wd \<or> mem (srv l') = hand_over (mem (srv l)) req wd"
    and l': "pool l' = pool l" "endpoints (srv l') = endpoints (srv l)"
  shows "undisturbed l l'"
proof -
  have "untouched (mem (srv l)) (mem (srv l')) r" if r: "r \<in> set (map fst (pool l))" for r
  proof -
    have "r \<noteq> req" using no r by blast
    then show ?thesis
      by (rule others_untouched [OF owned_loopD(1) [OF l] h]) (use m' \<open>r \<noteq> req\<close> in \<open>auto simp: drop_memory_def hand_over_def\<close>)
  qed
  with l' show ?thesis by (simp add: undisturbed_def)
qed

lemma completed_undisturbed:
  assumes l: "owned_loop l" and fin: "finished l = req # rest"
  shows "safe (undisturbed l) (completed_event rc status l)"
proof (rule completed_event_run [OF l fin refl])
  fix w wd c p
  let ?m = "mem (srv l)"
  assume h: "holds ?m req wd"
    and run: "\<And>rc status. completed_event rc status l =
      (if status \<noteq> 0 then Inl Exit_failure
       else if buf_base (wd_response w) = None then Inr (l\<lparr>srv := (srv l)\<lparr>mem := drop_memory ?m req wd\<rparr>, finished := rest\<rparr>)
       else if next_addr ?m < mem_limit ?m \<and> 0 \<le> rc then
         Inr (l\<lparr>srv := (srv l)\<lparr>mem := hand_over ?m req wd\<rparr>, finished := rest, writing := writing l @ [next_addr ?m]\<rparr>)
       else Inl Exit_failure)"
  have "req \<notin> set (map fst (pool l))" using owned_loopD(3) [OF l] fin by auto
  note drop = drop_undisturbed [OF l h this]
  show ?thesis by (simp add: run drop)
qed

lemma sent_undisturbed:
  assumes l: "owned_loop l" and w: "w \<in> set (writing l)"
  shows "safe (undisturbed l) (sent_event status w l)"
proof (cases "status = 0")
  case True
  from sent_event_run [OF l w refl] obtain wd where h: "holds (mem (srv l)) w wd" "w \<notin> set (map fst (pool l) @ finished l)"
    "sent_event 0 w l = Inr (l\<lparr>srv := (srv l)\<lparr>mem := drop_memory (mem (srv l)) w wd\<rparr>, writing := remove1 w (writing l)\<rparr>)" .
  then show ?thesis using drop_undisturbed [OF l h(1)] True by simp
qed (simp add: sent_event_def on_sent_response_def fail_def)

lemma closed_undisturbed:
  assumes l: "owned_loop l" and c: "c \<in> closing l"
  shows "safe (undisturbed l) (closed_event c l)"
proof -
  have "clients (mem (srv l)) c = Some None" by (rule owned_loopD(12) [OF l c])
  then show ?thesis
    by (simp add: closed_event_def on_client_closed_def) (rule undisturbed_fresh [OF l, of _ "[]"], simp_all)
qed

text \<open>The steps of the loop's thread, and any number of them.\<close>

inductive loop_thread_step :: "uv_loop \<Rightarrow> fault + uv_loop \<Rightarrow> bool" where
  lt_connect: "loop_thread_step l (connect_event rcs junk status l)"
| lt_read: "client \<in> reading l \<Longrightarrow> wf_read nread bs \<Longrightarrow> 0 \<le> nread \<Longrightarrow> 0 \<le> returned \<Longrightarrow>
    loop_thread_step l (read_event returned junk rc client nread bs l)"
| lt_leave: "client \<in> reading l \<Longrightarrow> wf_read nread bs \<Longrightarrow> nread < 0 \<Longrightarrow> no_work l client \<Longrightarrow>
    loop_thread_step l (read_event returned junk rc client nread bs l)"
| lt_completed: "finished l \<noteq> [] \<Longrightarrow> loop_thread_step l (completed_event rc status l)"
| lt_sent: "w \<in> set (writing l) \<Longrightarrow> loop_thread_step l (sent_event status w l)"
| lt_closed: "handle \<in> closing l \<Longrightarrow> loop_thread_step l (closed_event handle l)"

inductive loop_thread_run :: "uv_loop \<Rightarrow> uv_loop \<Rightarrow> bool" where
  lt_start: "loop_thread_run l l"
| lt_next: "loop_thread_run l l1 \<Longrightarrow> loop_thread_step l1 (Inr l2) \<Longrightarrow> loop_thread_run l l2"

lemma loop_thread_step_orderly: "loop_thread_step l r \<Longrightarrow> orderly_step l r"
  by (induction rule: loop_thread_step.induct) (auto intro: orderly_step.intros)

lemma loop_thread_step_undisturbed: "loop_thread_step l r \<Longrightarrow> owned_loop l \<Longrightarrow> safe (undisturbed l) r"
proof (induction rule: loop_thread_step.induct)
  case (lt_read client l nread bs returned junk rc)
  note l = lt_read.prems
  show ?case by (rule safe_mono [OF read_event_shape [OF l lt_read.hyps(1,3,2,4)] read_undisturbed [OF l]])
next
  case (lt_leave client l nread bs returned junk rc)
  note l = lt_leave.prems
  show ?case by (rule safe_mono [OF read_end_shape [OF l lt_leave.hyps(1,3)] end_undisturbed [OF l]])
next
  case (lt_completed l rc status)
  then show ?case using completed_undisturbed by (cases "finished l") auto
qed (auto intro: connect_undisturbed sent_undisturbed closed_undisturbed)

lemma loop_thread_run_undisturbed: "loop_thread_run l l' \<Longrightarrow> owned_loop l \<Longrightarrow> owned_loop l' \<and> undisturbed l l'"
proof (induction rule: loop_thread_run.induct)
  case (lt_start l)
  then show ?case by (simp add: undisturbed_def untouched_def)
next
  case (lt_next l l1 l2)
  then have l1: "owned_loop l1" "undisturbed l l1" by simp_all
  have "safe owned_loop (Inr l2)" "safe (undisturbed l1) (Inr l2)"
    using orderly_step_owned [OF loop_thread_step_orderly [OF lt_next.hyps(2)] l1(1)]
      loop_thread_step_undisturbed [OF lt_next.hyps(2) l1(1)] by auto
  with undisturbed_trans [OF l1(2)] show ?case by simp
qed

section \<open>The pool's thread\<close>

definition changes_only :: "addr \<Rightarrow> addr \<Rightarrow> server \<Rightarrow> server \<Rightarrow> bool" where
  "changes_only wd e s s' \<longleftrightarrow> clients (mem s') = clients (mem s) \<and> peers (mem s') = peers (mem s) \<and>
     work_reqs (mem s') = work_reqs (mem s) \<and> write_reqs (mem s') = write_reqs (mem s) \<and>
     (\<forall>wd'. wd' \<noteq> wd \<longrightarrow> works (mem s') wd' = works (mem s) wd') \<and>
     (\<forall>a < next_addr (mem s). blocks (mem s') a = blocks (mem s) a) \<and>
     (\<forall>e'. e' \<noteq> e \<longrightarrow> endpoints s' e' = endpoints s e')"

lemma work_changes_only:
  assumes m: "owned_memory (mem s)" and h: "holds_request s req wd bs e ep" and run: "on_work_submitted returned gs req s = Inr s'"
  shows "changes_only wd e s s'"
proof -
  obtain w a where w: "work_reqs (mem s) req = Some (Some wd)" "works (mem s) wd = Some w" "wd_endpoint w = Some e"
    "endpoints s e = Some ep" "buf_base (wd_request w) = Some a" "buf_base (wd_response w) = None"
    using h by (auto simp: holds_request_def)
  from on_work_submitted_safe [OF m w, of returned gs] run obtain m' ep' where
    "answered wd w (mem s) (wd, m')" "s' = s\<lparr>mem := m', endpoints := (endpoints s)(e \<mapsto> ep')\<rparr>" by auto
  then show ?thesis
    by (auto simp: changes_only_def answered_def split: option.splits)
qed

lemma undisturbed_holds:
  assumes u: "undisturbed l l'" and r: "req \<in> set (map fst (pool l))" and h: "holds_request (srv l) req wd bs e ep"
    and room: "next_addr (mem (srv l')) < mem_limit (mem (srv l'))"
  shows "holds_request (srv l') req wd bs e ep"
proof -
  obtain w a where w: "work_reqs (mem (srv l)) req = Some (Some wd)" "works (mem (srv l)) wd = Some w"
    "wd_request w = \<lparr>buf_base = Some a, buf_len = word_of_nat (length bs)\<rparr>" "blocks (mem (srv l)) a = Some bs"
    "buf_base (wd_response w) = None" "wd_endpoint w = Some e" "endpoints (srv l) e = Some ep" "bs \<noteq> []" "length bs < 2 ^ 31"
    using h unfolding holds_request_def by blast
  have "untouched (mem (srv l)) (mem (srv l')) req" using u r unfolding undisturbed_def by blast
  moreover have "owns (mem (srv l)) wd a" using w(2,3) by (simp add: owns_def)
  moreover have "endpoints (srv l') e = Some ep" using u w(7) by (simp add: undisturbed_def)
  ultimately show ?thesis using w room by (simp add: holds_request_def untouched_def)
qed

text \<open>A client's message is queued, and another one arrives while the pool works on the first.\<close>

definition first_read :: uv_loop where
  "first_read = (with_mem one_client (after_read sample_work 0 2 hello_bytes (mem (srv one_client))))\<lparr>pool := [(4, Submitted_work)]\<rparr>"

lemma first_read_run: "read_event 0 sample_work 0 0 (int (length hello_bytes)) hello_bytes one_client = Inr first_read"
proof -
  have "connected (srv one_client) 0 1 2 (WebSocketEndpoint_new None)" "idle one_client"
    by (simp_all add: connected_def idle_def fresh_memory_def one_client_def start_loop_def)
  from read_event_idle [OF this, of 0 0 hello_bytes sample_work] show ?thesis
    by (simp add: first_read_def one_client_def start_loop_def hello_bytes_def)
qed

definition second_read :: uv_loop where
  "second_read = (with_mem first_read (after_read sample_work 0 2 hello_bytes (mem (srv first_read))))
     \<lparr>pool := pool first_read @ [(8, Submitted_work)]\<rparr>"

lemma second_read_run: "read_event 0 sample_work 0 0 (int (length hello_bytes)) hello_bytes first_read = Inr second_read"
proof -
  have "connected (srv first_read) 0 1 2 (WebSocketEndpoint_new None)" "fresh_memory (mem (srv first_read))"
    by (simp_all add: connected_def fresh_memory_def first_read_def with_mem_def after_read_def one_client_def start_loop_def)
  from read_event_data [OF this(1) refl this(2) _ _ _ _ _ refl, of 0 0 hello_bytes "[]" sample_work] show ?thesis
    by (simp add: second_read_def after_read_def Let_def first_read_def with_mem_def one_client_def start_loop_def hello_bytes_def)
qed

lemma first_read_holds: "holds_request (srv first_read) 4 5 hello_bytes 2 (WebSocketEndpoint_new None)"
  by (simp add: holds_request_def first_read_def with_mem_def after_read_def one_client_def start_loop_def hello_bytes_def)

section \<open>Properties\<close>



end
