(* ===== verification/Uv_Pipeline.thy ===== *)
theory Uv_Pipeline
  imports Uv_Session Uv_Isolation
begin

text \<open>
  The server of src/src/main.cpp under load: reads of any number of clients arrive while earlier work is
  still queued for the pool, finished, or being written. Whatever the order in which the callbacks run,
  every client is answered as its automaton (\<open>Uv_Session\<close>) answers its reads, in their order, and no callback fails.
\<close>

section \<open>The automaton of a client is deterministic\<close>

definition endpoint_in :: "peer \<Rightarrow> endpoint" where
  "endpoint_in st =
     (case st of
        Waiting \<Rightarrow> WebSocketEndpoint_new None
      | Opened acc pre \<Rightarrow> (WebSocketEndpoint_new None)\<lparr>ws_handshake_completed := True, fromwire_buf := buf_of pre, message_data := buf_of acc\<rparr>)"

lemma endpoint_in_state: "in_state (endpoint_in st) st"
  by (cases st) (simp_all add: endpoint_in_def WebSocketEndpoint_new_def ByteBuffer_new_buf_of)

lemma in_state_unique: "in_state ep st \<Longrightarrow> in_state ep st' \<Longrightarrow> st = st'"
  by (cases st; cases st') (auto simp: buf_of_def)

lemma response_free_empty: "response_free w \<Longrightarrow> response_bytes w = None"
  by (auto simp: response_free_def response_bytes_def split: option.splits)

definition free_memory :: "addr \<times> memory" where
  "free_memory = (0, (mem (srv (start_loop 2)))\<lparr>next_addr := 1, works := [0 \<mapsto> sample_work]\<rparr>)"

lemma free_memory_free: "response_free free_memory"
  by (simp add: free_memory_def response_free_def start_loop_def sample_work_def)

lemma peer_step_deterministic:
  assumes "peer_step st bs out st1" and "peer_step st bs out' st1'"
  shows "out' = out \<and> st1' = st1"
proof -
  let ?put = "\<lambda>out. case out of [] \<Rightarrow> free_memory | b # _ \<Rightarrow> put_response free_memory b"
  note step = from_wire_peer_step [where gs = "\<lambda>_. (zero_garbage, zero_garbage)" and returned = 0,
      OF _ endpoint_in_state free_memory_free, of st bs]
  obtain ep ep' where ep: "length out \<le> 1" "in_state ep st1" "nt_work_data ep = Some (?put out)"
    and ep': "length out' \<le> 1" "in_state ep' st1'" "nt_work_data ep' = Some (?put out')" and "ep' = ep"
    using step [OF assms(1)] step [OF assms(2)] wf_zero_garbage by auto
  then have "?put out = ?put out'" by simp
  then have "response_bytes (?put out) = response_bytes (?put out')" by (rule arg_cong)
  then have "out' = out"
    using ep(1) ep'(1) response_free_empty [OF free_memory_free] on_write.stored_put [OF free_memory_free]
    by (cases out; cases out') auto
  moreover have "st1' = st1" using in_state_unique ep(2) ep'(2) \<open>ep' = ep\<close> by blast
  ultimately show ?thesis ..
qed

lemma peer_run_append:
  "peer_run st (bss @ bss') outs st' \<longleftrightarrow>
     (\<exists>outs1 outs2 st1. peer_run st bss outs1 st1 \<and> peer_run st1 bss' outs2 st' \<and> outs = outs1 @ outs2)"
proof (induction bss arbitrary: st outs)
  case Nil
  show ?case by (auto elim: peer_run_NilE intro: peer_end)
next
  case (Cons bs bss)
  show ?case
  proof
    assume "peer_run st ((bs # bss) @ bss') outs st'"
    then obtain out st1 outs1 where "peer_step st bs out st1" "peer_run st1 (bss @ bss') outs1 st'" "outs = out @ outs1"
      by (auto elim: peer_runE)
    with Cons.IH show "\<exists>outs1 outs2 st1. peer_run st (bs # bss) outs1 st1 \<and> peer_run st1 bss' outs2 st' \<and> outs = outs1 @ outs2"
      by (metis append.assoc peer_next)
  next
    assume "\<exists>outs1 outs2 st1. peer_run st (bs # bss) outs1 st1 \<and> peer_run st1 bss' outs2 st' \<and> outs = outs1 @ outs2"
    then obtain out st1 outs1 outs2 st2 where "peer_step st bs out st1" "peer_run st1 bss outs1 st2" "peer_run st2 bss' outs2 st'"
      "outs = (out @ outs1) @ outs2" by (auto elim: peer_runE)
    with Cons.IH show "peer_run st ((bs # bss) @ bss') outs st'" by (fastforce intro: peer_next)
  qed
qed

lemma peer_run_deterministic:
  "peer_run st bss outs st1 \<Longrightarrow> peer_run st bss outs' st1' \<Longrightarrow> outs' = outs \<and> st1' = st1"
proof (induction st bss outs st1 arbitrary: outs' rule: peer_run.induct)
  case (peer_end st)
  then show ?case by (auto elim: peer_run_NilE)
next
  case (peer_next st bs out st1 bss outs st2)
  from peer_next.prems show ?case
    by (rule peer_runE) (use peer_step_deterministic [OF peer_next.hyps(1)] peer_next.IH in blast)
qed

lemma peer_run_snoc: "peer_run st bss outs st1 \<Longrightarrow> peer_step st1 bs out st2 \<Longrightarrow> peer_run st (bss @ [bs]) (outs @ out) st2"
  using peer_next [OF _ peer_end, of st1 bs out st2] by (auto simp: peer_run_append)

section \<open>What the loop holds\<close>

text \<open>The work data of a queued request, the bytes it brings and the bytes it answers, with the client.\<close>

definition job_at :: "memory \<Rightarrow> addr \<Rightarrow> peer_work_data_t option" where
  "job_at m r = (case work_reqs m r of Some (Some wd) \<Rightarrow> works m wd | _ \<Rightarrow> None)"

definition held_bytes :: "memory \<Rightarrow> addr option \<Rightarrow> uv_buf_t \<Rightarrow> (addr \<times> bytes) list" where
  "held_bytes m client buf =
     (case (client, buf_base buf) of
        (Some c, Some a) \<Rightarrow> (case blocks m a of Some bs \<Rightarrow> [(c, bs)] | None \<Rightarrow> [])
      | _ \<Rightarrow> [])"

definition request_at :: "memory \<Rightarrow> addr \<Rightarrow> (addr \<times> bytes) list" where
  "request_at m r = (case job_at m r of Some w \<Rightarrow> held_bytes m (wd_uvclient w) (wd_request w) | None \<Rightarrow> [])"

definition reply_at :: "memory \<Rightarrow> addr \<Rightarrow> (addr \<times> bytes) list" where
  "reply_at m r = (case job_at m r of Some w \<Rightarrow> held_bytes m (wd_uvclient w) (wd_response w) | None \<Rightarrow> [])"

text \<open>The reads that wait for the pool, and the replies that wait for the loop.\<close>

definition waiting_reads :: "uv_loop \<Rightarrow> (addr \<times> bytes) list" where
  "waiting_reads l = concat (map (request_at (mem (srv l))) (map fst (pool l)))"

definition ready_replies :: "uv_loop \<Rightarrow> (addr \<times> bytes) list" where
  "ready_replies l = concat (map (reply_at (mem (srv l))) (finished l))"

text \<open>The length of a request is that of its bytes.\<close>

definition sized :: "memory \<Rightarrow> addr \<Rightarrow> bool" where
  "sized m r \<longleftrightarrow> (\<forall>w a bs. job_at m r = Some w \<longrightarrow> buf_base (wd_request w) = Some a \<longrightarrow> blocks m a = Some bs \<longrightarrow>
     buf_len (wd_request w) = word_of_nat (length bs) \<and> bs \<noteq> [] \<and> length bs < 2 ^ 31)"

text \<open>Of an untouched request.\<close>

lemma untouched_same:
  assumes "untouched m m' r"
  shows "request_at m' r = request_at m r" and "reply_at m' r = reply_at m r" and "sized m' r \<longleftrightarrow> sized m r"
proof -
  have job: "job_at m' r = job_at m r" using assms by (auto simp: untouched_def job_at_def split: option.splits)
  have bl: "blocks m' a = blocks m a"
    if "job_at m r = Some w" "buf_base (wd_request w) = Some a \<or> buf_base (wd_response w) = Some a" for w a
    using assms that by (auto simp: untouched_def job_at_def owns_def split: option.splits)
  have held: "held_bytes m' c b = held_bytes m c b" if "\<And>a. buf_base b = Some a \<Longrightarrow> blocks m' a = blocks m a" for c b
    using that by (auto simp: held_bytes_def split: option.splits)
  show "request_at m' r = request_at m r" "reply_at m' r = reply_at m r"
    by (cases "job_at m r"; use job bl in \<open>auto simp: request_at_def reply_at_def intro!: held\<close>)+
  show "sized m' r \<longleftrightarrow> sized m r" using bl by (auto simp: sized_def job)
qed

lemma queue_untouched:
  assumes "\<And>r. r \<in> set (map fst (pool l)) \<Longrightarrow> untouched (mem (srv l)) m' r"
  shows "map (request_at m') (map fst (pool l)) = map (request_at (mem (srv l))) (map fst (pool l))"
    and "(\<forall>r \<in> set (map fst (pool l)). sized m' r) \<longleftrightarrow> (\<forall>r \<in> set (map fst (pool l)). sized (mem (srv l)) r)"
  using untouched_same [OF assms] by (auto simp del: map_map)

lemma finished_untouched:
  assumes "\<And>r. r \<in> set rs \<Longrightarrow> untouched m m' r"
  shows "map (reply_at m') rs = map (reply_at m) rs"
  using untouched_same(2) [OF assms] by simp

section \<open>Runs with what goes in and out\<close>

text \<open>
  The steps of the loop, with the bytes that come from clients and those that are handed to \<^verbatim>\<open>uv_write\<close>,
  while libuv reports no failure. A client leaves when no work of its own is pending.
\<close>

definition written_by :: "uv_loop \<Rightarrow> fault + uv_loop \<Rightarrow> (addr \<times> bytes) list" where
  "written_by l r =
     (case r of
        Inl _ \<Rightarrow> []
      | Inr l' \<Rightarrow> concat (map (outgoing (srv l')) (drop (length (writing l)) (writing l'))))"

definition no_failure :: "connect_results \<Rightarrow> bool" where
  "no_failure rcs \<longleftrightarrow> 0 \<le> rc_tcp_init rcs \<and> 0 \<le> rc_getpeername rcs \<and> 0 \<le> rc_read_start rcs"

inductive io_step :: "uv_loop \<Rightarrow> (addr \<times> bytes) list \<Rightarrow> (addr \<times> bytes) list \<Rightarrow> fault + uv_loop \<Rightarrow> bool" where
  io_connect: "no_failure rcs \<Longrightarrow> io_step l [] [] (connect_event rcs junk status l)"
| io_nothing: "client \<in> reading l \<Longrightarrow> length bs < 2 ^ 31 \<Longrightarrow> 0 \<le> returned \<Longrightarrow>
    io_step l [] [] (read_event returned junk rc client 0 bs l)"
| io_read: "client \<in> reading l \<Longrightarrow> bs \<noteq> [] \<Longrightarrow> length (bs @ slack) < 2 ^ 31 \<Longrightarrow> 0 \<le> returned \<Longrightarrow> 0 \<le> rc \<Longrightarrow>
    io_step l [(client, bs)] [] (read_event returned junk rc client (int (length bs)) (bs @ slack) l)"
| io_leave: "client \<in> reading l \<Longrightarrow> length bs < 2 ^ 31 \<Longrightarrow> nread < 0 \<Longrightarrow> 0 \<le> rc \<Longrightarrow> no_work l client \<Longrightarrow>
    io_step l [] [] (read_event returned junk rc client nread bs l)"
| io_work: "pool l \<noteq> [] \<Longrightarrow> (\<And>k. wf_garbage (fst (gs k))) \<Longrightarrow> io_step l [] [] (work_event returned gs l)"
| io_completed: "finished l \<noteq> [] \<Longrightarrow> 0 \<le> rc \<Longrightarrow>
    io_step l [] (written_by l (completed_event rc 0 l)) (completed_event rc 0 l)"
| io_sent: "w \<in> set (writing l) \<Longrightarrow> io_step l [] [] (sent_event 0 w l)"
| io_closed: "handle \<in> closing l \<Longrightarrow> io_step l [] [] (closed_event handle l)"

text \<open>Every step finds room for the objects it allocates.\<close>

inductive io_run :: "uv_loop \<Rightarrow> (addr \<times> bytes) list \<Rightarrow> (addr \<times> bytes) list \<Rightarrow> fault + uv_loop \<Rightarrow> bool" where
  io_start: "io_run l [] [] (Inr l)"
| io_next: "io_run l ins outs (Inr l1) \<Longrightarrow> next_addr (mem (srv l1)) + 6 \<le> mem_limit (mem (srv l1)) \<Longrightarrow>
    io_step l1 i out r \<Longrightarrow> io_run l (ins @ i) (outs @ out) r"

lemma io_step_orderly: "io_step l i out r \<Longrightarrow> orderly_step l r"
  by (induction rule: io_step.induct) (auto intro: orderly_step.intros simp: wf_read_def)

lemma io_run_orderly: "io_run l ins outs r \<Longrightarrow> orderly_run l r"
  by (induction rule: io_run.induct) (auto intro: orderly_run.intros io_step_orderly)

text \<open>What is still to be done, and a step that does some of it.\<close>

definition pending :: "uv_loop \<Rightarrow> nat" where
  "pending l = 3 * length (pool l) + 2 * length (finished l) + length (writing l)"

definition moves :: "uv_loop \<Rightarrow> uv_loop \<Rightarrow> bool" where
  "moves l l' \<longleftrightarrow> pending l' < pending l \<and> mem_limit (mem (srv l')) = mem_limit (mem (srv l)) \<and>
     next_addr (mem (srv l')) + pending l' \<le> next_addr (mem (srv l)) + pending l"

section \<open>Every client in step with its automaton\<close>

definition in_order :: "uv_loop \<Rightarrow> (addr \<times> bytes) list \<Rightarrow> (addr \<times> bytes) list \<Rightarrow> addr \<Rightarrow> bool" where
  "in_order l ins outs c \<longleftrightarrow> (\<exists>taken st. bytes_of c ins = taken @ bytes_of c (waiting_reads l) \<and>
     peer_run Waiting taken (bytes_of c outs @ bytes_of c (ready_replies l)) st \<and>
     (c \<in> reading l \<longrightarrow> (\<exists>p e ep. connected (srv l) c p e ep \<and> in_state ep st)))"

definition follows :: "uv_loop \<Rightarrow> (addr \<times> bytes) list \<Rightarrow> (addr \<times> bytes) list \<Rightarrow> bool" where
  "follows l ins outs \<longleftrightarrow> owned_loop l \<and> (\<forall>r \<in> set (map fst (pool l)). sized (mem (srv l)) r) \<and>
     (\<forall>c \<ge> next_addr (mem (srv l)). bytes_of c ins = []) \<and> (\<forall>c. in_order l ins outs c)"

lemma followsD:
  assumes "follows l ins outs"
  shows "owned_loop l" and "r \<in> set (map fst (pool l)) \<Longrightarrow> sized (mem (srv l)) r"
    and "next_addr (mem (srv l)) \<le> c \<Longrightarrow> bytes_of c ins = []" and "in_order l ins outs c"
  using assms unfolding follows_def by blast+

lemma connected_reading:
  assumes "follows l ins outs" and "c \<in> reading l"
  obtains p e ep where "connected (srv l) c p e ep"
  using followsD(4) [OF assms(1), of c] assms(2) by (auto simp: in_order_def)

text \<open>Steps that do not change the requests.\<close>

lemma same_requests:
  assumes "blocks m' = blocks m" and "works m' = works m" and "work_reqs m' = work_reqs m"
  shows "request_at m' = request_at m" and "reply_at m' = reply_at m" and "sized m' = sized m"
proof -
  have job: "job_at m' = job_at m" by (simp add: job_at_def fun_eq_iff assms cong: option.case_cong)
  have held: "held_bytes m' = held_bytes m" by (simp add: held_bytes_def fun_eq_iff assms cong: option.case_cong)
  show "request_at m' = request_at m" "reply_at m' = reply_at m" by (simp_all add: request_at_def reply_at_def fun_eq_iff job held split: option.split)
  show "sized m' = sized m" by (simp add: sized_def fun_eq_iff job assms)
qed

lemma in_order_same:
  assumes "in_order l ins outs c" and "waiting_reads l' = waiting_reads l" and "ready_replies l' = ready_replies l"
    and "\<And>p e ep. c \<in> reading l' \<Longrightarrow> c \<in> reading l \<and> (connected (srv l) c p e ep \<longrightarrow> connected (srv l') c p e ep)"
  shows "in_order l' ins outs c"
  using assms unfolding in_order_def by metis

lemma follows_register:
  assumes f: "follows l ins outs" and l': "owned_loop l'"
    and same: "blocks (mem (srv l')) = blocks (mem (srv l))" "works (mem (srv l')) = works (mem (srv l))"
      "work_reqs (mem (srv l')) = work_reqs (mem (srv l))" "pool l' = pool l" "finished l' = finished l"
      "next_addr (mem (srv l)) \<le> next_addr (mem (srv l'))"
    and old: "\<And>c p e ep. c \<in> reading l' \<Longrightarrow> c < next_addr (mem (srv l)) \<Longrightarrow>
      c \<in> reading l \<and> (connected (srv l) c p e ep \<longrightarrow> connected (srv l') c p e ep)"
    and new: "\<And>c. c \<in> reading l' \<Longrightarrow> next_addr (mem (srv l)) \<le> c \<Longrightarrow> \<exists>p e ep. connected (srv l') c p e ep \<and> in_state ep Waiting"
  shows "follows l' ins outs"
  unfolding follows_def
proof (intro conjI allI ballI impI l')
  note views = same_requests [OF same(1-3)]
  have w: "waiting_reads l' = waiting_reads l" "ready_replies l' = ready_replies l"
    by (simp_all add: waiting_reads_def ready_replies_def views same)
  show "sized (mem (srv l')) r" if "r \<in> set (map fst (pool l'))" for r
    using followsD(2) [OF f, of r] that by (simp add: views same)
  show "bytes_of c ins = []" if "next_addr (mem (srv l')) \<le> c" for c using followsD(3) [OF f, of c] same(6) that by simp
  fix c
  note io = followsD(4) [OF f, of c]
  show "in_order l' ins outs c"
  proof (cases "c < next_addr (mem (srv l))")
    case True
    with old show ?thesis by (intro in_order_same [OF io w]) blast
  next
    case False
    then have none: "bytes_of c ins = []" using followsD(3) [OF f, of c] by simp
    with io obtain st where r: "peer_run Waiting [] (bytes_of c outs @ bytes_of c (ready_replies l)) st" "bytes_of c (waiting_reads l) = []"
      by (auto simp: in_order_def)
    then have "st = Waiting" by (auto elim: peer_run_NilE)
    with r none new [of c] False show ?thesis unfolding in_order_def w
      by (intro exI [of _ "[]"] exI [of _ Waiting]) auto
  qed
qed

text \<open>The clients that are read from are old.\<close>

lemma reading_old: "owned_loop l \<Longrightarrow> c \<in> reading l \<Longrightarrow> c < next_addr (mem (srv l))"
  using owned_loopD(11) [of l c] fresh_memoryD(5) [OF owned_memoryD(1) [OF owned_loopD(1)], of l c] by (auto simp: not_le [symmetric])

lemma connected_old:
  assumes l: "owned_loop l" and c: "connected (srv l) c p e ep"
  shows "c < next_addr (mem (srv l))" and "p < next_addr (mem (srv l))" and "e < next_addr (mem (srv l))"
proof -
  note fresh = fresh_memoryD [OF owned_memoryD(1) [OF owned_loopD(1) [OF l]]]
  show "c < next_addr (mem (srv l))" "p < next_addr (mem (srv l))"
    using c fresh(5) [of c] fresh(6) [of p] by (auto simp: connected_def not_le [symmetric])
  show "e < next_addr (mem (srv l))"
    using c registeredD(6) [OF owned_loopD(2) [OF l], of e] by (auto simp: connected_def not_le [symmetric])
qed

lemma safe_Inr: "safe R r \<Longrightarrow> r = Inr x \<Longrightarrow> R x"
  by simp

lemma connect_follows:
  assumes f: "follows l ins outs" and room: "next_addr (mem (srv l)) + 6 \<le> mem_limit (mem (srv l))" and rcs: "no_failure rcs"
  shows "\<exists>l'. connect_event rcs junk status l = Inr l' \<and> follows l' ins outs"
proof -
  let ?m = "mem (srv l)" and ?r = "connect_event rcs junk status l"
  let ?a = "next_addr ?m"
  note l = followsD(1) [OF f]
  note owned = safe_Inr [OF connect_event_owned [OF l, of rcs junk status]]
  have x: "xmalloc sizeof_struct ?m = Inr (?a, ?m\<lparr>next_addr := Suc ?a\<rparr>)" using room by (intro xmalloc_struct) linarith
  consider "status < 0" | "0 \<le> status" "rc_accept rcs = 0" | "0 \<le> status" "rc_accept rcs \<noteq> 0" by linarith
  then show ?thesis
  proof cases
    case 1
    then have "?r = Inr l" by (simp add: connect_event_def on_peer_connected_def)
    with f show ?thesis by blast
  next
    case 2
    let ?m2 = "?m\<lparr>next_addr := Suc (Suc (Suc ?a)), peers := (peers ?m)(Suc ?a \<mapsto> \<lparr>ps_uvclient = Some ?a, ps_endpoint = Some (Suc (Suc ?a))\<rparr>),
      clients := (clients ?m)(?a \<mapsto> Some (Suc ?a))\<rparr>"
    let ?l = "l\<lparr>srv := (srv l)\<lparr>mem := ?m2, endpoints := (endpoints (srv l))(Suc (Suc ?a) \<mapsto> WebSocketEndpoint_new junk)\<rparr>,
      reading := insert ?a (reading l)\<rparr>"
    have run: "?r = Inr ?l"
      using 2 rcs x room xmalloc_struct [of "?m\<lparr>next_addr := Suc ?a, clients := (clients ?m)(?a \<mapsto> None)\<rparr>"]
        xmalloc_struct [of "?m\<lparr>clients := (clients ?m)(?a \<mapsto> None), next_addr := Suc (Suc ?a)\<rparr>"]
      by (simp add: connect_event_def on_peer_connected_def no_failure_def Let_def)
    have "connected (srv ?l) ?a (Suc ?a) (Suc (Suc ?a)) (WebSocketEndpoint_new junk)" by (simp add: connected_def)
    moreover have "in_state (WebSocketEndpoint_new junk) Waiting" by (simp add: WebSocketEndpoint_new_def ByteBuffer_new_buf_of)
    ultimately have new: "\<exists>p e ep. connected (srv ?l) ?a p e ep \<and> in_state ep Waiting" by blast
    have old: "connected (srv ?l) c p e ep" if "connected (srv l) c p e ep" for c p e ep
      using connected_old [OF l that] that by (simp add: connected_def)
    have "follows ?l ins outs"
    proof (rule follows_register [OF f owned [OF run]])
      show "\<exists>p e ep. connected (srv ?l) c p e ep \<and> in_state ep Waiting" if "c \<in> reading ?l" "?a \<le> c" for c
      proof -
        have "c = ?a" using reading_old [OF l, of c] that by auto
        with new show ?thesis by blast
      qed
      show "c \<in> reading l \<and> (connected (srv l) c p e ep \<longrightarrow> connected (srv ?l) c p e ep)" if "c \<in> reading ?l" "c < ?a" for c p e ep
        using old that by auto
    qed simp_all
    with run show ?thesis by blast
  next
    case 3
    let ?l = "l\<lparr>srv := (srv l)\<lparr>mem := ?m\<lparr>next_addr := Suc ?a, clients := (clients ?m)(?a \<mapsto> None)\<rparr>\<rparr>, closing := insert ?a (closing l)\<rparr>"
    have run: "?r = Inr ?l" using 3 rcs x by (simp add: connect_event_def on_peer_connected_def no_failure_def Let_def)
    have "connected (srv ?l) c p e ep" if "connected (srv l) c p e ep" for c p e ep
      using connected_old [OF l that] that by (simp add: connected_def)
    then have "follows ?l ins outs"
      using reading_old [OF l] by (intro follows_register [OF f owned [OF run]]) (auto dest: leD)
    with run show ?thesis by blast
  qed
qed

lemma closed_follows:
  assumes f: "follows l ins outs" and c: "c \<in> closing l"
  shows "\<exists>l'. closed_event c l = Inr l' \<and> follows l' ins outs"
proof -
  note l = followsD(1) [OF f]
  let ?l = "l\<lparr>srv := (srv l)\<lparr>mem := (mem (srv l))\<lparr>clients := (clients (mem (srv l)))(c := None)\<rparr>\<rparr>, closing := closing l - {c}\<rparr>"
  have none: "clients (mem (srv l)) c = Some None" by (rule owned_loopD(12) [OF l c])
  then have run: "closed_event c l = Inr ?l" by (simp add: closed_event_def on_client_closed_def)
  have "connected (srv ?l) c' p e ep" if "connected (srv l) c' p e ep" for c' p e ep
    using that none by (auto simp: connected_def)
  then have "follows ?l ins outs"
    using reading_old [OF l] by (intro follows_register [OF f safe_Inr [OF closed_event_owned [OF l c] run]]) (auto dest: leD)
  with run show ?thesis by blast
qed

section \<open>Reads\<close>

text \<open>A step that leaves the requests alone and adds one at the end of the queue.\<close>

lemma queue_grows:
  assumes l: "owned_loop l" and new: "next_addr (mem (srv l)) \<le> r"
    and works: "\<And>wd. wd < next_addr (mem (srv l)) \<Longrightarrow> works m' wd = works (mem (srv l)) wd"
    and blocks: "\<And>a. a < next_addr (mem (srv l)) \<Longrightarrow> blocks m' a = blocks (mem (srv l)) a"
    and reqs: "work_reqs m' = (work_reqs (mem (srv l)))(r := x)"
    and l': "mem (srv l') = m'" "pool l' = pool l @ [(r, k)]" "finished l' = finished l"
  shows "waiting_reads l' = waiting_reads l @ request_at m' r" and "ready_replies l' = ready_replies l"
    and "(\<forall>q \<in> set (map fst (pool l')). sized m' q) \<longleftrightarrow> (\<forall>q \<in> set (map fst (pool l)). sized (mem (srv l)) q) \<and> sized m' r"
proof -
  have old: "untouched (mem (srv l)) m' q" if "q < next_addr (mem (srv l))" for q
    using old_untouched [OF owned_loopD(1) [OF l] _ works blocks, of q] new that by (simp add: reqs)
  note queue = queue_untouched [of l m', OF old [OF queued_used [OF l]]]
  show "waiting_reads l' = waiting_reads l @ request_at m' r"
    using arg_cong [OF queue(1), of concat] by (simp add: waiting_reads_def l')
  show "(\<forall>q \<in> set (map fst (pool l')). sized m' q) \<longleftrightarrow> (\<forall>q \<in> set (map fst (pool l)). sized (mem (srv l)) q) \<and> sized m' r"
    using queue(2) by (auto simp: l')
  show "ready_replies l' = ready_replies l"
    using arg_cong [OF finished_untouched [of "finished l" "mem (srv l)" m', OF old [OF finished_used [OF l]]], of concat]
    by (simp add: ready_replies_def l')
qed

lemma read_follows:
  assumes f: "follows l ins outs" and room: "next_addr (mem (srv l)) + 6 \<le> mem_limit (mem (srv l))"
    and c: "c \<in> reading l" and bs: "bs \<noteq> []" "length (bs @ slack) < 2 ^ 31" and rc: "0 \<le> returned" "0 \<le> rc"
  shows "\<exists>l'. read_event returned junk rc c (int (length bs)) (bs @ slack) l = Inr l' \<and> follows l' (ins @ [(c, bs)]) outs"
proof -
  let ?m = "mem (srv l)"
  let ?a = "next_addr ?m"
  note l = followsD(1) [OF f]
  obtain p e ep where con: "connected (srv l) c p e ep" using connected_reading [OF f c] .
  let ?w = "new_work junk c (Some e) \<lparr>buf_base = Some (?a + 3), buf_len = word_of_nat (length bs)\<rparr> 1"
  let ?m' = "?m\<lparr>next_addr := ?a + 4, blocks := (blocks ?m)(?a + 3 \<mapsto> bs), works := (works ?m)(?a + 2 \<mapsto> ?w),
        work_reqs := (work_reqs ?m)(?a + 1 \<mapsto> Some (?a + 2))\<rparr>"
  let ?l = "(with_mem l ?m')\<lparr>pool := pool l @ [(?a + 1, Submitted_work)]\<rparr>"
  have run: "read_event returned junk rc c (int (length bs)) (bs @ slack) l = Inr ?l"
    by (rule read_event_data [OF con refl _ _ rc bs refl]) (use room owned_memoryD(1) [OF owned_loopD(1) [OF l]] in simp_all)
  have "wf_read (int (length bs)) (bs @ slack)" using bs(2) by (simp add: wf_read_def)
  from read_event_owned [OF l c _ this rc(1), of junk rc] run have l': "owned_loop ?l" by simp
  have mem: "mem (srv ?l) = ?m'" by (simp add: with_mem_def)
  have views: "waiting_reads ?l = waiting_reads l @ request_at ?m' (?a + 1)" "ready_replies ?l = ready_replies l"
    "(\<forall>q \<in> set (map fst (pool ?l)). sized ?m' q) \<longleftrightarrow> (\<forall>q \<in> set (map fst (pool l)). sized ?m q) \<and> sized ?m' (?a + 1)"
    by (rule queue_grows [OF l, of "?a + 1" ?m' "Some (Some (?a + 2))"]; simp add: with_mem_def)+
  have new: "request_at ?m' (?a + 1) = [(c, bs)]" "sized ?m' (?a + 1)"
    using bs by (simp_all add: request_at_def job_at_def held_bytes_def sized_def)
  have con': "connected (srv ?l) c' p' e' ep' \<longleftrightarrow> connected (srv l) c' p' e' ep'" for c' p' e' ep'
    by (simp add: connected_def with_mem_def)
  have "follows ?l (ins @ [(c, bs)]) outs"
    unfolding follows_def
  proof (intro conjI allI ballI impI l')
    show "sized (mem (srv ?l)) r" if "r \<in> set (map fst (pool ?l))" for r
      using views(3) new(2) followsD(2) [OF f] that unfolding mem by blast
    show "bytes_of c' (ins @ [(c, bs)]) = []" if "next_addr (mem (srv ?l)) \<le> c'" for c'
      using followsD(3) [OF f, of c'] reading_old [OF l c] that unfolding mem by simp
    show "in_order ?l (ins @ [(c, bs)]) outs c'" for c'
      using followsD(4) [OF f, of c'] unfolding in_order_def views(1,2) new(1) con' by (auto simp: with_mem_def)
  qed
  with run show ?thesis by blast
qed

lemma nothing_follows:
  assumes f: "follows l ins outs" and room: "next_addr (mem (srv l)) + 6 \<le> mem_limit (mem (srv l))"
    and c: "c \<in> reading l" and bs: "length bs < 2 ^ 31" and ret: "0 \<le> returned"
  shows "\<exists>l'. read_event returned junk rc c 0 bs l = Inr l' \<and> follows l' ins outs"
proof -
  let ?m = "mem (srv l)"
  let ?l = "with_mem l (?m\<lparr>next_addr := Suc (next_addr ?m)\<rparr>)"
  note l = followsD(1) [OF f]
  have "unat (word_of_nat (length bs) :: u64) < 2 ^ 63" using bs by (simp add: unat_of_nat)
  then have "xmalloc (word_of_nat (length bs)) ?m = Inr (next_addr ?m, ?m\<lparr>next_addr := Suc (next_addr ?m)\<rparr>)"
    using room by (intro xmalloc_ok) auto
  moreover have "(blocks ?m)(next_addr ?m := None) = blocks ?m"
    using fresh_memoryD(1) [OF owned_memoryD(1) [OF owned_loopD(1) [OF l]], of "next_addr ?m"] by (simp add: fun_eq_iff)
  ultimately have run: "read_event returned junk rc c 0 bs l = Inr ?l"
    by (simp add: read_event_def on_alloc_buffer_def on_peer_read_def free_block_def queued_def with_mem_def)
  have "wf_read 0 bs" using bs by (simp add: wf_read_def)
  from read_event_owned [OF l c _ this ret, of junk rc] run have l': "owned_loop ?l" by simp
  have "follows ?l ins outs"
    by (rule follows_register [OF f l']) (use reading_old [OF l] in \<open>auto simp: with_mem_def connected_def dest: leD\<close>)
  with run show ?thesis by blast
qed

lemma leave_follows:
  assumes f: "follows l ins outs" and room: "next_addr (mem (srv l)) + 6 \<le> mem_limit (mem (srv l))"
    and c: "c \<in> reading l" and bs: "length bs < 2 ^ 31" and n: "n < 0" and rc: "0 \<le> rc" and none: "no_work l c"
  shows "\<exists>l'. read_event returned junk rc c n bs l = Inr l' \<and> follows l' ins outs"
proof -
  let ?m = "mem (srv l)"
  let ?a = "next_addr ?m"
  note l = followsD(1) [OF f]
  obtain p e ep where con: "connected (srv l) c p e ep" using connected_reading [OF f c] .
  let ?m' = "?m\<lparr>next_addr := ?a + 3, works := (works ?m)(?a + 2 \<mapsto> new_work junk c (Some e) (uv_buf_init None 0) 0),
        work_reqs := (work_reqs ?m)(?a + 1 \<mapsto> Some (?a + 2))\<rparr>"
  let ?l = "(with_mem l ?m')\<lparr>pool := pool l @ [(?a + 1, Close_work)], reading := reading l - {c}\<rparr>"
  have run: "read_event returned junk rc c n bs l = Inr ?l"
    using read_event_close [OF con refl _ _ rc n bs refl] room fresh_memoryD(1) [OF owned_memoryD(1) [OF owned_loopD(1) [OF l]], of ?a]
    by (simp add: after_close_def Let_def)
  from read_end_owned [OF l c n none, of returned junk rc bs] run have l': "owned_loop ?l" by simp
  have mem: "mem (srv ?l) = ?m'" by (simp add: with_mem_def)
  have views: "waiting_reads ?l = waiting_reads l @ request_at ?m' (?a + 1)" "ready_replies ?l = ready_replies l"
    "(\<forall>q \<in> set (map fst (pool ?l)). sized ?m' q) \<longleftrightarrow> (\<forall>q \<in> set (map fst (pool l)). sized ?m q) \<and> sized ?m' (?a + 1)"
    by (rule queue_grows [OF l, of "?a + 1" ?m' "Some (Some (?a + 2))"]; simp add: with_mem_def)+
  have new: "request_at ?m' (?a + 1) = []" "sized ?m' (?a + 1)"
    by (simp_all add: request_at_def job_at_def held_bytes_def sized_def)
  have con': "connected (srv ?l) c' p' e' ep' \<longleftrightarrow> connected (srv l) c' p' e' ep'" for c' p' e' ep'
    by (simp add: connected_def with_mem_def)
  have "follows ?l ins outs"
    unfolding follows_def
  proof (intro conjI allI ballI impI l')
    show "sized (mem (srv ?l)) r" if "r \<in> set (map fst (pool ?l))" for r
      using views(3) new(2) followsD(2) [OF f] that unfolding mem by blast
    show "bytes_of c' ins = []" if "next_addr (mem (srv ?l)) \<le> c'" for c'
      using followsD(3) [OF f, of c'] that unfolding mem by simp
    show "in_order ?l ins outs c'" for c'
      using followsD(4) [OF f, of c'] unfolding in_order_def views(1,2) new(1) con' by (simp add: with_mem_def) blast
  qed
  with run show ?thesis by blast
qed

section \<open>Work\<close>

lemma views_but:
  assumes m: "owned_memory m" and h: "holds m req wd" and rs: "req \<notin> set rs"
    and reqs: "\<And>r. r < next_addr m \<Longrightarrow> r \<noteq> req \<Longrightarrow> work_reqs m' r = work_reqs m r" and old: "\<And>r. r \<in> set rs \<Longrightarrow> r < next_addr m"
    and works: "\<And>wd'. wd' < next_addr m \<Longrightarrow> wd' \<noteq> wd \<Longrightarrow> works m' wd' = works m wd'"
    and blocks: "\<And>a. a < next_addr m \<Longrightarrow> \<not> owns m wd a \<Longrightarrow> blocks m' a = blocks m a"
  shows "concat (map (request_at m') rs) = concat (map (request_at m) rs)"
    and "concat (map (reply_at m') rs) = concat (map (reply_at m) rs)"
    and "(\<forall>r \<in> set rs. sized m' r) \<longleftrightarrow> (\<forall>r \<in> set rs. sized m r)"
proof -
  have "untouched m m' r" if "r \<in> set rs" for r
    by (rule others_untouched [OF m h]) (use that rs reqs old works blocks in auto)
  note same = untouched_same [OF this]
  show "concat (map (request_at m') rs) = concat (map (request_at m) rs)"
    "concat (map (reply_at m') rs) = concat (map (reply_at m) rs)"
    by (rule arg_cong [where f = concat], rule map_cong; simp add: same)+
  show "(\<forall>r \<in> set rs. sized m' r) \<longleftrightarrow> (\<forall>r \<in> set rs. sized m r)" using same by blast
qed

text \<open>The automata take the reads of every client.\<close>

definition protocol :: "(addr \<times> bytes) list \<Rightarrow> bool" where
  "protocol ins \<longleftrightarrow> (\<forall>c. \<exists>outs st. peer_run Waiting (bytes_of c ins) outs st)"

lemma protocol_next:
  assumes "protocol ins" and "bytes_of c ins = taken @ bs # bss" and "peer_run Waiting taken outs st"
  obtains out st' where "peer_step st bs out st'"
proof -
  obtain outs' st' where "peer_run Waiting (taken @ bs # bss) outs' st'" using assms(1,2) unfolding protocol_def by metis
  then obtain outs1 st1 outs2 where "peer_run Waiting taken outs1 st1" "peer_run st1 (bs # bss) outs2 st'"
    by (auto simp: peer_run_append)
  with peer_run_deterministic [OF assms(3)] that show thesis by (auto elim!: peer_runE)
qed

lemma protocol_prefix: "protocol (ins @ ins') \<Longrightarrow> protocol ins"
  unfolding protocol_def bytes_of_simps peer_run_append by blast

lemma connected_unique:
  assumes s: "registered s" and c: "connected s c p e ep" and c': "connected s c' p' e' ep'"
  shows "client_endpoint s c = Some e" and "e' = e \<longleftrightarrow> c' = c"
proof -
  have pe: "peer_endpoint (mem s) p = Some (Some e)" "peer_endpoint (mem s) p' = Some (Some e')"
    using c c' by (simp_all add: peer_endpoint_def connected_def)
  then show "client_endpoint s c = Some e" using c by (simp add: client_endpoint_def connected_def)
  have "p' = p" if "e' = e" using registeredD(4) [OF s pe(1), of p'] pe(2) that by simp
  then show "e' = e \<longleftrightarrow> c' = c" using c c' by (auto simp: connected_def)
qed

text \<open>The request at the head of the queue.\<close>

lemma head_request:
  assumes f: "follows l ins outs" and pool: "pool l = (req, Submitted_work) # rest"
    and room: "next_addr (mem (srv l)) + 6 \<le> mem_limit (mem (srv l))"
  obtains wd w c bs p e ep where "holds_request (srv l) req wd bs e ep" and "works (mem (srv l)) wd = Some w"
    and "holds (mem (srv l)) req wd" and "wd_uvclient w = Some c" and "c \<in> reading l" and "connected (srv l) c p e ep"
    and "request_at (mem (srv l)) req = [(c, bs)]" and "buf_base (wd_response w) = None"
proof -
  note l = followsD(1) [OF f]
  note D = owned_loopD [OF l]
  let ?m = "mem (srv l)"
  obtain w where j: "job ?m req w" "buf_base (wd_response w) = None" "serves l w" using D(7) [of req] pool by auto
  obtain wd where req: "work_reqs ?m req = Some (Some wd)" "works ?m wd = Some w" "holds ?m req wd"
    using work_request [OF l _ j(1)] pool by auto
  from serves_unfold [OF l j(3)] obtain c a e1 where c: "wd_uvclient w = Some c" "c \<in> reading l" "wd_endpoint w = Some e1"
    "buf_base (wd_request w) = Some a" by metis
  obtain p e ep where con: "connected (srv l) c p e ep" using connected_reading [OF f c(2)] .
  have "wd_endpoint w = client_endpoint (srv l) c" using j(3) c(1) by (auto simp: serves_def)
  then have e: "wd_endpoint w = Some e" using connected_unique(1) [OF D(2) con con] by simp
  have "owns ?m wd a" using req(2) c(4) by (simp add: owns_def)
  then obtain bs where bs: "blocks ?m a = Some bs" using owned_memoryD(7) [OF D(1)] by blast
  have job: "job_at ?m req = Some w" using req by (simp add: job_at_def)
  have "sized ?m req" using followsD(2) [OF f, of req] pool by simp
  then have sz: "buf_len (wd_request w) = word_of_nat (length bs)" "bs \<noteq> []" "length bs < 2 ^ 31"
    using job c(4) bs unfolding sized_def by blast+
  then have "wd_request w = \<lparr>buf_base = Some a, buf_len = word_of_nat (length bs)\<rparr>" using c(4) by (cases "wd_request w") simp
  then have "holds_request (srv l) req wd bs e ep"
    using req bs j(2) e con room sz by (simp add: holds_request_def connected_def)
  moreover have "request_at ?m req = [(c, bs)]" using job c(1,4) bs by (simp add: request_at_def held_bytes_def)
  ultimately show thesis using that req c con j(2) by blast
qed

lemma put_response_parts:
  assumes "works m wd = Some w"
  shows "put_response (wd, m) b = (wd, m\<lparr>next_addr := Suc (next_addr m), blocks := (blocks m)(next_addr m \<mapsto> b),
    works := (works m)(wd \<mapsto> w\<lparr>wd_response := \<lparr>buf_base = Some (next_addr m), buf_len = word_of_nat (length b)\<rparr>\<rparr>)\<rparr>)"
  using assms by (simp add: put_response_def)

lemma work_follows:
  assumes f: "follows l ins outs" and room: "next_addr (mem (srv l)) + 6 \<le> mem_limit (mem (srv l))"
    and pool: "pool l = (req, Submitted_work) # rest" and gs: "\<And>k. wf_garbage (fst (gs k))" and pr: "protocol ins"
  shows "\<exists>l'. work_event returned gs l = Inr l' \<and> follows l' ins outs \<and> moves l l'"
proof -
  let ?m = "mem (srv l)"
  note l = followsD(1) [OF f]
  note D = owned_loopD [OF l]
  from head_request [OF f pool room] obtain wd w c bs p e ep where h: "holds_request (srv l) req wd bs e ep" "works ?m wd = Some w"
    "holds ?m req wd" "wd_uvclient w = Some c" "c \<in> reading l" "connected (srv l) c p e ep" "request_at ?m req = [(c, bs)]"
    "buf_base (wd_response w) = None" .
  let ?wait = "concat (map (request_at ?m) (map fst rest))"
  have wait: "waiting_reads l = (c, bs) # ?wait" using h(7) pool by (simp add: waiting_reads_def)
  from followsD(4) [OF f, of c] h(5) obtain taken st p1 e1 ep1 where
    st: "bytes_of c ins = taken @ bs # bytes_of c ?wait" "peer_run Waiting taken (bytes_of c outs @ bytes_of c (ready_replies l)) st"
      "connected (srv l) c p1 e1 ep1" "in_state ep1 st"
    by (auto simp: in_order_def wait)
  have "ep1 = ep" using st(3) h(6) by (auto simp: connected_def)
  obtain out st' where step: "peer_step st bs out st'" using protocol_next [OF pr st(1,2)] .
  note submitted = on_work_submitted_run [OF h(1), of returned gs]
  from from_wire_peer_step [OF step, of ep "(wd, ?m)" gs returned] st(4) \<open>ep1 = ep\<close> submitted gs obtain n ep'
    where run: "length out \<le> 1" "in_state ep' st'"
      "nt_work_data ep' = Some (case out of [] \<Rightarrow> (wd, ?m) | b # _ \<Rightarrow> put_response (wd, ?m) b)"
      "on_work_submitted returned gs req (srv l) =
        Inr ((srv l)\<lparr>mem := (case nt_work_data ep' of Some (_, m) \<Rightarrow> m | None \<Rightarrow> ?m), endpoints := (endpoints (srv l))(e \<mapsto> ep')\<rparr>)"
    by auto
  let ?m' = "case out of [] \<Rightarrow> ?m | b # _ \<Rightarrow> snd (put_response (wd, ?m) b)"
  let ?l = "l\<lparr>srv := (srv l)\<lparr>mem := ?m', endpoints := (endpoints (srv l))(e \<mapsto> ep')\<rparr>, pool := rest, finished := finished l @ [req]\<rparr>"
  have "(case nt_work_data ep' of Some (_, m) \<Rightarrow> m | None \<Rightarrow> ?m) = ?m'"
    using run(3) put_response_parts [OF h(2)] by (cases out) simp_all
  then have event: "work_event returned gs l = Inr ?l" using run(4) pool by (simp add: work_event_def)
  have l': "owned_loop ?l" using work_event_owned [OF l pool, of returned gs] event by simp
  have parts: "work_reqs ?m' = work_reqs ?m" "clients ?m' = clients ?m" "peers ?m' = peers ?m" "next_addr ?m \<le> next_addr ?m'"
    "\<And>wd'. wd' \<noteq> wd \<Longrightarrow> works ?m' wd' = works ?m wd'" "\<And>a. a < next_addr ?m \<Longrightarrow> blocks ?m' a = blocks ?m a"
    using put_response_parts [OF h(2)] by (cases out; simp)+
  have fresh: "req \<notin> set (map fst rest)" "req \<notin> set (finished l)" using D(3) pool by auto
  have old: "r < next_addr ?m" if "r \<in> set (map fst rest @ finished l)" for r
    using fresh_used [OF l, of r] pool that by auto
  note but = views_but [OF D(1) h(3), where m' = ?m']
  have rest: "concat (map (request_at ?m') (map fst rest)) = ?wait" "(\<forall>r \<in> set (map fst rest). sized ?m' r) \<longleftrightarrow> (\<forall>r \<in> set (map fst rest). sized ?m r)"
    by (rule but; use fresh old parts in auto)+
  have fin: "concat (map (reply_at ?m') (finished l)) = ready_replies l"
    unfolding ready_replies_def by (rule but; use fresh old parts in auto)
  have "work_reqs ?m req = Some (Some wd)" using h(1) by (simp add: holds_request_def)
  then have "reply_at ?m' req = map (Pair c) out"
    using run(1) h(2,4,8) put_response_parts [OF h(2)]
    by (cases out) (simp_all add: reply_at_def job_at_def held_bytes_def)
  with fin have ready: "ready_replies ?l = ready_replies l @ map (Pair c) out" by (simp add: ready_replies_def)
  have wait': "waiting_reads ?l = ?wait" using rest(1) by (simp add: waiting_reads_def)
  have sz: "\<forall>r \<in> set (map fst rest). sized ?m' r" unfolding rest(2) using followsD(2) [OF f] pool by simp
  have "follows ?l ins outs"
    unfolding follows_def
  proof (intro conjI allI ballI impI l')
    show "sized (mem (srv ?l)) r" if "r \<in> set (map fst (pool ?l))" for r
      using bspec [OF sz, of r] that by simp
    show "bytes_of c' ins = []" if "next_addr (mem (srv ?l)) \<le> c'" for c'
      using followsD(3) [OF f, of c'] parts(4) that by simp
    show "in_order ?l ins outs c'" for c'
    proof (cases "c' = c")
      case True
      have "connected (srv ?l) c p e ep'" using h(6) by (simp add: connected_def parts)
      then show ?thesis unfolding in_order_def True ready wait'
        using st(1) peer_run_snoc [OF st(2) step] run(2)
        by (intro exI [of _ "taken @ [bs]"] exI [of _ st']) auto
    next
      case False
      have "connected (srv ?l) c' p' e' ep2" if "connected (srv l) c' p' e' ep2" for p' e' ep2
        using that connected_unique(2) [OF D(2) h(6) that] False by (simp add: connected_def parts)
      with followsD(4) [OF f, of c'] False show ?thesis
        unfolding in_order_def ready wait' wait by simp blast
    qed
  qed
  moreover have "moves l ?l"
    using put_response_parts [OF h(2)] pool by (cases out) (simp_all add: moves_def pending_def)
  ultimately show ?thesis using event by blast
qed

lemma close_follows:
  assumes f: "follows l ins outs" and pool: "pool l = (req, Close_work) # rest"
  shows "\<exists>l'. work_event returned gs l = Inr l' \<and> follows l' ins outs \<and> moves l l'"
proof (rule close_event_run [OF followsD(1) [OF f] pool])
  let ?m = "mem (srv l)"
  note l = followsD(1) [OF f]
  note D = owned_loopD [OF l]
  fix w wd c p e
  let ?m' = "?m\<lparr>peers := (peers ?m)(p := None), clients := (clients ?m)(c := None), works := (works ?m)(wd := None),
    work_reqs := (work_reqs ?m)(req := None)\<rparr>"
  let ?l = "l\<lparr>srv := (srv l)\<lparr>endpoints := (endpoints (srv l))(e := None), mem := ?m'\<rparr>, pool := rest\<rparr>"
  assume req: "work_reqs ?m req = Some (Some wd)" "works ?m wd = Some w" "holds ?m req wd"
    and c: "wd_uvclient w = Some c" "c \<notin> reading l" "clients ?m c = Some (Some p)" "buf_base (wd_request w) = None"
      "client_endpoint (srv l) c = Some e"
    and run: "\<And>returned gs. work_event returned gs l = Inr ?l"
  have l': "owned_loop ?l" using close_event_owned [OF l pool, of returned gs] run by simp
  have fresh: "req \<notin> set (map fst rest)" "req \<notin> set (finished l)" using D(3) pool by auto
  have old: "r < next_addr ?m" if "r \<in> set (map fst rest @ finished l)" for r
    using fresh_used [OF l, of r] pool that by auto
  note but = views_but [OF D(1) req(3), where m' = ?m']
  have rest: "concat (map (request_at ?m') (map fst rest)) = concat (map (request_at ?m) (map fst rest))"
    "(\<forall>r \<in> set (map fst rest). sized ?m' r) \<longleftrightarrow> (\<forall>r \<in> set (map fst rest). sized ?m r)"
    by (rule but; use fresh old in auto)+
  have ready: "ready_replies ?l = ready_replies l"
    unfolding ready_replies_def by (simp, rule but; use fresh old in auto)
  have "request_at ?m req = []" using req c(4) by (simp add: request_at_def job_at_def held_bytes_def split: option.split)
  with rest(1) have wait: "waiting_reads ?l = waiting_reads l" by (simp add: waiting_reads_def pool)
  have sz: "\<forall>r \<in> set (map fst rest). sized ?m' r" unfolding rest(2) using followsD(2) [OF f] pool by simp
  have "follows ?l ins outs"
    unfolding follows_def
  proof (intro conjI allI ballI impI l')
    show "sized (mem (srv ?l)) r" if "r \<in> set (map fst (pool ?l))" for r using bspec [OF sz, of r] that by simp
    show "bytes_of c' ins = []" if "next_addr (mem (srv ?l)) \<le> c'" for c' using followsD(3) [OF f, of c'] that by simp
    show "in_order ?l ins outs c'" for c'
    proof (rule in_order_same [OF followsD(4) [OF f] wait ready])
      fix p' e' ep' assume c': "c' \<in> reading ?l"
      then have "c' \<noteq> c" using c(2) by auto
      moreover have "p' \<noteq> p \<and> e' \<noteq> e" if con: "connected (srv l) c' p' e' ep'"
      proof -
        obtain ps e1 where p: "peers ?m p = Some ps" "ps_endpoint ps = Some e1" "client_endpoint (srv l) c = Some e1"
          using registeredE [OF D(2) c(3)] by metis
        have "p' \<noteq> p" using registeredD(2) [OF D(2) c(3), of c'] con \<open>c' \<noteq> c\<close> by (auto simp: connected_def)
        moreover have "e' \<noteq> e"
          using registeredD(4) [OF D(2), of p e p'] p c(5) con \<open>p' \<noteq> p\<close> by (auto simp: peer_endpoint_def connected_def)
        ultimately show ?thesis ..
      qed
      ultimately show "c' \<in> reading l \<and> (connected (srv l) c' p' e' ep' \<longrightarrow> connected (srv ?l) c' p' e' ep')"
        using c' by (auto simp: connected_def)
    qed
  qed
  moreover have "moves l ?l" using pool by (simp add: moves_def pending_def)
  ultimately show ?thesis using run by blast
qed

section \<open>Completion and writes\<close>

text \<open>A request is done with, or gives its work data to a write request.\<close>

lemma drop_views:
  assumes m: "owned_memory m" and h: "holds m req wd" and rs: "req \<notin> set rs" "\<And>r. r \<in> set rs \<Longrightarrow> r < next_addr m"
    and m': "m' = drop_memory m req wd \<or> m' = hand_over m req wd"
  shows "concat (map (request_at m') rs) = concat (map (request_at m) rs)"
    and "concat (map (reply_at m') rs) = concat (map (reply_at m) rs)"
    and "(\<forall>r \<in> set rs. sized m' r) \<longleftrightarrow> (\<forall>r \<in> set rs. sized m r)"
  by (rule views_but [OF m h rs(1)]; use rs(2) m' in \<open>auto simp: drop_memory_def hand_over_def\<close>)+

lemma follows_drop:
  assumes f: "follows l ins outs" and h: "holds (mem (srv l)) req wd" and no: "req \<notin> set (map fst (pool l))"
    and m': "m' = drop_memory (mem (srv l)) req wd \<or> m' = hand_over (mem (srv l)) req wd"
    and l': "owned_loop l'" "srv l' = (srv l)\<lparr>mem := m'\<rparr>" "pool l' = pool l" "reading l' = reading l" "closing l' = closing l"
    and ready: "ready_replies l = out @ ready_replies l'"
  shows "follows l' ins (outs @ out)"
proof -
  let ?m = "mem (srv l)"
  note l = followsD(1) [OF f]
  note D = owned_loopD [OF l]
  have old: "r < next_addr ?m" if "r \<in> set (map fst (pool l))" for r using queued_used [OF l that] .
  note views = drop_views [OF D(1) h no old m']
  have m: "mem (srv l') = m'" by (simp add: l')
  have wait: "waiting_reads l' = waiting_reads l" unfolding waiting_reads_def m l'(3) by (rule views(1))
  have con: "connected (srv l') c p e ep \<longleftrightarrow> connected (srv l) c p e ep" for c p e ep
    using m' by (auto simp: connected_def l' drop_memory_def hand_over_def)
  have next': "next_addr ?m \<le> next_addr m'" using m' by (auto simp: drop_memory_def hand_over_def)
  show ?thesis
    unfolding follows_def
  proof (intro conjI allI ballI impI l'(1))
    show "sized (mem (srv l')) r" if "r \<in> set (map fst (pool l'))" for r
      using views(3) followsD(2) [OF f] that unfolding m l'(3) by blast
    show "bytes_of c ins = []" if "next_addr (mem (srv l')) \<le> c" for c
      using followsD(3) [OF f, of c] next' that unfolding m by simp
    show "in_order l' ins (outs @ out) c" for c
      using followsD(4) [OF f, of c] unfolding in_order_def wait con l'(4) ready by simp
  qed
qed

lemma completed_follows:
  assumes f: "follows l ins outs" and room: "next_addr (mem (srv l)) + 6 \<le> mem_limit (mem (srv l))"
    and fin: "finished l = req # rest" and rc: "0 \<le> rc"
  shows "\<exists>l'. completed_event rc 0 l = Inr l' \<and> follows l' ins (outs @ written_by l (completed_event rc 0 l)) \<and> moves l l'"
proof (rule completed_event_run [OF followsD(1) [OF f] fin refl])
  let ?m = "mem (srv l)"
  note l = followsD(1) [OF f]
  note D = owned_loopD [OF l]
  fix w wd c p
  assume j: "job ?m req w" and req: "work_reqs ?m req = Some (Some wd)" "write_reqs ?m req = None" "works ?m wd = Some w" "holds ?m req wd"
    and c: "wd_uvclient w = Some c" "clients ?m c = Some (Some p)"
    and run: "\<And>rc status. completed_event rc status l =
      (if status \<noteq> 0 then Inl Exit_failure
       else if buf_base (wd_response w) = None then Inr (l\<lparr>srv := (srv l)\<lparr>mem := drop_memory ?m req wd\<rparr>, finished := rest\<rparr>)
       else if next_addr ?m < mem_limit ?m \<and> 0 \<le> rc then
         Inr (l\<lparr>srv := (srv l)\<lparr>mem := hand_over ?m req wd\<rparr>, finished := rest, writing := writing l @ [next_addr ?m]\<rparr>)
       else Inl Exit_failure)"
  note owned = completed_event_owned [OF l fin, of rc 0]
  have no: "req \<notin> set (map fst (pool l))" "req \<notin> set rest" using D(3) fin by auto
  have old: "r < next_addr ?m" if "r \<in> set rest" for r using finished_used [OF l, of r] fin that by simp
  note views = drop_views(2) [OF D(1) req(4) no(2) old]
  have job: "job_at ?m req = Some w" using req by (simp add: job_at_def)
  show ?thesis
  proof (cases "buf_base (wd_response w)")
    case None
    let ?l = "l\<lparr>srv := (srv l)\<lparr>mem := drop_memory ?m req wd\<rparr>, finished := rest\<rparr>"
    have r: "completed_event rc 0 l = Inr ?l" using None by (simp add: run)
    have "reply_at ?m req = []" using job None by (simp add: reply_at_def held_bytes_def split: option.split)
    then have "ready_replies l = [] @ ready_replies ?l" using views [OF _ disjI1 [OF refl]] fin by (simp add: ready_replies_def)
    from follows_drop [OF f req(4) no(1) disjI1 [OF refl] _ _ _ _ _ this] owned have "follows ?l ins (outs @ [])" by (simp add: r)
    moreover have "moves l ?l" using fin by (simp add: moves_def pending_def drop_memory_def)
    ultimately show ?thesis by (simp add: r written_by_def)
  next
    case (Some a)
    let ?l = "l\<lparr>srv := (srv l)\<lparr>mem := hand_over ?m req wd\<rparr>, finished := rest, writing := writing l @ [next_addr ?m]\<rparr>"
    have r: "completed_event rc 0 l = Inr ?l" using Some room rc by (simp add: run)
    have "owns ?m wd a" using req(3) Some by (simp add: owns_def)
    then obtain bs where bs: "blocks ?m a = Some bs" using owned_memoryD(7) [OF D(1)] by blast
    have out: "reply_at ?m req = [(c, bs)]" using job Some bs c by (simp add: reply_at_def held_bytes_def)
    then have "ready_replies l = [(c, bs)] @ ready_replies ?l" using views [OF _ disjI2 [OF refl]] fin by (simp add: ready_replies_def)
    from follows_drop [OF f req(4) no(1) disjI2 [OF refl] _ _ _ _ _ this] owned have "follows ?l ins (outs @ [(c, bs)])" by (simp add: r)
    moreover have "written_by l (completed_event rc 0 l) = [(c, bs)]"
      using req(3) Some bs c by (simp add: r written_by_def outgoing_def hand_over_def response_bytes_def)
    moreover have "moves l ?l" using fin by (simp add: moves_def pending_def hand_over_def)
    ultimately show ?thesis by (simp add: r)
  qed
qed

lemma sent_follows:
  assumes f: "follows l ins outs" and w: "w \<in> set (writing l)"
  shows "\<exists>l'. sent_event 0 w l = Inr l' \<and> follows l' ins outs \<and> moves l l'"
proof (rule sent_event_run [OF followsD(1) [OF f] w refl])
  let ?m = "mem (srv l)"
  note l = followsD(1) [OF f]
  fix wd
  let ?l = "l\<lparr>srv := (srv l)\<lparr>mem := drop_memory ?m w wd\<rparr>, writing := remove1 w (writing l)\<rparr>"
  assume h: "holds ?m w wd" and no: "w \<notin> set (map fst (pool l) @ finished l)" and run: "sent_event 0 w l = Inr ?l"
  have "concat (map (reply_at (drop_memory ?m w wd)) (finished l)) = concat (map (reply_at ?m) (finished l))"
    by (rule drop_views [OF owned_loopD(1) [OF l] h _ finished_used [OF l]]) (use no in auto)
  then have "ready_replies l = [] @ ready_replies ?l" by (simp add: ready_replies_def)
  from follows_drop [OF f h _ disjI1 [OF refl] _ _ _ _ _ this] no sent_event_owned [OF l w, of 0]
  have "follows ?l ins (outs @ [])" by (simp add: run)
  moreover have "moves l ?l"
    using w length_pos_if_in_set [OF w] by (simp add: moves_def pending_def drop_memory_def length_remove1)
  ultimately show ?thesis using run by simp
qed

section \<open>All runs\<close>

lemma io_step_follows:
  assumes "io_step l i out r" and f: "follows l ins outs" and room: "next_addr (mem (srv l)) + 6 \<le> mem_limit (mem (srv l))"
    and pr: "protocol ins"
  shows "\<exists>l'. r = Inr l' \<and> follows l' (ins @ i) (outs @ out)"
  using assms(1)
proof cases
  case (io_work gs returned)
  obtain req k rest where "pool l = (req, k) # rest" using io_work(4) by (cases "pool l") auto
  then show ?thesis
    using work_follows [OF f room _ _ pr, of req rest gs returned] close_follows [OF f, of req rest returned gs] io_work by (cases k) auto
next
  case (io_completed rc)
  then obtain req rest where "finished l = req # rest" by (cases "finished l") auto
  then show ?thesis using completed_follows [OF f room _ io_completed(5)] io_completed by auto
next
  case (io_sent w)
  with sent_follows [OF f io_sent(4)] show ?thesis by auto
qed (use connect_follows [OF f room] nothing_follows [OF f room] read_follows [OF f room] leave_follows [OF f room]
    closed_follows [OF f] in \<open>auto simp del: length_append\<close>)

lemma start_follows: "follows (start_loop limit) [] []"
proof -
  have "in_order (start_loop limit) [] [] c" for c
    by (auto simp: in_order_def start_loop_def waiting_reads_def ready_replies_def intro!: exI [of _ "[]"] exI [of _ Waiting] peer_end)
  moreover have "pool (start_loop limit) = []" by (simp add: start_loop_def)
  ultimately show ?thesis by (simp add: follows_def start_loop_owned)
qed

lemma io_run_follows: "io_run l0 ins outs r \<Longrightarrow> follows l0 [] [] \<Longrightarrow> protocol ins \<Longrightarrow> \<exists>l. r = Inr l \<and> follows l ins outs"
proof (induction rule: io_run.induct)
  case (io_next l ins outs l1 i out r)
  then have "protocol ins" using protocol_prefix by blast
  with io_next show ?case using io_step_follows by blast
qed blast

lemma in_order_idle:
  assumes "in_order l ins outs c" and "pool l = []" and "finished l = []"
  shows "\<exists>st. peer_run Waiting (bytes_of c ins) (bytes_of c outs) st"
  using assms by (auto simp: in_order_def waiting_reads_def ready_replies_def)

text \<open>Pending work can be done at any time, without further reads.\<close>

lemma pending_step:
  assumes f: "follows l ins outs" and pr: "protocol ins" and room: "next_addr (mem (srv l)) + 6 \<le> mem_limit (mem (srv l))" and "pending l \<noteq> 0"
  shows "\<exists>out l'. io_step l [] out (Inr l') \<and> follows l' ins (outs @ out) \<and> moves l l'"
proof -
  let ?gs = "\<lambda>_ :: nat. (zero_garbage, zero_garbage)"
  consider req k rest where "pool l = (req, k) # rest" | req rest where "finished l = req # rest" | w where "w \<in> set (writing l)"
    using assms(4) by (cases "pool l"; cases "finished l"; cases "writing l") (auto simp: pending_def)
  then show ?thesis
  proof cases
    case 1
    have gs: "wf_garbage (fst (?gs k))" for k by simp
    from 1 obtain l' where "work_event 0 ?gs l = Inr l'" "follows l' ins outs" "moves l l'"
      using work_follows [OF f room _ gs pr, of req rest 0] close_follows [OF f, of req rest 0 ?gs] by (cases k) auto
    moreover have "io_step l [] [] (work_event 0 ?gs l)" by (rule io_work) (use 1 gs in auto)
    ultimately show ?thesis by (intro exI [of _ "[]"] exI [of _ l']) simp
  next
    case 2
    have "io_step l [] (written_by l (completed_event 0 0 l)) (completed_event 0 0 l)" by (rule io_completed) (use 2 in auto)
    with completed_follows [OF f room 2, of 0] show ?thesis by (metis order_refl)
  next
    case 3
    from io_sent [OF this] sent_follows [OF f 3] show ?thesis by (metis append_Nil2)
  qed
qed

lemma pending_drains:
  "follows l ins outs \<Longrightarrow> io_run l0 ins outs (Inr l) \<Longrightarrow> protocol ins \<Longrightarrow>
   next_addr (mem (srv l)) + pending l + 6 \<le> mem_limit (mem (srv l)) \<Longrightarrow>
   \<exists>outs' l'. io_run l0 ins (outs @ outs') (Inr l') \<and> follows l' ins (outs @ outs') \<and> pending l' = 0"
proof (induction "pending l" arbitrary: l outs rule: less_induct)
  case less
  show ?case
  proof (cases "pending l = 0")
    case True
    with less.prems show ?thesis by (intro exI [of _ "[]"] exI [of _ l]) simp
  next
    case False
    have room: "next_addr (mem (srv l)) + 6 \<le> mem_limit (mem (srv l))" using less.prems(4) by simp
    from pending_step [OF less.prems(1,3) room False] obtain out l1 where
      step: "io_step l [] out (Inr l1)" "follows l1 ins (outs @ out)" "moves l l1" by blast
    have "io_run l0 ins (outs @ out) (Inr l1)" using io_next [OF less.prems(2) room step(1)] by simp
    from less.hyps [OF _ step(2) this less.prems(3)] step(3) less.prems(4) show ?thesis by (auto simp: moves_def)
  qed
qed

section \<open>A sample\<close>

text \<open>A client connects and sends its request, and a message while the request is still queued.\<close>

definition pipelined_client :: uv_loop where
  "pipelined_client = one_client\<lparr>srv := (srv one_client)\<lparr>mem := (mem (srv one_client))\<lparr>mem_limit := 100\<rparr>\<rparr>\<rparr>"

definition pipelined_reads :: "(addr \<times> bytes) list" where
  "pipelined_reads = [(0, bytes_of_str (render_request get_request)), (0, encode_frame hello_frame)]"

lemma pipelined_connects: "connect_event all_well None 0 (start_loop 100) = Inr pipelined_client"
  by (simp add: connect_event_def on_peer_connected_def xmalloc_def sizeof_struct_def start_loop_def one_client_def pipelined_client_def
      all_well_def Let_def numeral_2_eq_2 [symmetric])

definition pipelined_replies :: "bytes list" where
  "pipelined_replies = [bytes_of_str (rfc_reply ''dGhlIHNhbXBsZSBub25jZQ==''), hello_echo]"

lemma pipelined_peer: "peer_run Waiting (bytes_of 0 pipelined_reads) pipelined_replies (Opened [] [])"
proof -
  have "length (render_request get_request) \<le> 1024000" by (simp add: get_request_def render_request_EOL request_lines_SP header_line_def)
  note up = upgrade [OF plain_get_request this]
  have "peer_run (Opened [] []) [encode_frame hello_frame] [hello_echo] (Opened [] [])"
    using peer_next [OF hello_step peer_end] by simp
  from peer_next [OF up this] show ?thesis by (simp add: pipelined_reads_def pipelined_replies_def)
qed

lemma pipelined_protocol: "protocol pipelined_reads"
  unfolding protocol_def
proof
  fix c
  show "\<exists>outs st. peer_run Waiting (bytes_of c pipelined_reads) outs st"
  proof (cases "c = 0")
    case True
    with pipelined_peer show ?thesis by blast
  next
    case False
    then have "bytes_of c pipelined_reads = []" by (simp add: pipelined_reads_def)
    with peer_end [of Waiting] show ?thesis by metis
  qed
qed

lemma pipelined_run:
  "\<exists>l. io_run (start_loop 100) pipelined_reads [] (Inr l) \<and> length (pool l) = 2 \<and> finished l = [] \<and> writing l = [] \<and>
     next_addr (mem (srv l)) = 11 \<and> mem_limit (mem (srv l)) = 100"
proof -
  let ?b1 = "bytes_of_str (render_request get_request)" and ?b2 = "encode_frame hello_frame"
  have b1: "?b1 \<noteq> []" "length (?b1 @ []) < 2 ^ 31"
    by (simp_all add: bytes_of_str_def get_request_def render_request_EOL request_lines_SP header_line_def)
  have b2: "?b2 \<noteq> []" "length (?b2 @ []) < 2 ^ 31" by (simp_all add: hello_encoded hello_bytes_def)
  have "io_run (start_loop 100) ([] @ []) ([] @ []) (connect_event all_well None 0 (start_loop 100))"
    by (rule io_next [OF io_start _ io_connect]) (simp_all add: start_loop_def no_failure_def all_well_def)
  then have r0: "io_run (start_loop 100) [] [] (Inr pipelined_client)" by (simp add: pipelined_connects)
  have con: "connected (srv pipelined_client) 0 1 2 (WebSocketEndpoint_new None)" "fresh_memory (mem (srv pipelined_client))"
    "0 \<in> reading pipelined_client" "next_addr (mem (srv pipelined_client)) = 3" "mem_limit (mem (srv pipelined_client)) = 100"
    by (simp_all add: pipelined_client_def one_client_def start_loop_def connected_def fresh_memory_def)
  note read1 = read_event_data [OF con(1) refl con(2) _ _ _ b1 refl, of 0 0 sample_work]
  obtain l1 where l1: "read_event 0 sample_work 0 0 (int (length ?b1)) (?b1 @ []) pipelined_client = Inr l1"
    "connected (srv l1) 0 1 2 (WebSocketEndpoint_new None)" "fresh_memory (mem (srv l1))" "0 \<in> reading l1"
    "next_addr (mem (srv l1)) = 7" "mem_limit (mem (srv l1)) = 100" "length (pool l1) = 1" "finished l1 = []" "writing l1 = []"
    using read1 con by (simp add: with_mem_def connected_def fresh_memory_def pipelined_client_def one_client_def start_loop_def)
  have r1: "io_run (start_loop 100) ([] @ [(0, ?b1)]) ([] @ []) (Inr l1)"
    using io_next [OF r0 _ io_read [OF con(3) b1, of 0 0 sample_work]] con(4,5) by (simp add: l1(1) [simplified])
  note read2 = read_event_data [OF l1(2) refl l1(3) _ _ _ b2 refl, of 0 0 sample_work]
  obtain l2 where l2: "read_event 0 sample_work 0 0 (int (length ?b2)) (?b2 @ []) l1 = Inr l2"
    "next_addr (mem (srv l2)) = 11" "mem_limit (mem (srv l2)) = 100" "length (pool l2) = 2" "finished l2 = []" "writing l2 = []"
    using read2 l1(5-9) by (simp add: with_mem_def)
  have "io_run (start_loop 100) (([] @ [(0, ?b1)]) @ [(0, ?b2)]) (([] @ []) @ []) (Inr l2)"
    using io_next [OF r1 _ io_read [OF l1(4) b2, of 0 0 sample_work]] l1(5,6) by (simp add: l2(1) [simplified])
  with l2(2-6) show ?thesis by (intro exI [of _ l2]) (simp add: pipelined_reads_def)
qed

section \<open>Properties\<close>


text \<open>C26: nothing that has arrived stays unanswered. Wherever a run as in \<open>server_pipelines_clients\<close> has got to (no
  failure of libuv, departures only without pending work, and reads that the automata of the clients take: the upgrade request whole
  in one read, one message at most completed by each later read), with memory for what is
  pending, the callbacks that are due, without any further read, take it to a state with
  no work queued, finished or being written, in which every client has been sent exactly what its automaton
  answers to all it has sent.\<close>

theorem server_answers_everything:
  assumes "io_run (start_loop limit) ins outs (Inr l)" and "protocol ins"
    and "next_addr (mem (srv l)) + pending l + 6 \<le> mem_limit (mem (srv l))"
  shows "\<exists>outs' l'. io_run (start_loop limit) ins (outs @ outs') (Inr l') \<and> pool l' = [] \<and> finished l' = [] \<and> writing l' = [] \<and>
    (\<forall>c. \<exists>st. peer_run Waiting (bytes_of c ins) (bytes_of c (outs @ outs')) st)"
proof -
  have "follows l ins outs" using io_run_follows [OF assms(1) start_follows assms(2)] by auto
  from pending_drains [OF this assms] obtain outs' l' where l': "io_run (start_loop limit) ins (outs @ outs') (Inr l')"
    "follows l' ins (outs @ outs')" "pending l' = 0" by blast
  then have q: "pool l' = []" "finished l' = []" "writing l' = []" by (simp_all add: pending_def)
  with l'(1) in_order_idle [OF followsD(4) [OF l'(2)] q(1,2)] show ?thesis by blast
qed

theorem server_answers_everything_witness:
  "\<exists>outs' l'. io_run (start_loop 100) pipelined_reads ([] @ outs') (Inr l') \<and> pool l' = [] \<and> finished l' = [] \<and> writing l' = [] \<and>
    (\<forall>c. \<exists>st. peer_run Waiting (bytes_of c pipelined_reads) (bytes_of c ([] @ outs')) st)"
proof -
  obtain l where l: "io_run (start_loop 100) pipelined_reads [] (Inr l)" "length (pool l) = 2" "finished l = []" "writing l = []"
    "next_addr (mem (srv l)) = 11" "mem_limit (mem (srv l)) = 100" using pipelined_run by blast
  show ?thesis by (rule server_answers_everything [OF l(1) pipelined_protocol]) (simp add: l pending_def)
qed


end
