(* ===== verification/Uv_Layout.thy ===== *)
theory Uv_Layout
  imports Ws_Prelude
begin

text \<open>
  How C lays out structures, for the handles and requests of libuv (\<open>Uv_Handles\<close>): sizes, alignments and the offsets of
  fields, over any application binary interface. Nothing here is taken from the sources; it is
  the part of C that uv.h relies on when its structures are cast to one another.
\<close>

section \<open>Types\<close>

text \<open>A scalar goes by its name, a pointer by what it points to; the interface gives size and alignment.\<close>

datatype ctype =
    Scalar string
  | Pointer string
  | Arr nat ctype
  | Struct "(string \<times> ctype) list"
  | Union "(string \<times> ctype) list"

type_synonym fields = "(string \<times> ctype) list"

type_synonym abi = "string \<Rightarrow> nat \<times> nat"

definition align_up :: "nat \<Rightarrow> nat \<Rightarrow> nat" where
  "align_up n a = (n + (a - 1)) div a * a"

fun align_of :: "abi \<Rightarrow> ctype \<Rightarrow> nat" and align_fields :: "abi \<Rightarrow> fields \<Rightarrow> nat" where
  "align_of abi (Scalar s) = max 1 (snd (abi s))"
| "align_of abi (Pointer s) = max 1 (snd (abi ''*''))"
| "align_of abi (Arr n t) = align_of abi t"
| "align_of abi (Struct fs) = align_fields abi fs"
| "align_of abi (Union fs) = align_fields abi fs"
| "align_fields abi [] = 1"
| "align_fields abi ((n, t) # fs) = max (align_of abi t) (align_fields abi fs)"

text \<open>Fields of a structure follow each other, each at the next multiple of its alignment; those of a union all start at 0.\<close>

fun size_of :: "abi \<Rightarrow> ctype \<Rightarrow> nat" and end_of :: "abi \<Rightarrow> nat \<Rightarrow> fields \<Rightarrow> nat" and widest :: "abi \<Rightarrow> fields \<Rightarrow> nat" where
  "size_of abi (Scalar s) = fst (abi s)"
| "size_of abi (Pointer s) = fst (abi ''*'')"
| "size_of abi (Arr n t) = n * size_of abi t"
| "size_of abi (Struct fs) = align_up (end_of abi 0 fs) (align_fields abi fs)"
| "size_of abi (Union fs) = align_up (widest abi fs) (align_fields abi fs)"
| "end_of abi pos [] = pos"
| "end_of abi pos ((n, t) # fs) = end_of abi (align_up pos (align_of abi t) + size_of abi t) fs"
| "widest abi [] = 0"
| "widest abi ((n, t) # fs) = max (size_of abi t) (widest abi fs)"

fun layout :: "abi \<Rightarrow> nat \<Rightarrow> fields \<Rightarrow> (string \<times> ctype \<times> nat) list" where
  "layout abi pos [] = []"
| "layout abi pos ((n, t) # fs) = (let k = align_up pos (align_of abi t) in (n, t, k) # layout abi (k + size_of abi t) fs)"

definition field_at :: "abi \<Rightarrow> fields \<Rightarrow> string \<Rightarrow> (ctype \<times> nat) option" where
  "field_at abi fs n = map_of (layout abi 0 fs) n"

section \<open>Layouts are sound\<close>

lemma align_up_ge: "0 < a \<Longrightarrow> n \<le> align_up n a"
  unfolding align_up_def using div_mult_mod_eq [of "n + (a - 1)" a] mod_less_divisor [of a "n + (a - 1)"] by linarith

lemma align_up_dvd: "a dvd align_up n a"
  by (simp add: align_up_def)

lemma align_pos: "0 < align_of abi t" "0 < align_fields abi fs"
  by (induction t and fs rule: align_of_align_fields.induct) auto

lemma end_of_ge: "pos \<le> end_of abi pos fs"
proof (induction fs arbitrary: pos)
  case (Cons f fs)
  obtain n t where f: "f = (n, t)" by (cases f)
  have "pos \<le> align_up pos (align_of abi t) + size_of abi t" using align_up_ge [OF align_pos(1)] trans_le_add1 by blast
  also have "\<dots> \<le> end_of abi (align_up pos (align_of abi t) + size_of abi t) fs" by (rule Cons.IH)
  finally show ?case by (simp add: f)
qed simp

text \<open>Every field is aligned, lies behind the position it was laid out from and before the end.\<close>

lemma layout_ConsE:
  assumes "(n, t, k) \<in> set (layout abi pos ((n', t') # fs))"
  obtains "n = n'" and "t = t'" and "k = align_up pos (align_of abi t')"
    | "(n, t, k) \<in> set (layout abi (align_up pos (align_of abi t') + size_of abi t') fs)"
  using assms by (auto simp: Let_def)

lemma layout_field:
  "(n, t, k) \<in> set (layout abi pos fs) \<Longrightarrow> pos \<le> k \<and> align_of abi t dvd k \<and> k + size_of abi t \<le> end_of abi pos fs"
proof (induction fs arbitrary: pos)
  case (Cons f fs)
  obtain n' t' where f: "f = (n', t')" by (cases f)
  note ge = align_up_ge [OF align_pos(1), of pos abi t']
  from Cons.prems [unfolded f] show ?case
  proof (cases rule: layout_ConsE)
    case 1
    with ge end_of_ge show ?thesis by (simp add: f align_up_dvd)
  next
    case 2
    from Cons.IH [OF 2] ge show ?thesis by (simp add: f)
  qed
qed simp

text \<open>Fields do not overlap.\<close>

lemma layout_disjoint:
  "sorted_wrt (\<lambda>(n, t, k) (n', t', k'). k + size_of abi t \<le> k') (layout abi pos fs)"
proof (induction fs arbitrary: pos)
  case (Cons f fs)
  obtain n t where f: "f = (n, t)" by (cases f)
  show ?case using Cons.IH layout_field by (fastforce simp: f Let_def)
qed simp

section \<open>Common beginnings\<close>

lemma layout_append: "layout abi pos (fs @ gs) = layout abi pos fs @ layout abi (end_of abi pos fs) gs"
  by (induction fs arbitrary: pos) (auto simp: Let_def)

lemma layout_names: "map fst (layout abi pos fs) = map fst fs"
  by (induction fs arbitrary: pos) (auto simp: Let_def)

text \<open>Structures that begin with the same fields have them in the same place.\<close>

lemma field_at_append:
  assumes "n \<in> fst ` set fs"
  shows "field_at abi (fs @ gs) n = field_at abi fs n" and "field_at abi fs n \<noteq> None"
proof -
  have "n \<in> set (map fst (layout abi 0 fs))" using assms by (simp only: layout_names) simp
  then have "n \<in> fst ` set (layout abi 0 fs)" by simp
  then show "field_at abi fs n \<noteq> None" by (simp add: field_at_def map_of_eq_None_iff)
  then show "field_at abi (fs @ gs) n = field_at abi fs n"
    by (auto simp: field_at_def layout_append map_add_Some_iff)
qed

text \<open>A union has room for each of its members.\<close>

lemma widest_ge: "(n, t) \<in> set fs \<Longrightarrow> size_of abi t \<le> widest abi fs"
  by (induction fs) auto

lemma union_room: "(n, t) \<in> set fs \<Longrightarrow> size_of abi t \<le> size_of abi (Union fs)"
  using widest_ge [of n t fs abi] align_up_ge [OF align_pos(2), of "widest abi fs" abi fs] by simp

end
