(* ===== verification/Uv_Handles.thy ===== *)
theory Uv_Handles
  imports Uv_Layout Uv_Errno
begin

text \<open>
  The structures of libuv that the program allocates and casts (src/include/uv.h, uv/unix.h and the headers of the Unix
  platforms, uv/win.h, uv/threadpool.h). C has no classes, so \<^verbatim>\<open>uv_tcp_t\<close>, \<^verbatim>\<open>uv_stream_t\<close> and \<^verbatim>\<open>uv_handle_t\<close>
  are kept alike by macros that repeat the fields. Fields are lists of names and types (\<open>Uv_Layout\<close>);
  a callback type is a pointer to a function; types of the system are scalars, whose size is the interface's.
  Comments and prototypes are left out.
\<close>

section \<open>What all handles and all requests have\<close>

text \<open>The macros of uv.h that open every structure, with the fields of the platform (\<open>rp\<close>, \<open>hp\<close>) at their end.\<close>

definition UV_REQ_FIELDS :: "fields \<Rightarrow> fields" where
  "UV_REQ_FIELDS rp =
     [(''data'', Pointer ''void''), (''type'', Scalar ''uv_req_type''), (''reserved'', Arr 6 (Pointer ''void''))] @ rp"

definition UV_HANDLE_FIELDS :: "fields \<Rightarrow> fields" where
  "UV_HANDLE_FIELDS hp =
     [(''data'', Pointer ''void''), (''loop'', Pointer ''uv_loop_t''), (''type'', Scalar ''uv_handle_type''),
     (''close_cb'', Pointer ''uv_close_cb''), (''handle_queue'', Arr 2 (Pointer ''void'')),
     (''u'', Union [(''fd'', Scalar ''int''), (''reserved'', Arr 4 (Pointer ''void''))])] @ hp"

text \<open>Structures that others contain.\<close>

definition uv_write_s :: "fields \<Rightarrow> fields \<Rightarrow> fields" where
  "uv_write_s rp wp =
     UV_REQ_FIELDS rp @ [(''cb'', Pointer ''uv_write_cb''), (''send_handle'', Pointer ''uv_stream_t''),
     (''handle'', Pointer ''uv_stream_t'')] @ wp"

definition uv_async_s :: "fields \<Rightarrow> fields \<Rightarrow> fields" where
  "uv_async_s hp ap =
     UV_HANDLE_FIELDS hp @ ap"

definition uv_signal_s :: "fields \<Rightarrow> fields \<Rightarrow> fields" where
  "uv_signal_s hp sp =
     UV_HANDLE_FIELDS hp @ [(''signal_cb'', Pointer ''uv_signal_cb''), (''signum'', Scalar ''int'')] @ sp"

definition uv_timespec_t :: "fields" where
  "uv_timespec_t =
     [(''tv_sec'', Scalar ''long''), (''tv_nsec'', Scalar ''long'')]"

definition uv_stat_t :: "fields" where
  "uv_stat_t =
     [(''st_dev'', Scalar ''uint64_t''), (''st_mode'', Scalar ''uint64_t''), (''st_nlink'', Scalar ''uint64_t''),
     (''st_uid'', Scalar ''uint64_t''), (''st_gid'', Scalar ''uint64_t''), (''st_rdev'', Scalar ''uint64_t''),
     (''st_ino'', Scalar ''uint64_t''), (''st_size'', Scalar ''uint64_t''), (''st_blksize'', Scalar ''uint64_t''),
     (''st_blocks'', Scalar ''uint64_t''), (''st_flags'', Scalar ''uint64_t''), (''st_gen'', Scalar ''uint64_t''),
     (''st_atim'', Struct uv_timespec_t), (''st_mtim'', Struct uv_timespec_t), (''st_ctim'', Struct uv_timespec_t),
     (''st_birthtim'', Struct uv_timespec_t)]"

definition uv__work :: "fields" where
  "uv__work =
     [(''work'', Pointer ''void ()''), (''done'', Pointer ''void ()''), (''loop'', Pointer ''struct uv_loop_s''),
     (''wq'', Arr 2 (Pointer ''void''))]"

definition rb_entry :: "string \<Rightarrow> fields" where
  "rb_entry type =
     [(''rbe_left'', Pointer (''struct '' @ type)), (''rbe_right'', Pointer (''struct '' @ type)),
      (''rbe_parent'', Pointer (''struct '' @ type)), (''rbe_color'', Scalar ''int'')]"

section \<open>Unix\<close>

text \<open>What a Unix platform may add in a header of its own (linux.h, darwin.h, bsd.h, ...), empty where it does not.\<close>

record unix_headers =
  UV_IO_PRIVATE_PLATFORM_FIELDS :: fields
  UV_PLATFORM_LOOP_FIELDS :: fields
  UV_PLATFORM_FS_EVENT_FIELDS :: fields
  UV_STREAM_PRIVATE_PLATFORM_FIELDS :: fields

text \<open>The private fields of unix.h.\<close>

definition unix_buf :: "fields" where
  "unix_buf =
     [(''base'', Pointer ''char''), (''len'', Scalar ''size_t'')]"

definition uv__io_s :: "fields \<Rightarrow> fields" where
  "uv__io_s io =
     [(''cb'', Pointer ''uv__io_cb''), (''pending_queue'', Arr 2 (Pointer ''void'')),
     (''watcher_queue'', Arr 2 (Pointer ''void'')), (''pevents'', Scalar ''unsigned int''),
     (''events'', Scalar ''unsigned int''), (''fd'', Scalar ''int'')] @ io"

definition NI_MAXHOST :: nat where
  "NI_MAXHOST = 1025"

definition NI_MAXSERV :: nat where
  "NI_MAXSERV = 32"

definition unix_req_private :: "fields" where
  "unix_req_private =
     []"

definition unix_write_private :: "fields" where
  "unix_write_private =
     [(''queue'', Arr 2 (Pointer ''void'')), (''write_index'', Scalar ''unsigned int''), (''bufs'', Pointer ''uv_buf_t''),
     (''nbufs'', Scalar ''unsigned int''), (''error'', Scalar ''int''), (''bufsml'', Arr 4 (Struct unix_buf))]"

definition unix_connect_private :: "fields" where
  "unix_connect_private =
     [(''queue'', Arr 2 (Pointer ''void''))]"

definition unix_shutdown_private :: "fields" where
  "unix_shutdown_private =
     []"

definition unix_udp_send_private :: "fields" where
  "unix_udp_send_private =
     [(''queue'', Arr 2 (Pointer ''void'')), (''addr'', Scalar ''struct sockaddr_storage''),
     (''nbufs'', Scalar ''unsigned int''), (''bufs'', Pointer ''uv_buf_t''), (''status'', Scalar ''ssize_t''),
     (''send_cb'', Pointer ''uv_udp_send_cb''), (''bufsml'', Arr 4 (Struct unix_buf))]"

definition unix_handle_private :: "fields" where
  "unix_handle_private =
     [(''next_closing'', Pointer ''uv_handle_t''), (''flags'', Scalar ''unsigned int'')]"

definition unix_stream_private :: "unix_headers \<Rightarrow> fields" where
  "unix_stream_private u =
     [(''connect_req'', Pointer ''uv_connect_t''), (''shutdown_req'', Pointer ''uv_shutdown_t''),
     (''io_watcher'', Struct (uv__io_s (UV_IO_PRIVATE_PLATFORM_FIELDS u))), (''write_queue'', Arr 2 (Pointer ''void'')),
     (''write_completed_queue'', Arr 2 (Pointer ''void'')), (''connection_cb'', Pointer ''uv_connection_cb''),
     (''delayed_error'', Scalar ''int''), (''accepted_fd'', Scalar ''int''), (''queued_fds'', Pointer ''void'')]
     @ UV_STREAM_PRIVATE_PLATFORM_FIELDS u"

definition unix_tcp_private :: "fields" where
  "unix_tcp_private =
     []"

definition unix_udp_private :: "unix_headers \<Rightarrow> fields" where
  "unix_udp_private u =
     [(''alloc_cb'', Pointer ''uv_alloc_cb''), (''recv_cb'', Pointer ''uv_udp_recv_cb''), (''io_watcher'', Struct (uv__io_s (UV_IO_PRIVATE_PLATFORM_FIELDS u))),
     (''write_queue'', Arr 2 (Pointer ''void'')), (''write_completed_queue'', Arr 2 (Pointer ''void''))]"

definition unix_pipe_private :: "fields" where
  "unix_pipe_private =
     [(''pipe_fname'', Pointer ''char'')]"

definition unix_poll_private :: "unix_headers \<Rightarrow> fields" where
  "unix_poll_private u =
     [(''io_watcher'', Struct (uv__io_s (UV_IO_PRIVATE_PLATFORM_FIELDS u)))]"

definition unix_prepare_private :: "fields" where
  "unix_prepare_private =
     [(''prepare_cb'', Pointer ''uv_prepare_cb''), (''queue'', Arr 2 (Pointer ''void''))]"

definition unix_check_private :: "fields" where
  "unix_check_private =
     [(''check_cb'', Pointer ''uv_check_cb''), (''queue'', Arr 2 (Pointer ''void''))]"

definition unix_idle_private :: "fields" where
  "unix_idle_private =
     [(''idle_cb'', Pointer ''uv_idle_cb''), (''queue'', Arr 2 (Pointer ''void''))]"

definition unix_async_private :: "fields" where
  "unix_async_private =
     [(''async_cb'', Pointer ''uv_async_cb''), (''queue'', Arr 2 (Pointer ''void'')), (''pending'', Scalar ''int'')]"

definition unix_timer_private :: "fields" where
  "unix_timer_private =
     [(''timer_cb'', Pointer ''uv_timer_cb''), (''heap_node'', Arr 3 (Pointer ''void'')), (''timeout'', Scalar ''uint64_t''),
     (''repeat'', Scalar ''uint64_t''), (''start_id'', Scalar ''uint64_t'')]"

definition unix_getaddrinfo_private :: "fields" where
  "unix_getaddrinfo_private =
     [(''work_req'', Struct uv__work), (''cb'', Pointer ''uv_getaddrinfo_cb''), (''hints'', Pointer ''struct addrinfo''),
     (''hostname'', Pointer ''char''), (''service'', Pointer ''char''), (''addrinfo'', Pointer ''struct addrinfo''),
     (''retcode'', Scalar ''int'')]"

definition unix_getnameinfo_private :: "fields" where
  "unix_getnameinfo_private =
     [(''work_req'', Struct uv__work), (''getnameinfo_cb'', Pointer ''uv_getnameinfo_cb''),
     (''storage'', Scalar ''struct sockaddr_storage''), (''flags'', Scalar ''int''),
     (''host'', Arr NI_MAXHOST (Scalar ''char'')), (''service'', Arr NI_MAXSERV (Scalar ''char'')),
     (''retcode'', Scalar ''int'')]"

definition unix_process_private :: "fields" where
  "unix_process_private =
     [(''queue'', Arr 2 (Pointer ''void'')), (''status'', Scalar ''int'')]"

definition unix_fs_private :: "fields" where
  "unix_fs_private =
     [(''new_path'', Pointer ''char''), (''file'', Scalar ''uv_file''), (''flags'', Scalar ''int''),
     (''mode'', Scalar ''mode_t''), (''nbufs'', Scalar ''unsigned int''), (''bufs'', Pointer ''uv_buf_t''),
     (''off'', Scalar ''off_t''), (''uid'', Scalar ''uv_uid_t''), (''gid'', Scalar ''uv_gid_t''),
     (''atime'', Scalar ''double''), (''mtime'', Scalar ''double''), (''work_req'', Struct uv__work),
     (''bufsml'', Arr 4 (Struct unix_buf))]"

definition unix_work_private :: "fields" where
  "unix_work_private =
     [(''work_req'', Struct uv__work)]"

definition unix_tty_private :: "fields" where
  "unix_tty_private =
     [(''orig_termios'', Scalar ''struct termios''), (''mode'', Scalar ''int'')]"

definition unix_signal_private :: "fields" where
  "unix_signal_private =
     [(''tree_entry'', Struct [(''rbe_left'', Pointer ''struct uv_signal_s''),
     (''rbe_right'', Pointer ''struct uv_signal_s''), (''rbe_parent'', Pointer ''struct uv_signal_s''),
     (''rbe_color'', Scalar ''int'')]), (''caught_signals'', Scalar ''unsigned int''),
     (''dispatched_signals'', Scalar ''unsigned int'')]"

definition unix_fs_event_private :: "unix_headers \<Rightarrow> fields" where
  "unix_fs_event_private u =
     [(''cb'', Pointer ''uv_fs_event_cb'')] @ UV_PLATFORM_FS_EVENT_FIELDS u"

definition unix_loop_private :: "unix_headers \<Rightarrow> fields" where
  "unix_loop_private u =
     [(''flags'', Scalar ''unsigned long''), (''backend_fd'', Scalar ''int''), (''pending_queue'', Arr 2 (Pointer ''void'')),
     (''watcher_queue'', Arr 2 (Pointer ''void'')), (''watchers'', Pointer ''uv__io_t*''),
     (''nwatchers'', Scalar ''unsigned int''), (''nfds'', Scalar ''unsigned int''), (''wq'', Arr 2 (Pointer ''void'')),
     (''wq_mutex'', Scalar ''uv_mutex_t''), (''wq_async'', Struct (uv_async_s unix_handle_private unix_async_private)),
     (''cloexec_lock'', Scalar ''uv_rwlock_t''), (''closing_handles'', Pointer ''uv_handle_t''),
     (''process_handles'', Arr 2 (Pointer ''void'')), (''prepare_handles'', Arr 2 (Pointer ''void'')),
     (''check_handles'', Arr 2 (Pointer ''void'')), (''idle_handles'', Arr 2 (Pointer ''void'')),
     (''async_handles'', Arr 2 (Pointer ''void'')), (''async_unused'', Pointer ''void ()''),
     (''async_io_watcher'', Struct (uv__io_s (UV_IO_PRIVATE_PLATFORM_FIELDS u))), (''async_wfd'', Scalar ''int''),
     (''timer_heap'', Struct [(''min'', Pointer ''void''), (''nelts'', Scalar ''unsigned int'')]),
     (''timer_counter'', Scalar ''uint64_t''), (''time'', Scalar ''uint64_t''), (''signal_pipefd'', Arr 2 (Scalar ''int'')),
     (''signal_io_watcher'', Struct (uv__io_s (UV_IO_PRIVATE_PLATFORM_FIELDS u))),
     (''child_watcher'', Struct (uv_signal_s unix_handle_private unix_signal_private)), (''emfile_fd'', Scalar ''int'')]
     @ UV_PLATFORM_LOOP_FIELDS u"

section \<open>Windows\<close>

text \<open>The private fields of win.h. Requests are embedded in handles here.\<close>

definition win_buf :: "fields" where
  "win_buf =
     [(''len'', Scalar ''ULONG''), (''base'', Pointer ''char'')]"

definition UV_MSAFD_PROVIDER_COUNT :: nat where
  "UV_MSAFD_PROVIDER_COUNT = 3"

definition win_req_private :: "fields" where
  "win_req_private =
     [(''u'', Union [(''io'', Struct [(''overlapped'', Scalar ''OVERLAPPED''), (''queued_bytes'', Scalar ''size_t'')])]),
     (''next_req'', Pointer ''struct uv_req_s'')]"

definition win_write_private :: "fields" where
  "win_write_private =
     [(''coalesced'', Scalar ''int''), (''write_buffer'', Struct win_buf), (''event_handle'', Scalar ''HANDLE''),
     (''wait_handle'', Scalar ''HANDLE'')]"

definition win_handle_private :: "fields" where
  "win_handle_private =
     [(''endgame_next'', Pointer ''uv_handle_t''), (''flags'', Scalar ''unsigned int'')]"

definition win_read :: "fields" where
  "win_read =
     UV_REQ_FIELDS win_req_private @ [(''event_handle'', Scalar ''HANDLE''), (''wait_handle'', Scalar ''HANDLE'')]"

definition win_pipe_accept :: "fields" where
  "win_pipe_accept =
     UV_REQ_FIELDS win_req_private @ [(''pipeHandle'', Scalar ''HANDLE''), (''next_pending'', Pointer ''struct uv_pipe_accept_s'')]"

definition win_tcp_accept :: "abi \<Rightarrow> fields" where
  "win_tcp_accept abi =
     UV_REQ_FIELDS win_req_private @ [(''accept_socket'', Scalar ''SOCKET''),
     (''accept_buffer'', Arr (size_of abi (Scalar ''struct sockaddr_storage'') * 2 + 32) (Scalar ''char'')),
     (''event_handle'', Scalar ''HANDLE''), (''wait_handle'', Scalar ''HANDLE''), (''next_pending'', Pointer ''struct uv_tcp_accept_s'')]"

definition win_stream_connection :: "fields" where
  "win_stream_connection =
     [(''write_reqs_pending'', Scalar ''unsigned int''), (''shutdown_req'', Pointer ''uv_shutdown_t'')]"

definition win_stream_server :: "fields" where
  "win_stream_server =
     [(''connection_cb'', Pointer ''uv_connection_cb'')]"

definition win_tcp_server :: "fields" where
  "win_tcp_server =
     [(''accept_reqs'', Pointer ''uv_tcp_accept_t''), (''processed_accepts'', Scalar ''unsigned int''),
     (''pending_accepts'', Pointer ''uv_tcp_accept_t''), (''func_acceptex'', Pointer ''LPFN_ACCEPTEX'')]"

definition win_tcp_connection :: "fields" where
  "win_tcp_connection =
     [(''read_buffer'', Struct win_buf), (''func_connectex'', Pointer ''LPFN_CONNECTEX'')]"

definition win_pipe_server :: "fields" where
  "win_pipe_server =
     [(''pending_instances'', Scalar ''int''), (''accept_reqs'', Pointer ''uv_pipe_accept_t''),
     (''pending_accepts'', Pointer ''uv_pipe_accept_t'')]"

definition win_pipe_connection :: "fields" where
  "win_pipe_connection =
     [(''eof_timer'', Pointer ''uv_timer_t''), (''dummy'', Struct (uv_write_s win_req_private win_write_private)),
     (''ipc_remote_pid'', Scalar ''DWORD''), (''ipc_data_frame'', Union [(''payload_remaining'', Scalar ''uint32_t''),
     (''dummy'', Scalar ''uint64_t'')]), (''ipc_xfer_queue'', Arr 2 (Pointer ''void'')),
     (''ipc_xfer_queue_length'', Scalar ''int''), (''non_overlapped_writes_tail'', Pointer ''uv_write_t''),
     (''readfile_thread_lock'', Scalar ''CRITICAL_SECTION''), (''readfile_thread_handle'', Scalar ''HANDLE'')]"

definition win_connect_private :: "fields" where
  "win_connect_private =
     []"

definition win_shutdown_private :: "fields" where
  "win_shutdown_private =
     []"

definition win_udp_send_private :: "fields" where
  "win_udp_send_private =
     []"

definition win_stream_private :: "fields" where
  "win_stream_private =
     [(''reqs_pending'', Scalar ''unsigned int''), (''activecnt'', Scalar ''int''), (''read_req'', Struct win_read),
     (''stream'', Union [(''conn'', Struct (win_stream_connection)), (''serv'', Struct (win_stream_server))])]"

definition win_tcp_private :: "fields" where
  "win_tcp_private =
     [(''socket'', Scalar ''SOCKET''), (''delayed_error'', Scalar ''int''),
     (''tcp'', Union [(''serv'', Struct (win_tcp_server)), (''conn'', Struct (win_tcp_connection))])]"

definition win_udp_private :: "fields" where
  "win_udp_private =
     [(''socket'', Scalar ''SOCKET''), (''reqs_pending'', Scalar ''unsigned int''), (''activecnt'', Scalar ''int''),
     (''recv_req'', Struct (UV_REQ_FIELDS win_req_private)), (''recv_buffer'', Struct win_buf),
     (''recv_from'', Scalar ''struct sockaddr_storage''), (''recv_from_len'', Scalar ''int''),
     (''recv_cb'', Pointer ''uv_udp_recv_cb''), (''alloc_cb'', Pointer ''uv_alloc_cb''),
     (''func_wsarecv'', Pointer ''LPFN_WSARECV''), (''func_wsarecvfrom'', Pointer ''LPFN_WSARECVFROM'')]"

definition win_pipe_private :: "fields" where
  "win_pipe_private =
     [(''handle'', Scalar ''HANDLE''), (''name'', Pointer ''WCHAR''), (''pipe'', Union [(''serv'', Struct (win_pipe_server)),
     (''conn'', Struct (win_pipe_connection))])]"

definition win_poll_private :: "fields" where
  "win_poll_private =
     [(''socket'', Scalar ''SOCKET''), (''peer_socket'', Scalar ''SOCKET''), (''afd_poll_info_1'', Scalar ''AFD_POLL_INFO''),
     (''afd_poll_info_2'', Scalar ''AFD_POLL_INFO''), (''poll_req_1'', Struct (UV_REQ_FIELDS win_req_private)),
     (''poll_req_2'', Struct (UV_REQ_FIELDS win_req_private)), (''submitted_events_1'', Scalar ''unsigned char''),
     (''submitted_events_2'', Scalar ''unsigned char''), (''mask_events_1'', Scalar ''unsigned char''),
     (''mask_events_2'', Scalar ''unsigned char''), (''events'', Scalar ''unsigned char'')]"

definition win_prepare_private :: "fields" where
  "win_prepare_private =
     [(''prepare_prev'', Pointer ''uv_prepare_t''), (''prepare_next'', Pointer ''uv_prepare_t''),
     (''prepare_cb'', Pointer ''uv_prepare_cb'')]"

definition win_check_private :: "fields" where
  "win_check_private =
     [(''check_prev'', Pointer ''uv_check_t''), (''check_next'', Pointer ''uv_check_t''),
     (''check_cb'', Pointer ''uv_check_cb'')]"

definition win_idle_private :: "fields" where
  "win_idle_private =
     [(''idle_prev'', Pointer ''uv_idle_t''), (''idle_next'', Pointer ''uv_idle_t''), (''idle_cb'', Pointer ''uv_idle_cb'')]"

definition win_async_private :: "fields" where
  "win_async_private =
     [(''async_req'', Struct (UV_REQ_FIELDS win_req_private)), (''async_cb'', Pointer ''uv_async_cb''),
     (''async_sent'', Scalar ''char'')]"

definition win_timer_private :: "fields" where
  "win_timer_private =
     [(''heap_node'', Arr 3 (Pointer ''void'')), (''unused'', Scalar ''int''), (''timeout'', Scalar ''uint64_t''),
     (''repeat'', Scalar ''uint64_t''), (''start_id'', Scalar ''uint64_t''), (''timer_cb'', Pointer ''uv_timer_cb'')]"

definition win_getaddrinfo_private :: "fields" where
  "win_getaddrinfo_private =
     [(''work_req'', Struct uv__work), (''getaddrinfo_cb'', Pointer ''uv_getaddrinfo_cb''), (''alloc'', Pointer ''void''),
     (''node'', Pointer ''WCHAR''), (''service'', Pointer ''WCHAR''), (''addrinfow'', Pointer ''struct addrinfoW''),
     (''addrinfo'', Pointer ''struct addrinfo''), (''retcode'', Scalar ''int'')]"

definition win_getnameinfo_private :: "fields" where
  "win_getnameinfo_private =
     [(''work_req'', Struct uv__work), (''getnameinfo_cb'', Pointer ''uv_getnameinfo_cb''),
     (''storage'', Scalar ''struct sockaddr_storage''), (''flags'', Scalar ''int''),
     (''host'', Arr NI_MAXHOST (Scalar ''char'')), (''service'', Arr NI_MAXSERV (Scalar ''char'')),
     (''retcode'', Scalar ''int'')]"

definition win_process_private :: "fields" where
  "win_process_private =
     [(''exit_req'', Struct (UV_REQ_FIELDS win_req_private)), (''child_stdio_buffer'', Pointer ''BYTE''),
     (''exit_signal'', Scalar ''int''), (''wait_handle'', Scalar ''HANDLE''), (''process_handle'', Scalar ''HANDLE''),
     (''exit_cb_pending'', Scalar ''char'')]"

definition win_fs_private :: "fields" where
  "win_fs_private =
     [(''work_req'', Struct uv__work), (''flags'', Scalar ''int''), (''sys_errno_'', Scalar ''DWORD''),
     (''file'', Union [(''pathw'', Pointer ''WCHAR''), (''fd'', Scalar ''int'')]),
     (''fs'', Union [(''info'', Struct [(''mode'', Scalar ''int''), (''new_pathw'', Pointer ''WCHAR''),
     (''file_flags'', Scalar ''int''), (''fd_out'', Scalar ''int''), (''nbufs'', Scalar ''unsigned int''),
     (''bufs'', Pointer ''uv_buf_t''), (''offset'', Scalar ''int64_t''), (''bufsml'', Arr 4 (Struct win_buf))]),
     (''time'', Struct [(''atime'', Scalar ''double''), (''mtime'', Scalar ''double'')])])]"

definition win_work_private :: "fields" where
  "win_work_private =
     [(''work_req'', Struct uv__work)]"

definition win_tty_private :: "fields" where
  "win_tty_private =
     [(''handle'', Scalar ''HANDLE''), (''tty'', Union [(''rd'', Struct [(''unused_'', Scalar ''HANDLE''),
     (''read_line_buffer'', Struct win_buf), (''read_raw_wait'', Scalar ''HANDLE''), (''last_key'', Arr 8 (Scalar ''char'')),
     (''last_key_offset'', Scalar ''unsigned char''), (''last_key_len'', Scalar ''unsigned char''),
     (''last_utf16_high_surrogate'', Scalar ''WCHAR''), (''last_input_record'', Scalar ''INPUT_RECORD'')]),
     (''wr'', Struct [(''utf8_codepoint'', Scalar ''unsigned int''), (''utf8_bytes_left'', Scalar ''unsigned char''),
     (''previous_eol'', Scalar ''unsigned char''), (''ansi_parser_state'', Scalar ''unsigned char''),
     (''ansi_csi_argc'', Scalar ''unsigned char''), (''ansi_csi_argv'', Arr 4 (Scalar ''unsigned short'')),
     (''saved_position'', Scalar ''COORD''), (''saved_attributes'', Scalar ''WORD'')])])]"

definition win_signal_private :: "fields" where
  "win_signal_private =
     [(''tree_entry'', Struct (rb_entry ''uv_signal_s'')), (''signal_req'', Struct (UV_REQ_FIELDS win_req_private)),
     (''pending_signum'', Scalar ''unsigned long'')]"

definition win_fs_event_private :: "fields" where
  "win_fs_event_private =
     [(''req'', Struct (UV_REQ_FIELDS win_req_private)), (''dir_handle'', Scalar ''HANDLE''),
     (''req_pending'', Scalar ''int''), (''cb'', Pointer ''uv_fs_event_cb''), (''filew'', Pointer ''WCHAR''),
     (''short_filew'', Pointer ''WCHAR''), (''dirw'', Pointer ''WCHAR''), (''buffer'', Pointer ''char'')]"

definition win_loop_private :: "fields" where
  "win_loop_private =
     [(''iocp'', Scalar ''HANDLE''), (''time'', Scalar ''uint64_t''), (''pending_reqs_tail'', Pointer ''uv_req_t''),
     (''endgame_handles'', Pointer ''uv_handle_t''), (''timer_heap'', Pointer ''void''),
     (''prepare_handles'', Pointer ''uv_prepare_t''), (''check_handles'', Pointer ''uv_check_t''),
     (''idle_handles'', Pointer ''uv_idle_t''), (''next_prepare_handle'', Pointer ''uv_prepare_t''),
     (''next_check_handle'', Pointer ''uv_check_t''), (''next_idle_handle'', Pointer ''uv_idle_t''),
     (''poll_peer_sockets'', Arr UV_MSAFD_PROVIDER_COUNT (Scalar ''SOCKET'')),
     (''active_tcp_streams'', Scalar ''unsigned int''), (''active_udp_streams'', Scalar ''unsigned int''),
     (''timer_counter'', Scalar ''uint64_t''), (''wq'', Arr 2 (Pointer ''void'')), (''wq_mutex'', Scalar ''uv_mutex_t''),
     (''wq_async'', Struct (uv_async_s win_handle_private win_async_private))]"

section \<open>Platforms\<close>

text \<open>What unix.h and win.h each define.\<close>

record platform =
  uv_buf_t_fields :: fields
  UV_REQ_TYPE_PRIVATE :: "string list"
  UV_REQ_PRIVATE_FIELDS :: fields
  UV_WRITE_PRIVATE_FIELDS :: fields
  UV_CONNECT_PRIVATE_FIELDS :: fields
  UV_SHUTDOWN_PRIVATE_FIELDS :: fields
  UV_UDP_SEND_PRIVATE_FIELDS :: fields
  UV_HANDLE_PRIVATE_FIELDS :: fields
  UV_STREAM_PRIVATE_FIELDS :: fields
  UV_TCP_PRIVATE_FIELDS :: fields
  UV_UDP_PRIVATE_FIELDS :: fields
  UV_PIPE_PRIVATE_FIELDS :: fields
  UV_POLL_PRIVATE_FIELDS :: fields
  UV_PREPARE_PRIVATE_FIELDS :: fields
  UV_CHECK_PRIVATE_FIELDS :: fields
  UV_IDLE_PRIVATE_FIELDS :: fields
  UV_ASYNC_PRIVATE_FIELDS :: fields
  UV_TIMER_PRIVATE_FIELDS :: fields
  UV_GETADDRINFO_PRIVATE_FIELDS :: fields
  UV_GETNAMEINFO_PRIVATE_FIELDS :: fields
  UV_PROCESS_PRIVATE_FIELDS :: fields
  UV_FS_PRIVATE_FIELDS :: fields
  UV_WORK_PRIVATE_FIELDS :: fields
  UV_TTY_PRIVATE_FIELDS :: fields
  UV_SIGNAL_PRIVATE_FIELDS :: fields
  UV_FS_EVENT_PRIVATE_FIELDS :: fields
  UV_LOOP_PRIVATE_FIELDS :: fields

definition win_req_types :: "string list" where
  "win_req_types = [''UV_ACCEPT'', ''UV_FS_EVENT_REQ'', ''UV_POLL_REQ'', ''UV_PROCESS_EXIT'', ''UV_READ'', ''UV_UDP_RECV'', ''UV_WAKEUP'', ''UV_SIGNAL_REQ'']"

definition unix_platform :: "unix_headers \<Rightarrow> platform" where
  "unix_platform u = \<lparr>uv_buf_t_fields = unix_buf, UV_REQ_TYPE_PRIVATE = [],
     UV_REQ_PRIVATE_FIELDS = unix_req_private,
     UV_WRITE_PRIVATE_FIELDS = unix_write_private,
     UV_CONNECT_PRIVATE_FIELDS = unix_connect_private,
     UV_SHUTDOWN_PRIVATE_FIELDS = unix_shutdown_private,
     UV_UDP_SEND_PRIVATE_FIELDS = unix_udp_send_private,
     UV_HANDLE_PRIVATE_FIELDS = unix_handle_private,
     UV_STREAM_PRIVATE_FIELDS = unix_stream_private u,
     UV_TCP_PRIVATE_FIELDS = unix_tcp_private,
     UV_UDP_PRIVATE_FIELDS = unix_udp_private u,
     UV_PIPE_PRIVATE_FIELDS = unix_pipe_private,
     UV_POLL_PRIVATE_FIELDS = unix_poll_private u,
     UV_PREPARE_PRIVATE_FIELDS = unix_prepare_private,
     UV_CHECK_PRIVATE_FIELDS = unix_check_private,
     UV_IDLE_PRIVATE_FIELDS = unix_idle_private,
     UV_ASYNC_PRIVATE_FIELDS = unix_async_private,
     UV_TIMER_PRIVATE_FIELDS = unix_timer_private,
     UV_GETADDRINFO_PRIVATE_FIELDS = unix_getaddrinfo_private,
     UV_GETNAMEINFO_PRIVATE_FIELDS = unix_getnameinfo_private,
     UV_PROCESS_PRIVATE_FIELDS = unix_process_private,
     UV_FS_PRIVATE_FIELDS = unix_fs_private,
     UV_WORK_PRIVATE_FIELDS = unix_work_private,
     UV_TTY_PRIVATE_FIELDS = unix_tty_private,
     UV_SIGNAL_PRIVATE_FIELDS = unix_signal_private,
     UV_FS_EVENT_PRIVATE_FIELDS = unix_fs_event_private u,
     UV_LOOP_PRIVATE_FIELDS = unix_loop_private u\<rparr>"

text \<open>The headers of the Unix platforms.\<close>

definition kqueue_io_fields :: "fields" where
  "kqueue_io_fields = [(''rcount'', Scalar ''int''), (''wcount'', Scalar ''int'')]"

definition linux_headers :: unix_headers where
  "linux_headers = \<lparr>UV_IO_PRIVATE_PLATFORM_FIELDS = [],
     UV_PLATFORM_LOOP_FIELDS = [(''inotify_read_watcher'', Struct (uv__io_s [])), (''inotify_watchers'', Pointer ''void''),
       (''inotify_fd'', Scalar ''int'')],
     UV_PLATFORM_FS_EVENT_FIELDS = [(''watchers'', Arr 2 (Pointer ''void'')), (''wd'', Scalar ''int'')],
     UV_STREAM_PRIVATE_PLATFORM_FIELDS = []\<rparr>"

definition darwin_headers :: unix_headers where
  "darwin_headers = \<lparr>UV_IO_PRIVATE_PLATFORM_FIELDS = kqueue_io_fields,
     UV_PLATFORM_LOOP_FIELDS = [(''cf_thread'', Scalar ''uv_thread_t''), (''_cf_reserved'', Pointer ''void''),
       (''cf_state'', Pointer ''void''), (''cf_mutex'', Scalar ''uv_mutex_t''), (''cf_sem'', Scalar ''uv_sem_t''),
       (''cf_signals'', Arr 2 (Pointer ''void''))],
     UV_PLATFORM_FS_EVENT_FIELDS = [(''event_watcher'', Struct (uv__io_s kqueue_io_fields)), (''realpath'', Pointer ''char''),
       (''realpath_len'', Scalar ''int''), (''cf_flags'', Scalar ''int''), (''cf_cb'', Pointer ''uv_async_t''),
       (''cf_events'', Arr 2 (Pointer ''void'')), (''cf_member'', Arr 2 (Pointer ''void'')), (''cf_error'', Scalar ''int''),
       (''cf_mutex'', Scalar ''uv_mutex_t'')],
     UV_STREAM_PRIVATE_PLATFORM_FIELDS = [(''select'', Pointer ''void'')]\<rparr>"

definition bsd_headers :: unix_headers where
  "bsd_headers = \<lparr>UV_IO_PRIVATE_PLATFORM_FIELDS = kqueue_io_fields, UV_PLATFORM_LOOP_FIELDS = [],
     UV_PLATFORM_FS_EVENT_FIELDS = [(''event_watcher'', Struct (uv__io_s kqueue_io_fields))],
     UV_STREAM_PRIVATE_PLATFORM_FIELDS = []\<rparr>"

definition aix_headers :: unix_headers where
  "aix_headers = \<lparr>UV_IO_PRIVATE_PLATFORM_FIELDS = [], UV_PLATFORM_LOOP_FIELDS = [(''fs_fd'', Scalar ''int'')],
     UV_PLATFORM_FS_EVENT_FIELDS = [(''event_watcher'', Struct (uv__io_s [])), (''dir_filename'', Pointer ''char'')],
     UV_STREAM_PRIVATE_PLATFORM_FIELDS = []\<rparr>"

text \<open>sunos.h has fields for file events only where \<^verbatim>\<open>PORT_SOURCE_FILE\<close> is defined.\<close>

definition sunos_headers :: "bool \<Rightarrow> unix_headers" where
  "sunos_headers port_source_file = \<lparr>UV_IO_PRIVATE_PLATFORM_FIELDS = [],
     UV_PLATFORM_LOOP_FIELDS = [(''fs_event_watcher'', Struct (uv__io_s [])), (''fs_fd'', Scalar ''int'')],
     UV_PLATFORM_FS_EVENT_FIELDS = (if port_source_file then [(''fo'', Scalar ''file_obj_t''), (''fd'', Scalar ''int'')] else []),
     UV_STREAM_PRIVATE_PLATFORM_FIELDS = []\<rparr>"

definition os390_headers :: unix_headers where
  "os390_headers = \<lparr>UV_IO_PRIVATE_PLATFORM_FIELDS = [], UV_PLATFORM_LOOP_FIELDS = [(''ep'', Pointer ''void'')],
     UV_PLATFORM_FS_EVENT_FIELDS = [(''rfis_rftok'', Arr 8 (Scalar ''char''))], UV_STREAM_PRIVATE_PLATFORM_FIELDS = []\<rparr>"

definition posix_headers :: unix_headers where
  "posix_headers = \<lparr>UV_IO_PRIVATE_PLATFORM_FIELDS = [],
     UV_PLATFORM_LOOP_FIELDS = [(''poll_fds'', Pointer ''struct pollfd''), (''poll_fds_used'', Scalar ''size_t''),
       (''poll_fds_size'', Scalar ''size_t''), (''poll_fds_iterating'', Scalar ''unsigned char'')],
     UV_PLATFORM_FS_EVENT_FIELDS = [], UV_STREAM_PRIVATE_PLATFORM_FIELDS = []\<rparr>"

text \<open>Which of them unix.h includes depends on the macros of the compiler (\<open>Uv_Errno\<close>).\<close>

definition unix_includes :: "macros \<Rightarrow> unix_headers" where
  "unix_includes m =
     (if is_defined m ''__linux__'' then linux_headers
      else if is_defined m ''__MVS__'' then os390_headers
      else if is_defined m ''__PASE__'' then posix_headers
      else if is_defined m ''_AIX'' then aix_headers
      else if is_defined m ''__sun'' then sunos_headers (is_defined m ''PORT_SOURCE_FILE'')
      else if is_defined m ''__APPLE__'' then darwin_headers
      else if is_defined m ''__DragonFly__'' \<or> is_defined m ''__FreeBSD__'' \<or> is_defined m ''__FreeBSD_kernel__'' \<or>
              is_defined m ''__OpenBSD__'' \<or> is_defined m ''__NetBSD__'' then bsd_headers
      else if is_defined m ''__CYGWIN__'' \<or> is_defined m ''__MSYS__'' \<or> is_defined m ''__GNU__'' then posix_headers
      else if is_defined m ''__HAIKU__'' then posix_headers
      else \<lparr>UV_IO_PRIVATE_PLATFORM_FIELDS = [], UV_PLATFORM_LOOP_FIELDS = [], UV_PLATFORM_FS_EVENT_FIELDS = [],
             UV_STREAM_PRIVATE_PLATFORM_FIELDS = []\<rparr>)"

definition windows_platform :: platform where
  "windows_platform = \<lparr>uv_buf_t_fields = win_buf, UV_REQ_TYPE_PRIVATE = win_req_types,
     UV_REQ_PRIVATE_FIELDS = win_req_private,
     UV_WRITE_PRIVATE_FIELDS = win_write_private,
     UV_CONNECT_PRIVATE_FIELDS = win_connect_private,
     UV_SHUTDOWN_PRIVATE_FIELDS = win_shutdown_private,
     UV_UDP_SEND_PRIVATE_FIELDS = win_udp_send_private,
     UV_HANDLE_PRIVATE_FIELDS = win_handle_private,
     UV_STREAM_PRIVATE_FIELDS = win_stream_private,
     UV_TCP_PRIVATE_FIELDS = win_tcp_private,
     UV_UDP_PRIVATE_FIELDS = win_udp_private,
     UV_PIPE_PRIVATE_FIELDS = win_pipe_private,
     UV_POLL_PRIVATE_FIELDS = win_poll_private,
     UV_PREPARE_PRIVATE_FIELDS = win_prepare_private,
     UV_CHECK_PRIVATE_FIELDS = win_check_private,
     UV_IDLE_PRIVATE_FIELDS = win_idle_private,
     UV_ASYNC_PRIVATE_FIELDS = win_async_private,
     UV_TIMER_PRIVATE_FIELDS = win_timer_private,
     UV_GETADDRINFO_PRIVATE_FIELDS = win_getaddrinfo_private,
     UV_GETNAMEINFO_PRIVATE_FIELDS = win_getnameinfo_private,
     UV_PROCESS_PRIVATE_FIELDS = win_process_private,
     UV_FS_PRIVATE_FIELDS = win_fs_private,
     UV_WORK_PRIVATE_FIELDS = win_work_private,
     UV_TTY_PRIVATE_FIELDS = win_tty_private,
     UV_SIGNAL_PRIVATE_FIELDS = win_signal_private,
     UV_FS_EVENT_PRIVATE_FIELDS = win_fs_event_private,
     UV_LOOP_PRIVATE_FIELDS = win_loop_private\<rparr>"

text \<open>uv.h includes win.h or unix.h.\<close>

definition uv_platform :: "macros \<Rightarrow> platform" where
  "uv_platform m = (if is_defined m ''_WIN32'' then windows_platform else unix_platform (unix_includes m))"

definition linux_platform :: platform where
  "linux_platform = uv_platform [''__linux__'' \<mapsto> 1]"

section \<open>The structures of uv.h\<close>

text \<open>Of a platform \<open>p\<close>.\<close>

definition UV_STREAM_FIELDS :: "platform \<Rightarrow> fields" where
  "UV_STREAM_FIELDS p =
     [(''write_queue_size'', Scalar ''size_t''), (''alloc_cb'', Pointer ''uv_alloc_cb''),
     (''read_cb'', Pointer ''uv_read_cb'')] @ UV_STREAM_PRIVATE_FIELDS p"

definition uv_req_s :: "platform \<Rightarrow> fields" where
  "uv_req_s p =
     UV_REQ_FIELDS (UV_REQ_PRIVATE_FIELDS p)"

definition uv_handle_s :: "platform \<Rightarrow> fields" where
  "uv_handle_s p =
     UV_HANDLE_FIELDS (UV_HANDLE_PRIVATE_FIELDS p)"

definition uv_shutdown_s :: "platform \<Rightarrow> fields" where
  "uv_shutdown_s p =
     UV_REQ_FIELDS (UV_REQ_PRIVATE_FIELDS p) @ [(''handle'', Pointer ''uv_stream_t''), (''cb'', Pointer ''uv_shutdown_cb'')]
     @ UV_SHUTDOWN_PRIVATE_FIELDS p"

definition uv_stream_s :: "platform \<Rightarrow> fields" where
  "uv_stream_s p =
     UV_HANDLE_FIELDS (UV_HANDLE_PRIVATE_FIELDS p) @ UV_STREAM_FIELDS p"

definition uv_tcp_s :: "platform \<Rightarrow> fields" where
  "uv_tcp_s p =
     UV_HANDLE_FIELDS (UV_HANDLE_PRIVATE_FIELDS p) @ UV_STREAM_FIELDS p @ UV_TCP_PRIVATE_FIELDS p"

definition uv_connect_s :: "platform \<Rightarrow> fields" where
  "uv_connect_s p =
     UV_REQ_FIELDS (UV_REQ_PRIVATE_FIELDS p) @ [(''cb'', Pointer ''uv_connect_cb''), (''handle'', Pointer ''uv_stream_t'')]
     @ UV_CONNECT_PRIVATE_FIELDS p"

definition uv_udp_s :: "platform \<Rightarrow> fields" where
  "uv_udp_s p =
     UV_HANDLE_FIELDS (UV_HANDLE_PRIVATE_FIELDS p) @ [(''send_queue_size'', Scalar ''size_t''),
     (''send_queue_count'', Scalar ''size_t'')] @ UV_UDP_PRIVATE_FIELDS p"

definition uv_udp_send_s :: "platform \<Rightarrow> fields" where
  "uv_udp_send_s p =
     UV_REQ_FIELDS (UV_REQ_PRIVATE_FIELDS p) @ [(''handle'', Pointer ''uv_udp_t''), (''cb'', Pointer ''uv_udp_send_cb'')]
     @ UV_UDP_SEND_PRIVATE_FIELDS p"

definition uv_tty_s :: "platform \<Rightarrow> fields" where
  "uv_tty_s p =
     UV_HANDLE_FIELDS (UV_HANDLE_PRIVATE_FIELDS p) @ UV_STREAM_FIELDS p @ UV_TTY_PRIVATE_FIELDS p"

definition uv_pipe_s :: "platform \<Rightarrow> fields" where
  "uv_pipe_s p =
     UV_HANDLE_FIELDS (UV_HANDLE_PRIVATE_FIELDS p) @ UV_STREAM_FIELDS p @ [(''ipc'', Scalar ''int'')]
     @ UV_PIPE_PRIVATE_FIELDS p"

definition uv_poll_s :: "platform \<Rightarrow> fields" where
  "uv_poll_s p =
     UV_HANDLE_FIELDS (UV_HANDLE_PRIVATE_FIELDS p) @ [(''poll_cb'', Pointer ''uv_poll_cb'')] @ UV_POLL_PRIVATE_FIELDS p"

definition uv_prepare_s :: "platform \<Rightarrow> fields" where
  "uv_prepare_s p =
     UV_HANDLE_FIELDS (UV_HANDLE_PRIVATE_FIELDS p) @ UV_PREPARE_PRIVATE_FIELDS p"

definition uv_check_s :: "platform \<Rightarrow> fields" where
  "uv_check_s p =
     UV_HANDLE_FIELDS (UV_HANDLE_PRIVATE_FIELDS p) @ UV_CHECK_PRIVATE_FIELDS p"

definition uv_idle_s :: "platform \<Rightarrow> fields" where
  "uv_idle_s p =
     UV_HANDLE_FIELDS (UV_HANDLE_PRIVATE_FIELDS p) @ UV_IDLE_PRIVATE_FIELDS p"

definition uv_timer_s :: "platform \<Rightarrow> fields" where
  "uv_timer_s p =
     UV_HANDLE_FIELDS (UV_HANDLE_PRIVATE_FIELDS p) @ UV_TIMER_PRIVATE_FIELDS p"

definition uv_getaddrinfo_s :: "platform \<Rightarrow> fields" where
  "uv_getaddrinfo_s p =
     UV_REQ_FIELDS (UV_REQ_PRIVATE_FIELDS p) @ [(''loop'', Pointer ''uv_loop_t'')] @ UV_GETADDRINFO_PRIVATE_FIELDS p"

definition uv_getnameinfo_s :: "platform \<Rightarrow> fields" where
  "uv_getnameinfo_s p =
     UV_REQ_FIELDS (UV_REQ_PRIVATE_FIELDS p) @ [(''loop'', Pointer ''uv_loop_t'')] @ UV_GETNAMEINFO_PRIVATE_FIELDS p"

definition uv_process_s :: "platform \<Rightarrow> fields" where
  "uv_process_s p =
     UV_HANDLE_FIELDS (UV_HANDLE_PRIVATE_FIELDS p) @ [(''exit_cb'', Pointer ''uv_exit_cb''), (''pid'', Scalar ''int'')]
     @ UV_PROCESS_PRIVATE_FIELDS p"

definition uv_work_s :: "platform \<Rightarrow> fields" where
  "uv_work_s p =
     UV_REQ_FIELDS (UV_REQ_PRIVATE_FIELDS p) @ [(''loop'', Pointer ''uv_loop_t''), (''work_cb'', Pointer ''uv_work_cb''),
     (''after_work_cb'', Pointer ''uv_after_work_cb'')] @ UV_WORK_PRIVATE_FIELDS p"

definition uv_fs_s :: "platform \<Rightarrow> fields" where
  "uv_fs_s p =
     UV_REQ_FIELDS (UV_REQ_PRIVATE_FIELDS p) @ [(''fs_type'', Scalar ''uv_fs_type''), (''loop'', Pointer ''uv_loop_t''),
     (''cb'', Pointer ''uv_fs_cb''), (''result'', Scalar ''ssize_t''), (''ptr'', Pointer ''void''),
     (''path'', Pointer ''char''), (''statbuf'', Struct uv_stat_t)] @ UV_FS_PRIVATE_FIELDS p"

definition uv_fs_event_s :: "platform \<Rightarrow> fields" where
  "uv_fs_event_s p =
     UV_HANDLE_FIELDS (UV_HANDLE_PRIVATE_FIELDS p) @ [(''path'', Pointer ''char'')] @ UV_FS_EVENT_PRIVATE_FIELDS p"

definition uv_fs_poll_s :: "platform \<Rightarrow> fields" where
  "uv_fs_poll_s p =
     UV_HANDLE_FIELDS (UV_HANDLE_PRIVATE_FIELDS p) @ [(''poll_ctx'', Pointer ''void'')]"

definition uv_random_s :: "platform \<Rightarrow> fields" where
  "uv_random_s p =
     UV_REQ_FIELDS (UV_REQ_PRIVATE_FIELDS p) @ [(''loop'', Pointer ''uv_loop_t''), (''status'', Scalar ''int''),
     (''buf'', Pointer ''void''), (''buflen'', Scalar ''size_t''), (''cb'', Pointer ''uv_random_cb''),
     (''work_req'', Struct uv__work)]"

definition uv_loop_s :: "platform \<Rightarrow> fields" where
  "uv_loop_s p =
     [(''data'', Pointer ''void''), (''active_handles'', Scalar ''unsigned int''),
     (''handle_queue'', Arr 2 (Pointer ''void'')), (''active_reqs'', Union [(''unused'', Arr 2 (Pointer ''void'')),
     (''count'', Scalar ''unsigned int'')]), (''stop_flag'', Scalar ''unsigned int'')] @ UV_LOOP_PRIVATE_FIELDS p"

text \<open>The type names \<^verbatim>\<open>uv_..._t\<close> of the handles and of the requests, by their middle part.\<close>

definition handle_structs :: "platform \<Rightarrow> (string \<times> fields) list" where
  "handle_structs p =
     [(''async'', uv_async_s (UV_HANDLE_PRIVATE_FIELDS p) (UV_ASYNC_PRIVATE_FIELDS p)), (''check'', uv_check_s p),
     (''fs_event'', uv_fs_event_s p), (''fs_poll'', uv_fs_poll_s p), (''handle'', uv_handle_s p), (''idle'', uv_idle_s p),
     (''pipe'', uv_pipe_s p), (''poll'', uv_poll_s p), (''prepare'', uv_prepare_s p), (''process'', uv_process_s p),
     (''stream'', uv_stream_s p), (''tcp'', uv_tcp_s p), (''timer'', uv_timer_s p), (''tty'', uv_tty_s p),
     (''udp'', uv_udp_s p), (''signal'', uv_signal_s (UV_HANDLE_PRIVATE_FIELDS p) (UV_SIGNAL_PRIVATE_FIELDS p))]"

definition req_structs :: "platform \<Rightarrow> (string \<times> fields) list" where
  "req_structs p =
     [(''req'', uv_req_s p), (''connect'', uv_connect_s p),
     (''write'', uv_write_s (UV_REQ_PRIVATE_FIELDS p) (UV_WRITE_PRIVATE_FIELDS p)), (''shutdown'', uv_shutdown_s p),
     (''udp_send'', uv_udp_send_s p), (''fs'', uv_fs_s p), (''work'', uv_work_s p), (''getaddrinfo'', uv_getaddrinfo_s p),
     (''getnameinfo'', uv_getnameinfo_s p), (''random'', uv_random_s p)]"

definition UV_HANDLE_TYPE_MAP :: "(string \<times> string) list" where
  "UV_HANDLE_TYPE_MAP =
     [(''ASYNC'', ''async''), (''CHECK'', ''check''), (''FS_EVENT'', ''fs_event''), (''FS_POLL'', ''fs_poll''),
     (''HANDLE'', ''handle''), (''IDLE'', ''idle''), (''NAMED_PIPE'', ''pipe''), (''POLL'', ''poll''),
     (''PREPARE'', ''prepare''), (''PROCESS'', ''process''), (''STREAM'', ''stream''), (''TCP'', ''tcp''),
     (''TIMER'', ''timer''), (''TTY'', ''tty''), (''UDP'', ''udp''), (''SIGNAL'', ''signal'')]"

definition UV_REQ_TYPE_MAP :: "(string \<times> string) list" where
  "UV_REQ_TYPE_MAP =
     [(''REQ'', ''req''), (''CONNECT'', ''connect''), (''WRITE'', ''write''), (''SHUTDOWN'', ''shutdown''),
     (''UDP_SEND'', ''udp_send''), (''FS'', ''fs''), (''WORK'', ''work''), (''GETADDRINFO'', ''getaddrinfo''),
     (''GETNAMEINFO'', ''getnameinfo''), (''RANDOM'', ''random'')]"

text \<open>An enumeration that begins with 0, and the two whose members the maps give.\<close>

definition enum_values :: "string list \<Rightarrow> (string \<times> nat) list" where
  "enum_values ns = zip ns [0..<length ns]"

definition uv_handle_type :: "(string \<times> nat) list" where
  "uv_handle_type = enum_values ([''UV_UNKNOWN_HANDLE''] @ map (\<lambda>(uc, lc). ''UV_'' @ uc) UV_HANDLE_TYPE_MAP @ [''UV_FILE'', ''UV_HANDLE_TYPE_MAX''])"

definition uv_req_type :: "platform \<Rightarrow> (string \<times> nat) list" where
  "uv_req_type p = enum_values ([''UV_UNKNOWN_REQ''] @ map (\<lambda>(uc, lc). ''UV_'' @ uc) UV_REQ_TYPE_MAP @ UV_REQ_TYPE_PRIVATE p @ [''UV_REQ_TYPE_MAX''])"

text \<open>The unions of all handles and of all requests.\<close>

definition uv_any_handle :: "platform \<Rightarrow> fields" where
  "uv_any_handle p = map (\<lambda>(uc, lc). (lc, Struct (the (map_of (handle_structs p) lc)))) UV_HANDLE_TYPE_MAP"

definition uv_any_req :: "platform \<Rightarrow> fields" where
  "uv_any_req p = map (\<lambda>(uc, lc). (lc, Struct (the (map_of (req_structs p) lc)))) UV_REQ_TYPE_MAP"
text \<open>The structures of main.cpp that are allocated.\<close>

definition peer_state_fields :: "fields" where
  "peer_state_fields = [(''uvclient'', Pointer ''uv_tcp_t''), (''endpoint'', Pointer ''WebSocketEndpoint'')]"

definition peer_work_data_fields :: "platform \<Rightarrow> fields" where
  "peer_work_data_fields p =
     [(''uvclient'', Pointer ''uv_tcp_t''), (''endpoint'', Pointer ''WebSocketEndpoint''), (''request'', Struct (uv_buf_t_fields p)),
     (''response'', Struct (uv_buf_t_fields p)), (''type'', Scalar ''int'')]"

section \<open>Casts\<close>

text \<open>Read through the type with the fields \<open>base\<close>, a structure shows each of them at the place and with the type it has there.\<close>

definition begins_like :: "abi \<Rightarrow> fields \<Rightarrow> fields \<Rightarrow> bool" where
  "begins_like abi base fs = list_all (\<lambda>(n, t). field_at abi fs n = field_at abi base n \<and> field_at abi base n \<noteq> None) base"

lemma begins_like_refl [simp]: "begins_like abi base base"
  using field_at_append(2) by (fastforce simp: begins_like_def list_all_iff image_iff)

lemma begins_like_append [simp]: "begins_like abi base (base @ rest)"
proof -
  have "n \<in> fst ` set base" if "(n, t) \<in> set base" for n t using that by force
  then show ?thesis using field_at_append [of _ base] by (auto simp: begins_like_def list_all_iff)
qed

lemma begins_like_append2 [simp]: "begins_like abi (base @ more_fields) (base @ more_fields @ rest)"
  using begins_like_append [of abi "base @ more_fields" rest] by simp

lemma field_at_head: "field_at abi ((n, t) # fs) n = Some (t, 0)"
  using align_pos(1) [of abi t] by (simp add: field_at_def Let_def align_up_def)

lemma data_first [simp]:
  "field_at abi (UV_HANDLE_FIELDS hp @ rest) ''data'' = Some (Pointer ''void'', 0)"
  "field_at abi (UV_HANDLE_FIELDS hp) ''data'' = Some (Pointer ''void'', 0)"
  "field_at abi (UV_REQ_FIELDS rp @ rest) ''data'' = Some (Pointer ''void'', 0)"
  "field_at abi (UV_REQ_FIELDS rp) ''data'' = Some (Pointer ''void'', 0)"
  unfolding UV_HANDLE_FIELDS_def UV_REQ_FIELDS_def append_Cons by (rule field_at_head)+

lemmas handle_structures =
  uv_handle_s_def uv_async_s_def uv_check_s_def uv_fs_event_s_def uv_fs_poll_s_def uv_idle_s_def uv_pipe_s_def uv_poll_s_def
  uv_prepare_s_def uv_process_s_def uv_stream_s_def uv_tcp_s_def uv_timer_s_def uv_tty_s_def uv_udp_s_def uv_signal_s_def

lemmas req_structures =
  uv_req_s_def uv_connect_s_def uv_write_s_def uv_shutdown_s_def uv_udp_send_s_def uv_fs_s_def uv_work_s_def
  uv_getaddrinfo_s_def uv_getnameinfo_s_def uv_random_s_def

text \<open>Each name of the two maps stands for a structure that begins like the common one.\<close>

lemma handles_begin:
  "list_all (\<lambda>(uc, lc). case map_of (handle_structs p) lc of None \<Rightarrow> False
     | Some fs \<Rightarrow> begins_like abi (uv_handle_s p) fs \<and> field_at abi fs ''data'' = Some (Pointer ''void'', 0)) UV_HANDLE_TYPE_MAP"
  by (simp add: UV_HANDLE_TYPE_MAP_def handle_structs_def handle_structures)

lemma reqs_begin:
  "list_all (\<lambda>(uc, lc). case map_of (req_structs p) lc of None \<Rightarrow> False
     | Some fs \<Rightarrow> begins_like abi (uv_req_s p) fs \<and> field_at abi fs ''data'' = Some (Pointer ''void'', 0)) UV_REQ_TYPE_MAP"
  by (simp add: UV_REQ_TYPE_MAP_def req_structs_def req_structures)

text \<open>So do the requests that exist on Windows only.\<close>

lemma win_reqs_begin:
  "list_all (begins_like abi (uv_req_s windows_platform)) [win_pipe_accept, win_tcp_accept abi, win_read]"
  by (simp add: uv_req_s_def windows_platform_def win_pipe_accept_def win_tcp_accept_def win_read_def)

text \<open>The links of \<^verbatim>\<open>uv_signal_t\<close> are those of the red-black trees, which unix.h writes out.\<close>

lemma signal_tree_entry: "map_of unix_signal_private ''tree_entry'' = map_of win_signal_private ''tree_entry''"
  by (simp add: unix_signal_private_def win_signal_private_def rb_entry_def)

lemma any_room:
  assumes "(uc, lc) \<in> set ms" and "map_of structs lc = Some fs"
  shows "size_of abi (Struct fs) \<le> size_of abi (Union (map (\<lambda>(uc, lc). (lc, Struct (the (map_of structs lc)))) ms))"
  using assms by (intro union_room [of lc]) force

lemma list_all_option_case:
  assumes "list_all (\<lambda>(u, l). case m l of None \<Rightarrow> False | Some y \<Rightarrow> P y) xs"
    and "\<And>u l y. (u, l) \<in> set xs \<Longrightarrow> m l = Some y \<Longrightarrow> Q y"
  shows "list_all (\<lambda>(u, l). case m l of None \<Rightarrow> False | Some y \<Rightarrow> P y \<and> Q y) xs"
  using assms by (fastforce simp: list_all_iff split: option.splits)

definition castable :: "abi \<Rightarrow> fields \<Rightarrow> fields \<Rightarrow> fields \<Rightarrow> bool" where
  "castable abi base any fs \<longleftrightarrow> (begins_like abi base fs \<and> field_at abi fs ''data'' = Some (Pointer ''void'', 0)) \<and>
     size_of abi (Struct fs) \<le> size_of abi (Union any)"

text \<open>C40: whatever the sizes and alignments of the machine and whatever fields a platform adds (uv_platform gives those of a
  compiler's macros), the casts of libuv and of the
  program keep every field in its place: each type of the handle map has a structure, which shows the fields of
  \<^verbatim>\<open>uv_handle_t\<close> where that type has them, with \<^verbatim>\<open>data\<close> at its very beginning, and fits into
  \<^verbatim>\<open>union uv_any_handle\<close>; the same holds for the request types, \<^verbatim>\<open>uv_req_t\<close> and \<^verbatim>\<open>union uv_any_req\<close>; and
  \<^verbatim>\<open>uv_tcp_t\<close>, \<^verbatim>\<open>uv_pipe_t\<close> and \<^verbatim>\<open>uv_tty_t\<close> show those of \<^verbatim>\<open>uv_stream_t\<close>.\<close>
theorem handle_casts_sound:
  "list_all (\<lambda>(uc, lc). case map_of (handle_structs p) lc of None \<Rightarrow> False
       | Some fs \<Rightarrow> castable abi (uv_handle_s p) (uv_any_handle p) fs) UV_HANDLE_TYPE_MAP \<and>
   list_all (\<lambda>(uc, lc). case map_of (req_structs p) lc of None \<Rightarrow> False
       | Some fs \<Rightarrow> castable abi (uv_req_s p) (uv_any_req p) fs) UV_REQ_TYPE_MAP \<and>
   list_all (begins_like abi (uv_stream_s p)) [uv_tcp_s p, uv_pipe_s p, uv_tty_s p]"
  unfolding castable_def uv_any_handle_def uv_any_req_def
  by (intro conjI list_all_option_case [OF handles_begin] list_all_option_case [OF reqs_begin] any_room)
    (simp_all add: uv_stream_s_def uv_tcp_s_def uv_pipe_s_def uv_tty_s_def)

section \<open>Sizes\<close>

text \<open>64-bit Linux on x86: size and alignment of each scalar that the structures have there.\<close>

definition lp64_table :: "(string \<times> nat \<times> nat) list" where
  "lp64_table =
     [(''*'', 8, 8), (''char'', 1, 1), (''int'', 4, 4), (''unsigned int'', 4, 4), (''long'', 8, 8), (''unsigned long'', 8, 8),
     (''size_t'', 8, 8), (''ssize_t'', 8, 8), (''off_t'', 8, 8), (''uint64_t'', 8, 8), (''double'', 8, 8),
     (''mode_t'', 4, 4), (''uv_file'', 4, 4), (''uv_uid_t'', 4, 4), (''uv_gid_t'', 4, 4),
     (''uv_req_type'', 4, 4), (''uv_handle_type'', 4, 4), (''uv_fs_type'', 4, 4), (''struct sockaddr_storage'', 128, 8),
     (''struct termios'', 60, 4), (''uv_mutex_t'', 40, 8), (''uv_rwlock_t'', 56, 8)]"

definition lp64 :: abi where
  "lp64 s = (case map_of lp64_table s of Some k \<Rightarrow> k | None \<Rightarrow> (0, 1))"

lemma lp64_scalars [simp]:
  "lp64 ''*'' = (8, 8)"
  "lp64 ''char'' = (1, 1)"
  "lp64 ''int'' = (4, 4)"
  "lp64 ''unsigned int'' = (4, 4)"
  "lp64 ''long'' = (8, 8)"
  "lp64 ''unsigned long'' = (8, 8)"
  "lp64 ''size_t'' = (8, 8)"
  "lp64 ''ssize_t'' = (8, 8)"
  "lp64 ''off_t'' = (8, 8)"
  "lp64 ''uint64_t'' = (8, 8)"
  "lp64 ''double'' = (8, 8)"
  "lp64 ''mode_t'' = (4, 4)"
  "lp64 ''uv_file'' = (4, 4)"
  "lp64 ''uv_uid_t'' = (4, 4)"
  "lp64 ''uv_gid_t'' = (4, 4)"
  "lp64 ''uv_req_type'' = (4, 4)"
  "lp64 ''uv_handle_type'' = (4, 4)"
  "lp64 ''uv_fs_type'' = (4, 4)"
  "lp64 ''struct sockaddr_storage'' = (128, 8)"
  "lp64 ''struct termios'' = (60, 4)"
  "lp64 ''uv_mutex_t'' = (40, 8)"
  "lp64 ''uv_rwlock_t'' = (56, 8)"
  by (simp_all add: lp64_def lp64_table_def)

lemma linux_platform_unix: "linux_platform = unix_platform linux_headers"
  by (simp add: linux_platform_def uv_platform_def unix_includes_def is_defined_def)

lemmas unix_fields =
  UV_HANDLE_FIELDS_def UV_REQ_FIELDS_def UV_STREAM_FIELDS_def linux_platform_unix unix_platform_def linux_headers_def
  unix_buf_def uv__io_s_def uv__work_def unix_req_private_def
  unix_write_private_def unix_connect_private_def unix_shutdown_private_def unix_udp_send_private_def unix_handle_private_def
  unix_stream_private_def unix_tcp_private_def unix_udp_private_def unix_pipe_private_def unix_poll_private_def
  unix_prepare_private_def unix_check_private_def unix_idle_private_def unix_async_private_def unix_timer_private_def
  unix_getaddrinfo_private_def unix_getnameinfo_private_def unix_process_private_def unix_fs_private_def unix_work_private_def
  unix_tty_private_def unix_signal_private_def unix_fs_event_private_def unix_loop_private_def uv_stat_t_def uv_timespec_t_def
  NI_MAXHOST_def NI_MAXSERV_def

text \<open>The sizes that the compiler gives to the types of this platform, in bytes.\<close>

lemma handle_sizes:
  "map (\<lambda>(n, fs). (n, size_of lp64 (Struct fs))) (handle_structs linux_platform) =
     [(''async'', 128), (''check'', 120), (''fs_event'', 136), (''fs_poll'', 104), (''handle'', 96), (''idle'', 120),
      (''pipe'', 264), (''poll'', 160), (''prepare'', 120), (''process'', 136), (''stream'', 248), (''tcp'', 248),
      (''timer'', 152), (''tty'', 312), (''udp'', 216), (''signal'', 152)]"
  by (simp add: handle_structs_def handle_structures unix_fields align_up_def)

lemma req_sizes:
  "map (\<lambda>(n, fs). (n, size_of lp64 (Struct fs))) (req_structs linux_platform) =
     [(''req'', 64), (''connect'', 96), (''write'', 192), (''shutdown'', 80), (''udp_send'', 320), (''fs'', 440), (''work'', 128),
      (''getaddrinfo'', 160), (''getnameinfo'', 1320), (''random'', 144)]"
  by (simp add: req_structs_def req_structures unix_fields align_up_def)

lemma loop_size: "size_of lp64 (Struct (uv_loop_s linux_platform)) = 848"
  by (simp add: uv_loop_s_def uv_async_s_def uv_signal_s_def unix_fields align_up_def)

lemma main_sizes:
  "size_of lp64 (Struct peer_state_fields) = 16"
  "size_of lp64 (Struct (peer_work_data_fields linux_platform)) = 56"
  by (simp_all add: peer_state_fields_def peer_work_data_fields_def unix_fields align_up_def)

text \<open>unix.h: a buffer may be cast to \<^verbatim>\<open>struct iovec\<close>; win.h: to \<^verbatim>\<open>WSABUF\<close>.\<close>

lemma buf_is_iovec:
  "map (\<lambda>(n, t, k). (size_of abi t, k)) (layout abi 0 unix_buf) =
     map (\<lambda>(n, t, k). (size_of abi t, k)) (layout abi 0 [(''iov_base'', Pointer ''void''), (''iov_len'', Scalar ''size_t'')])"
  by (simp add: unix_buf_def Let_def)

lemma buf_is_wsabuf:
  "map snd (layout abi 0 win_buf) = map snd (layout abi 0 [(''len'', Scalar ''ULONG''), (''buf'', Pointer ''char'')])"
  by (simp add: win_buf_def Let_def)

text \<open>The numbers of the types, no name twice, and as many as the last one says.\<close>

lemma handle_type_numbers:
  "distinct (map fst uv_handle_type)" "map_of uv_handle_type ''UV_TCP'' = Some 12"
  "map_of uv_handle_type ''UV_HANDLE_TYPE_MAX'' = Some (length UV_HANDLE_TYPE_MAP + 2)"
  by (simp_all add: uv_handle_type_def enum_values_def UV_HANDLE_TYPE_MAP_def upt_conv_Cons)

lemma req_type_numbers:
  "distinct (map fst (uv_req_type linux_platform))" "distinct (map fst (uv_req_type windows_platform))"
  "map (map_of (uv_req_type linux_platform)) [''UV_WRITE'', ''UV_WORK''] = [Some 3, Some 7]"
  "map (map_of (uv_req_type windows_platform)) [''UV_WRITE'', ''UV_WORK''] = [Some 3, Some 7]"
  "map_of (uv_req_type linux_platform) ''UV_REQ_TYPE_MAX'' = Some (length UV_REQ_TYPE_MAP + 1)"
  by (simp_all add: uv_req_type_def enum_values_def UV_REQ_TYPE_MAP_def linux_platform_unix unix_platform_def windows_platform_def win_req_types_def
      upt_conv_Cons)

end
