(* ===== verification/Tree_Heap.thy ===== *)
theory Tree_Heap
  imports Ws_Prelude "HOL-Library.Tree"
begin

text \<open>
  What the two kinds of trees of src/include/uv/tree.h share: elements are addresses, the links of
  an element are read through functions on addresses, and a tree in memory is described by a
  binary tree of addresses. \<open>cmp\<close> is the comparison the macros are given; \<open>orders\<close> says that it
  compares the keys of the elements.
\<close>

type_synonym elem = nat

type_synonym links = "elem \<Rightarrow> elem option"

definition orders :: "(elem \<Rightarrow> elem \<Rightarrow> int) \<Rightarrow> (elem \<Rightarrow> int) \<Rightarrow> bool" where
  "orders cmp key \<longleftrightarrow> (\<forall>a b. (cmp a b < 0 \<longleftrightarrow> key a < key b) \<and> (cmp a b > 0 \<longleftrightarrow> key b < key a))"

lemma orders_cmp:
  assumes "orders cmp key"
  shows "cmp a b < 0 \<longleftrightarrow> key a < key b" and "cmp a b > 0 \<longleftrightarrow> key b < key a" and "cmp a b = 0 \<longleftrightarrow> key a = key b"
proof -
  show less: "cmp a b < 0 \<longleftrightarrow> key a < key b" and greater: "cmp a b > 0 \<longleftrightarrow> key b < key a"
    using assms by (simp_all add: orders_def)
  have "cmp a b = 0 \<longleftrightarrow> \<not> cmp a b < 0 \<and> \<not> cmp a b > 0" by linarith
  then show "cmp a b = 0 \<longleftrightarrow> key a = key b" by (auto simp: less greater)
qed

text \<open>The tree at a pointer.\<close>

fun tree_at :: "links \<Rightarrow> links \<Rightarrow> elem option \<Rightarrow> elem tree \<Rightarrow> bool" where
  "tree_at lf rt p Leaf \<longleftrightarrow> p = None"
| "tree_at lf rt p (Node l a r) \<longleftrightarrow> p = Some a \<and> tree_at lf rt (lf a) l \<and> tree_at lf rt (rt a) r"

lemma tree_at_None [simp]: "tree_at lf rt None t \<longleftrightarrow> t = Leaf"
  by (cases t) auto

lemma tree_at_Some: "tree_at lf rt (Some a) t \<longleftrightarrow> (\<exists>l r. t = Node l a r \<and> tree_at lf rt (lf a) l \<and> tree_at lf rt (rt a) r)"
  by (cases t) auto

text \<open>Writing to a link of an element outside a tree does not change the tree.\<close>

lemma tree_at_cong:
  "tree_at lf rt p t \<Longrightarrow> (\<And>a. a \<in> set_tree t \<Longrightarrow> lf' a = lf a \<and> rt' a = rt a) \<Longrightarrow> tree_at lf' rt' p t"
  by (induction t arbitrary: p) auto

lemma tree_at_upd [simp]:
  "a \<notin> set_tree t \<Longrightarrow> tree_at (lf(a := x)) rt p t \<longleftrightarrow> tree_at lf rt p t"
  "a \<notin> set_tree t \<Longrightarrow> tree_at lf (rt(a := x)) p t \<longleftrightarrow> tree_at lf rt p t"
  by (induction t arbitrary: p) auto

text \<open>The elements of a tree differ, and are in the order of their keys.\<close>

definition search_tree :: "(elem \<Rightarrow> int) \<Rightarrow> elem tree \<Rightarrow> bool" where
  "search_tree key t \<longleftrightarrow> sorted_wrt (\<lambda>a b. key a < key b) (inorder t)"

lemma search_tree_simps [simp]:
  "search_tree key Leaf"
  "search_tree key (Node l a r) \<longleftrightarrow> search_tree key l \<and> search_tree key r \<and>
     (\<forall>x \<in> set_tree l. key x < key a) \<and> (\<forall>x \<in> set_tree r. key a < key x)"
  by (auto simp: search_tree_def sorted_wrt_append intro: less_trans)

lemma sorted_keys_distinct: "sorted_wrt (\<lambda>a b. key a < (key b :: int)) xs \<Longrightarrow> distinct xs"
  by (induction xs) auto

lemma search_tree_distinct: "search_tree key t \<Longrightarrow> distinct (inorder t)"
  unfolding search_tree_def by (rule sorted_keys_distinct)

text \<open>The loop that follows one link until it is null, from a given element.\<close>

partial_function (option) last_link :: "links \<Rightarrow> elem \<Rightarrow> elem option" where
  "last_link link elm = (case link elm of None \<Rightarrow> Some elm | Some e \<Rightarrow> last_link link e)"

declare last_link.simps [simp del]

lemma last_link_left: "tree_at lf rt (Some e) t \<Longrightarrow> last_link lf e = Some (hd (inorder t))"
proof (induction t arbitrary: e)
  case (Node l a r)
  show ?case
  proof (cases l)
    case Leaf
    with Node.prems show ?thesis by (subst last_link.simps) auto
  next
    case (Node l1 b l2)
    with Node.prems have "tree_at lf rt (Some b) l" "lf e = Some b" by auto
    with Node.IH(1) [of b] Node show ?thesis by (subst last_link.simps) (simp add: hd_append)
  qed
qed simp

lemma distinct_rest:
  assumes "distinct (xs @ e # ys)" and eq: "xs @ e # ys = us @ e # vs"
  shows "ys = vs"
proof -
  have drop: "e \<notin> set zs \<Longrightarrow> dropWhile (\<lambda>x. x \<noteq> e) (zs @ e # ws) = e # ws" for zs ws
    by (induction zs) auto
  have "distinct (us @ e # vs)" using assms by simp
  with assms(1) have "e \<notin> set xs" "e \<notin> set us" by auto
  with drop [of xs ys] drop [of us vs] eq show ?thesis by simp
qed

text \<open>The element behind another one in a list.\<close>

definition first_of :: "elem list \<Rightarrow> elem option" where
  "first_of ys = (case ys of [] \<Rightarrow> None | y # _ \<Rightarrow> Some y)"

lemma search_tree_unique:
  assumes "search_tree key t" and "x \<in> set_tree t" and "y \<in> set_tree t" and "key x = key y"
  shows "x = y"
  using assms by (induction t) fastforce+

text \<open>A comparison and a tree for the samples.\<close>

definition sample_cmp :: "elem \<Rightarrow> elem \<Rightarrow> int" where
  "sample_cmp a b = int a - int b"

definition sample_tree :: "elem tree" where
  "sample_tree = Node (Node Leaf 2 Leaf) 4 (Node Leaf 6 Leaf)"

end
