(* ===== verification/Uv_Splay_Tree.thy ===== *)
theory Uv_Splay_Tree
  imports Tree_Heap
begin

text \<open>
  The splay trees of src/include/uv/tree.h, which the program includes with libuv. The macros
  generate functions for a type of element and a comparison \<open>cmp\<close>; here the elements are addresses
  and \<open>cmp\<close> is an argument. The local \<^verbatim>\<open>__node\<close> of \<^verbatim>\<open>SPLAY\<close> has an address as well, the argument
  \<open>node\<close>. Following the null pointer is a fault, and a loop that does not end has the value
  \<open>None\<close>.
\<close>

section \<open>Heads and links\<close>

record splay_heap =
  sph_root :: "elem option"
  spe_left :: links
  spe_right :: links

definition SPLAY_INIT :: "splay_heap \<Rightarrow> splay_heap" where
  "SPLAY_INIT h = h\<lparr>sph_root := None\<rparr>"

definition SPLAY_EMPTY :: "splay_heap \<Rightarrow> bool" where
  "SPLAY_EMPTY h \<longleftrightarrow> sph_root h = None"

definition root_of :: "splay_heap \<Rightarrow> fault + elem" where
  "root_of h = (case sph_root h of None \<Rightarrow> Inl Null_deref | Some r \<Rightarrow> Inr r)"

definition SPLAY_ROTATE_RIGHT :: "elem \<Rightarrow> splay_heap \<Rightarrow> fault + splay_heap" where
  "SPLAY_ROTATE_RIGHT tmp h =
     bindE (root_of h) (\<lambda>r.
     let h = h\<lparr>spe_left := (spe_left h)(r := spe_right h tmp)\<rparr>;
         h = h\<lparr>spe_right := (spe_right h)(tmp := sph_root h)\<rparr>
     in Inr (h\<lparr>sph_root := Some tmp\<rparr>))"

definition SPLAY_ROTATE_LEFT :: "elem \<Rightarrow> splay_heap \<Rightarrow> fault + splay_heap" where
  "SPLAY_ROTATE_LEFT tmp h =
     bindE (root_of h) (\<lambda>r.
     let h = h\<lparr>spe_right := (spe_right h)(r := spe_left h tmp)\<rparr>;
         h = h\<lparr>spe_left := (spe_left h)(tmp := sph_root h)\<rparr>
     in Inr (h\<lparr>sph_root := Some tmp\<rparr>))"

text \<open>The link macros also assign the root to the variable they are given.\<close>

definition SPLAY_LINKLEFT :: "elem \<Rightarrow> splay_heap \<Rightarrow> fault + (splay_heap \<times> elem)" where
  "SPLAY_LINKLEFT tmp h =
     bindE (root_of h) (\<lambda>r.
     let h = h\<lparr>spe_left := (spe_left h)(tmp := Some r)\<rparr>
     in Inr (h\<lparr>sph_root := spe_left h r\<rparr>, r))"

definition SPLAY_LINKRIGHT :: "elem \<Rightarrow> splay_heap \<Rightarrow> fault + (splay_heap \<times> elem)" where
  "SPLAY_LINKRIGHT tmp h =
     bindE (root_of h) (\<lambda>r.
     let h = h\<lparr>spe_right := (spe_right h)(tmp := Some r)\<rparr>
     in Inr (h\<lparr>sph_root := spe_right h r\<rparr>, r))"

definition SPLAY_ASSEMBLE :: "elem \<Rightarrow> elem \<Rightarrow> elem \<Rightarrow> splay_heap \<Rightarrow> fault + splay_heap" where
  "SPLAY_ASSEMBLE node lp rp h =
     bindE (root_of h) (\<lambda>r.
     let h = h\<lparr>spe_right := (spe_right h)(lp := spe_left h r)\<rparr>;
         h = h\<lparr>spe_left := (spe_left h)(rp := spe_right h r)\<rparr>;
         h = h\<lparr>spe_left := (spe_left h)(r := spe_right h node)\<rparr>
     in Inr (h\<lparr>spe_right := (spe_right h)(r := spe_left h node)\<rparr>))"

section \<open>Splaying\<close>

text \<open>
  One round of the loop of \<^verbatim>\<open>SPLAY\<close>, from the head, \<^verbatim>\<open>__left\<close> and \<^verbatim>\<open>__right\<close>: whether the loop
  ends, and their new values.
\<close>

type_synonym splay_round = "bool \<times> splay_heap \<times> elem \<times> elem"

definition SPLAY_round ::
  "(elem \<Rightarrow> elem \<Rightarrow> int) \<Rightarrow> elem \<Rightarrow> splay_heap \<Rightarrow> elem \<Rightarrow> elem \<Rightarrow> fault + splay_round" where
  "SPLAY_round cmp elm h lp rp =
     bindE (root_of h) (\<lambda>r.
     let way = cmp elm r in
     if way = 0 then Inr (True, h, lp, rp)
     else if way < 0 then
       (case spe_left h r of
          None \<Rightarrow> Inr (True, h, lp, rp)
        | Some tmp \<Rightarrow>
            if cmp elm tmp < 0 then
              bindE (SPLAY_ROTATE_RIGHT tmp h) (\<lambda>h.
              bindE (root_of h) (\<lambda>r.
              if spe_left h r = None then Inr (True, h, lp, rp)
              else bindE (SPLAY_LINKLEFT rp h) (\<lambda>(h, rp). Inr (False, h, lp, rp))))
            else bindE (SPLAY_LINKLEFT rp h) (\<lambda>(h, rp). Inr (False, h, lp, rp)))
     else
       (case spe_right h r of
          None \<Rightarrow> Inr (True, h, lp, rp)
        | Some tmp \<Rightarrow>
            if cmp elm tmp > 0 then
              bindE (SPLAY_ROTATE_LEFT tmp h) (\<lambda>h.
              bindE (root_of h) (\<lambda>r.
              if spe_right h r = None then Inr (True, h, lp, rp)
              else bindE (SPLAY_LINKRIGHT lp h) (\<lambda>(h, lp). Inr (False, h, lp, rp))))
            else bindE (SPLAY_LINKRIGHT lp h) (\<lambda>(h, lp). Inr (False, h, lp, rp))))"

partial_function (option) splay_loop ::
  "(splay_heap \<Rightarrow> elem \<Rightarrow> elem \<Rightarrow> fault + splay_round) \<Rightarrow> splay_heap \<Rightarrow> elem \<Rightarrow> elem \<Rightarrow>
   (fault + (splay_heap \<times> elem \<times> elem)) option" where
  "splay_loop rnd h lp rp =
     (case rnd h lp rp of
        Inl e \<Rightarrow> Some (Inl e)
      | Inr (fin, h, lp, rp) \<Rightarrow> (if fin then Some (Inr (h, lp, rp)) else splay_loop rnd h lp rp))"

declare splay_loop.simps [simp del]

definition splay_with ::
  "(splay_heap \<Rightarrow> elem \<Rightarrow> elem \<Rightarrow> fault + splay_round) \<Rightarrow> elem \<Rightarrow> splay_heap \<Rightarrow> fault + splay_heap" where
  "splay_with rnd node h =
     (let h = h\<lparr>spe_left := (spe_left h)(node := None), spe_right := (spe_right h)(node := None)\<rparr> in
      case splay_loop rnd h node node of
        None \<Rightarrow> Inl Diverges
      | Some r \<Rightarrow> bindE r (\<lambda>(h, lp, rp). SPLAY_ASSEMBLE node lp rp h))"

definition SPLAY :: "(elem \<Rightarrow> elem \<Rightarrow> int) \<Rightarrow> elem \<Rightarrow> elem \<Rightarrow> splay_heap \<Rightarrow> fault + splay_heap" where
  "SPLAY cmp node elm h = splay_with (SPLAY_round cmp elm) node h"

text \<open>The loop of \<^verbatim>\<open>SPLAY_MINMAX\<close> has no condition: with \<open>way = 0\<close> nothing ends it.\<close>

definition SPLAY_MINMAX_round :: "int \<Rightarrow> splay_heap \<Rightarrow> elem \<Rightarrow> elem \<Rightarrow> fault + splay_round" where
  "SPLAY_MINMAX_round way h lp rp =
     (if way < 0 then
        bindE (root_of h) (\<lambda>r.
        case spe_left h r of
          None \<Rightarrow> Inr (True, h, lp, rp)
        | Some tmp \<Rightarrow>
            bindE (SPLAY_ROTATE_RIGHT tmp h) (\<lambda>h.
            bindE (root_of h) (\<lambda>r.
            if spe_left h r = None then Inr (True, h, lp, rp)
            else bindE (SPLAY_LINKLEFT rp h) (\<lambda>(h, rp). Inr (False, h, lp, rp)))))
      else if way > 0 then
        bindE (root_of h) (\<lambda>r.
        case spe_right h r of
          None \<Rightarrow> Inr (True, h, lp, rp)
        | Some tmp \<Rightarrow>
            bindE (SPLAY_ROTATE_LEFT tmp h) (\<lambda>h.
            bindE (root_of h) (\<lambda>r.
            if spe_right h r = None then Inr (True, h, lp, rp)
            else bindE (SPLAY_LINKRIGHT lp h) (\<lambda>(h, lp). Inr (False, h, lp, rp)))))
      else Inr (False, h, lp, rp))"

definition SPLAY_MINMAX :: "elem \<Rightarrow> int \<Rightarrow> splay_heap \<Rightarrow> fault + splay_heap" where
  "SPLAY_MINMAX node way h = splay_with (SPLAY_MINMAX_round way) node h"

section \<open>Operations\<close>

definition SPLAY_FIND :: "(elem \<Rightarrow> elem \<Rightarrow> int) \<Rightarrow> elem \<Rightarrow> elem \<Rightarrow> splay_heap \<Rightarrow> fault + (elem option \<times> splay_heap)" where
  "SPLAY_FIND cmp node elm h =
     (if SPLAY_EMPTY h then Inr (None, h)
      else
        bindE (SPLAY cmp node elm h) (\<lambda>h.
        bindE (root_of h) (\<lambda>r.
        if cmp elm r = 0 then Inr (sph_root h, h) else Inr (None, h))))"

definition SPLAY_NEXT :: "(elem \<Rightarrow> elem \<Rightarrow> int) \<Rightarrow> elem \<Rightarrow> elem \<Rightarrow> splay_heap \<Rightarrow> fault + (elem option \<times> splay_heap)" where
  "SPLAY_NEXT cmp node elm h =
     bindE (SPLAY cmp node elm h) (\<lambda>h.
     case spe_right h elm of
       None \<Rightarrow> Inr (None, h)
     | Some e \<Rightarrow>
         (case last_link (spe_left h) e of None \<Rightarrow> Inl Diverges | Some e \<Rightarrow> Inr (Some e, h)))"

definition SPLAY_MIN_MAX :: "elem \<Rightarrow> int \<Rightarrow> splay_heap \<Rightarrow> fault + (elem option \<times> splay_heap)" where
  "SPLAY_MIN_MAX node val h = bindE (SPLAY_MINMAX node val h) (\<lambda>h. Inr (sph_root h, h))"

definition SPLAY_NEGINF :: int where "SPLAY_NEGINF = -1"

definition SPLAY_INF :: int where "SPLAY_INF = 1"

definition SPLAY_MIN :: "elem \<Rightarrow> splay_heap \<Rightarrow> fault + (elem option \<times> splay_heap)" where
  "SPLAY_MIN node h = (if SPLAY_EMPTY h then Inr (None, h) else SPLAY_MIN_MAX node SPLAY_NEGINF h)"

definition SPLAY_MAX :: "elem \<Rightarrow> splay_heap \<Rightarrow> fault + (elem option \<times> splay_heap)" where
  "SPLAY_MAX node h = (if SPLAY_EMPTY h then Inr (None, h) else SPLAY_MIN_MAX node SPLAY_INF h)"

definition SPLAY_INSERT :: "(elem \<Rightarrow> elem \<Rightarrow> int) \<Rightarrow> elem \<Rightarrow> elem \<Rightarrow> splay_heap \<Rightarrow> fault + (elem option \<times> splay_heap)" where
  "SPLAY_INSERT cmp node elm h =
     (if SPLAY_EMPTY h then
        let h = h\<lparr>spe_left := (spe_left h)(elm := None), spe_right := (spe_right h)(elm := None)\<rparr>
        in Inr (None, h\<lparr>sph_root := Some elm\<rparr>)
      else
        bindE (SPLAY cmp node elm h) (\<lambda>h.
        bindE (root_of h) (\<lambda>r.
        let way = cmp elm r in
        if way < 0 then
          let h = h\<lparr>spe_left := (spe_left h)(elm := spe_left h r)\<rparr>;
              h = h\<lparr>spe_right := (spe_right h)(elm := sph_root h)\<rparr>;
              h = h\<lparr>spe_left := (spe_left h)(r := None)\<rparr>
          in Inr (None, h\<lparr>sph_root := Some elm\<rparr>)
        else if way > 0 then
          let h = h\<lparr>spe_right := (spe_right h)(elm := spe_right h r)\<rparr>;
              h = h\<lparr>spe_left := (spe_left h)(elm := sph_root h)\<rparr>;
              h = h\<lparr>spe_right := (spe_right h)(r := None)\<rparr>
          in Inr (None, h\<lparr>sph_root := Some elm\<rparr>)
        else Inr (sph_root h, h))))"

definition SPLAY_REMOVE :: "(elem \<Rightarrow> elem \<Rightarrow> int) \<Rightarrow> elem \<Rightarrow> elem \<Rightarrow> splay_heap \<Rightarrow> fault + (elem option \<times> splay_heap)" where
  "SPLAY_REMOVE cmp node elm h =
     (if SPLAY_EMPTY h then Inr (None, h)
      else
        bindE (SPLAY cmp node elm h) (\<lambda>h.
        bindE (root_of h) (\<lambda>r.
        if cmp elm r = 0 then
          (if spe_left h r = None then Inr (Some elm, h\<lparr>sph_root := spe_right h r\<rparr>)
           else
             let tmp = spe_right h r;
                 h = h\<lparr>sph_root := spe_left h r\<rparr>
             in bindE (SPLAY cmp node elm h) (\<lambda>h.
                bindE (root_of h) (\<lambda>r.
                Inr (Some elm, h\<lparr>spe_right := (spe_right h)(r := tmp)\<rparr>))))
        else Inr (None, h))))"

text \<open>
  \<^verbatim>\<open>SPLAY_FOREACH\<close> with a body that only notes the element.
\<close>

partial_function (option) foreach_loop ::
  "(elem \<Rightarrow> elem \<Rightarrow> int) \<Rightarrow> elem \<Rightarrow> elem list \<Rightarrow> elem option \<Rightarrow> splay_heap \<Rightarrow> (fault + (elem list \<times> splay_heap)) option" where
  "foreach_loop cmp node seen x h =
     (case x of
        None \<Rightarrow> Some (Inr (seen, h))
      | Some e \<Rightarrow>
          (case SPLAY_NEXT cmp node e h of
             Inl err \<Rightarrow> Some (Inl err)
           | Inr (x, h) \<Rightarrow> foreach_loop cmp node (seen @ [e]) x h))"

declare foreach_loop.simps [simp del]

definition SPLAY_FOREACH :: "(elem \<Rightarrow> elem \<Rightarrow> int) \<Rightarrow> elem \<Rightarrow> splay_heap \<Rightarrow> fault + (elem list \<times> splay_heap)" where
  "SPLAY_FOREACH cmp node h =
     bindE (SPLAY_MIN node h) (\<lambda>(x, h).
     case foreach_loop cmp node [] x h of None \<Rightarrow> Inl Diverges | Some r \<Rightarrow> r)"

section \<open>Trees under construction\<close>

text \<open>
  During a splay the smaller elements hang on a chain of right links that starts in the local
  node and ends in \<^verbatim>\<open>__left\<close>, the greater ones on a chain of left links that ends in
  \<^verbatim>\<open>__right\<close>. A chain is a list of elements, each with its other subtree.
\<close>

fun lchain :: "links \<Rightarrow> links \<Rightarrow> elem \<Rightarrow> (elem \<times> elem tree) list \<Rightarrow> elem \<Rightarrow> bool" where
  "lchain lf rt x [] y \<longleftrightarrow> x = y"
| "lchain lf rt x ((a, t) # cs) y \<longleftrightarrow> rt x = Some a \<and> tree_at lf rt (lf a) t \<and> lchain lf rt a cs y"

fun rchain :: "links \<Rightarrow> links \<Rightarrow> elem \<Rightarrow> (elem \<times> elem tree) list \<Rightarrow> elem \<Rightarrow> bool" where
  "rchain lf rt x [] y \<longleftrightarrow> x = y"
| "rchain lf rt x ((a, t) # cs) y \<longleftrightarrow> lf x = Some a \<and> tree_at lf rt (rt a) t \<and> rchain lf rt a cs y"

fun lin :: "(elem \<times> elem tree) list \<Rightarrow> elem list" where
  "lin [] = []"
| "lin ((a, t) # cs) = inorder t @ a # lin cs"

fun rin :: "(elem \<times> elem tree) list \<Rightarrow> elem list" where
  "rin [] = []"
| "rin ((a, t) # cs) = rin cs @ a # inorder t"

fun lplug :: "(elem \<times> elem tree) list \<Rightarrow> elem tree \<Rightarrow> elem tree" where
  "lplug [] t = t"
| "lplug ((a, l) # cs) t = Node l a (lplug cs t)"

fun rplug :: "(elem \<times> elem tree) list \<Rightarrow> elem tree \<Rightarrow> elem tree" where
  "rplug [] t = t"
| "rplug ((a, r) # cs) t = Node (rplug cs t) a r"

lemma inorder_plug [simp]:
  "inorder (lplug cs t) = lin cs @ inorder t" "inorder (rplug cs t) = inorder t @ rin cs"
  by (induction cs) auto

lemma lin_snoc [simp]: "lin (cs @ [(a, t)]) = lin cs @ inorder t @ [a]"
  by (induction cs rule: lin.induct) auto

lemma rin_snoc [simp]: "rin (cs @ [(a, t)]) = a # inorder t @ rin cs"
  by (induction cs rule: rin.induct) auto

lemma lchain_upd [simp]:
  "z \<notin> set (lin cs) \<Longrightarrow> lchain (lf(z := p)) rt x cs y \<longleftrightarrow> lchain lf rt x cs y"
  "z \<notin> set (lin cs) \<Longrightarrow> z \<noteq> x \<Longrightarrow> lchain lf (rt(z := p)) x cs y \<longleftrightarrow> lchain lf rt x cs y"
  by (induction cs arbitrary: x rule: lin.induct) auto

lemma rchain_upd [simp]:
  "z \<notin> set (rin cs) \<Longrightarrow> rchain lf (rt(z := p)) x cs y \<longleftrightarrow> rchain lf rt x cs y"
  "z \<notin> set (rin cs) \<Longrightarrow> z \<noteq> x \<Longrightarrow> rchain (lf(z := p)) rt x cs y \<longleftrightarrow> rchain lf rt x cs y"
  by (induction cs arbitrary: x rule: rin.induct) auto

lemma lchain_end: "lchain lf rt x cs y \<Longrightarrow> y = x \<or> y \<in> set (lin cs)"
  by (induction cs arbitrary: x rule: lin.induct) auto

lemma rchain_end: "rchain lf rt x cs y \<Longrightarrow> y = x \<or> y \<in> set (rin cs)"
  by (induction cs arbitrary: x rule: rin.induct) auto

text \<open>A chain is made longer, and closed, by writing to its last link.\<close>

lemma lchain_snoc:
  assumes upd: "rt' = rt(y := Some a)"
  shows "lchain lf rt x cs y \<Longrightarrow> distinct (x # lin cs @ inorder t @ [a]) \<Longrightarrow> tree_at lf rt (lf a) t \<Longrightarrow>
    lchain lf rt' x (cs @ [(a, t)]) a"
proof (induction cs arbitrary: x rule: lin.induct)
  case 1
  then have "rt' x = Some a" "tree_at lf rt' (lf a) t" by (simp_all add: upd)
  then show ?case by simp
next
  case (2 b u cs)
  have y: "y = b \<or> y \<in> set (lin cs)" using 2(2) by (auto dest: lchain_end)
  have "lchain lf rt' b (cs @ [(a, t)]) a"
    using 2(2,3,4) by (intro 2(1)) auto
  moreover have "y \<notin> set_tree u" "y \<noteq> x" using y 2(3) by auto
  then have "rt' x = rt x" "tree_at lf rt' p u = tree_at lf rt p u" for p
    unfolding upd by simp_all
  ultimately show ?case using 2(2) by simp
qed

lemma lchain_close:
  assumes upd: "rt' = rt(y := p)"
  shows "lchain lf rt x cs y \<Longrightarrow> distinct (x # lin cs @ inorder t) \<Longrightarrow> tree_at lf rt p t \<Longrightarrow>
    tree_at lf rt' (rt' x) (lplug cs t)"
proof (induction cs arbitrary: x rule: lin.induct)
  case 1
  then have "rt' x = p" "tree_at lf rt' p t" by (simp_all add: upd)
  then show ?case by simp
next
  case (2 b u cs)
  have y: "y = b \<or> y \<in> set (lin cs)" using 2(2) by (auto dest: lchain_end)
  have "tree_at lf rt' (rt' b) (lplug cs t)"
    using 2(2,3,4) by (intro 2(1)) auto
  moreover have "y \<notin> set_tree u" "y \<noteq> x" using y 2(3) by auto
  then have "rt' x = rt x" "tree_at lf rt' q u = tree_at lf rt q u" for q
    unfolding upd by simp_all
  ultimately show ?case using 2(2) by simp
qed

lemma rchain_snoc:
  assumes upd: "lf' = lf(y := Some a)"
  shows "rchain lf rt x cs y \<Longrightarrow> distinct (x # a # inorder t @ rin cs) \<Longrightarrow> tree_at lf rt (rt a) t \<Longrightarrow>
    rchain lf' rt x (cs @ [(a, t)]) a"
proof (induction cs arbitrary: x rule: rin.induct)
  case 1
  then have "lf' x = Some a" "tree_at lf' rt (rt a) t" by (simp_all add: upd)
  then show ?case by simp
next
  case (2 b u cs)
  have y: "y = b \<or> y \<in> set (rin cs)" using 2(2) by (auto dest: rchain_end)
  have "rchain lf' rt b (cs @ [(a, t)]) a"
    using 2(2,3,4) by (intro 2(1)) auto
  moreover have "y \<notin> set_tree u" "y \<noteq> x" using y 2(3) by auto
  then have "lf' x = lf x" "tree_at lf' rt p u = tree_at lf rt p u" for p
    unfolding upd by simp_all
  ultimately show ?case using 2(2) by simp
qed

lemma rchain_close:
  assumes upd: "lf' = lf(y := p)"
  shows "rchain lf rt x cs y \<Longrightarrow> distinct (x # inorder t @ rin cs) \<Longrightarrow> tree_at lf rt p t \<Longrightarrow>
    tree_at lf' rt (lf' x) (rplug cs t)"
proof (induction cs arbitrary: x rule: rin.induct)
  case 1
  then have "lf' x = p" "tree_at lf' rt p t" by (simp_all add: upd)
  then show ?case by simp
next
  case (2 b u cs)
  have y: "y = b \<or> y \<in> set (rin cs)" using 2(2) by (auto dest: rchain_end)
  have "tree_at lf' rt (lf' b) (rplug cs t)"
    using 2(2,3,4) by (intro 2(1)) auto
  moreover have "y \<notin> set_tree u" "y \<noteq> x" using y 2(3) by auto
  then have "lf' x = lf x" "tree_at lf' rt q u = tree_at lf rt q u" for q
    unfolding upd by simp_all
  ultimately show ?case using 2(2) by simp
qed

section \<open>The invariant of the loop\<close>

text \<open>
  \<open>side\<close> tells on which side of an element the splay goes on. Along the elements in order it is
  positive, zero, negative. The elements \<open>elems\<close> are always those of the left chain, the tree
  at the root, and the right chain. No link of another element than these and the local node
  differs from the heap \<open>h0\<close> before the splay.
\<close>

definition cut_mono :: "(elem \<Rightarrow> int) \<Rightarrow> elem list \<Rightarrow> bool" where
  "cut_mono side xs \<longleftrightarrow> sorted_wrt (\<lambda>x y. (side x < 0 \<longrightarrow> side y < 0) \<and> (side y > 0 \<longrightarrow> side x > 0)) xs"

definition same_outside :: "elem set \<Rightarrow> splay_heap \<Rightarrow> splay_heap \<Rightarrow> bool" where
  "same_outside A h h' \<longleftrightarrow> (\<forall>z. z \<notin> A \<longrightarrow> spe_left h' z = spe_left h z \<and> spe_right h' z = spe_right h z)"

definition splaying ::
  "(elem \<Rightarrow> int) \<Rightarrow> elem \<Rightarrow> splay_heap \<Rightarrow> elem list \<Rightarrow> splay_heap \<Rightarrow> elem \<Rightarrow> elem \<Rightarrow> elem tree \<Rightarrow> bool" where
  "splaying side node h0 elems h lp rp t \<longleftrightarrow> (\<exists>cs ds.
     lchain (spe_left h) (spe_right h) node cs lp \<and> rchain (spe_left h) (spe_right h) node ds rp \<and>
     tree_at (spe_left h) (spe_right h) (sph_root h) t \<and> lin cs @ inorder t @ rin ds = elems \<and>
     (\<forall>x \<in> set (lin cs). side x > 0) \<and> (\<forall>x \<in> set (rin ds). side x < 0)) \<and>
   distinct (node # elems) \<and> cut_mono side elems \<and> same_outside (insert node (set elems)) h0 h"

lemma root_of_Some [simp]: "sph_root h = Some r \<Longrightarrow> root_of h = Inr r"
  by (simp add: root_of_def)

lemma link_left:
  assumes s: "splaying side node h0 es h lp rp (Node l a r)" and a: "side a < 0"
  shows "\<exists>h'. SPLAY_LINKLEFT rp h = Inr (h', a) \<and> splaying side node h0 es h' lp a l"
proof -
  obtain cs ds where c: "lchain (spe_left h) (spe_right h) node cs lp" "rchain (spe_left h) (spe_right h) node ds rp"
    and t: "sph_root h = Some a" "tree_at (spe_left h) (spe_right h) (spe_left h a) l"
      "tree_at (spe_left h) (spe_right h) (spe_right h a) r"
    and es: "lin cs @ (inorder l @ a # inorder r) @ rin ds = es"
    and sides: "\<forall>x \<in> set (lin cs). side x > 0" "\<forall>x \<in> set (rin ds). side x < 0"
    and es': "distinct (node # es)" "cut_mono side es" and same: "same_outside (insert node (set es)) h0 h"
    using s unfolding splaying_def by auto
  have d: "distinct (node # lin cs @ inorder l @ a # inorder r @ rin ds)" using es'(1) es by simp
  have rp: "rp = node \<or> rp \<in> set (rin ds)" using c(2) by (rule rchain_end)
  then have apart: "rp \<noteq> a" "rp \<notin> set_tree l" "rp \<notin> set_tree r" "rp \<notin> set (lin cs)" using d by auto
  let ?lf = "(spe_left h)(rp := Some a)"
  let ?h = "h\<lparr>spe_left := ?lf, sph_root := spe_left h a\<rparr>"
  have link: "SPLAY_LINKLEFT rp h = Inr (?h, a)"
    using t(1) apart(1) by (simp add: SPLAY_LINKLEFT_def)
  have "rchain ?lf (spe_right h) node (ds @ [(a, r)]) a"
    by (rule rchain_snoc [OF refl c(2) _ t(3)]) (use d in auto)
  moreover have "lchain ?lf (spe_right h) node cs lp" using c(1) apart by simp
  moreover have "tree_at ?lf (spe_right h) (spe_left h a) l" using t(2) apart by simp
  moreover have "\<forall>x \<in> set (rin (ds @ [(a, r)])). side x < 0"
    using es'(2) sides(2) a by (auto simp: es [symmetric] cut_mono_def sorted_wrt_append)
  moreover have "same_outside (insert node (set es)) h0 ?h"
    using same rp by (auto simp: same_outside_def es [symmetric])
  ultimately have "splaying side node h0 es ?h lp a l"
    using es' sides(1) unfolding splaying_def
    by (intro conjI exI [of _ cs] exI [of _ "ds @ [(a, r)]"]) (simp_all add: es [symmetric])
  with link show ?thesis by blast
qed

lemma link_right:
  assumes s: "splaying side node h0 es h lp rp (Node l a r)" and a: "side a > 0"
  shows "\<exists>h'. SPLAY_LINKRIGHT lp h = Inr (h', a) \<and> splaying side node h0 es h' a rp r"
proof -
  obtain cs ds where c: "lchain (spe_left h) (spe_right h) node cs lp" "rchain (spe_left h) (spe_right h) node ds rp"
    and t: "sph_root h = Some a" "tree_at (spe_left h) (spe_right h) (spe_left h a) l"
      "tree_at (spe_left h) (spe_right h) (spe_right h a) r"
    and es: "lin cs @ (inorder l @ a # inorder r) @ rin ds = es"
    and sides: "\<forall>x \<in> set (lin cs). side x > 0" "\<forall>x \<in> set (rin ds). side x < 0"
    and es': "distinct (node # es)" "cut_mono side es" and same: "same_outside (insert node (set es)) h0 h"
    using s unfolding splaying_def by auto
  have d: "distinct (node # lin cs @ inorder l @ a # inorder r @ rin ds)" using es'(1) es by simp
  have lp: "lp = node \<or> lp \<in> set (lin cs)" using c(1) by (rule lchain_end)
  then have apart: "lp \<noteq> a" "lp \<notin> set_tree l" "lp \<notin> set_tree r" "lp \<notin> set (rin ds)" using d by auto
  let ?rt = "(spe_right h)(lp := Some a)"
  let ?h = "h\<lparr>spe_right := ?rt, sph_root := spe_right h a\<rparr>"
  have link: "SPLAY_LINKRIGHT lp h = Inr (?h, a)"
    using t(1) apart(1) by (simp add: SPLAY_LINKRIGHT_def)
  have "lchain (spe_left h) ?rt node (cs @ [(a, l)]) a"
    by (rule lchain_snoc [OF refl c(1) _ t(2)]) (use d in auto)
  moreover have "rchain (spe_left h) ?rt node ds rp" using c(2) apart by simp
  moreover have "tree_at (spe_left h) ?rt (spe_right h a) r" using t(3) apart by simp
  moreover have "\<forall>x \<in> set (lin (cs @ [(a, l)])). side x > 0"
    using es'(2) sides(1) a by (auto simp: es [symmetric] cut_mono_def sorted_wrt_append)
  moreover have "same_outside (insert node (set es)) h0 ?h"
    using same lp by (auto simp: same_outside_def es [symmetric])
  ultimately have "splaying side node h0 es ?h a rp r"
    using es' sides(2) unfolding splaying_def
    by (intro conjI exI [of _ "cs @ [(a, l)]"] exI [of _ ds]) (simp_all add: es [symmetric])
  with link show ?thesis by blast
qed

lemma rotate_right:
  assumes s: "splaying side node h0 es h lp rp (Node (Node l b m) a r)"
  shows "\<exists>h'. SPLAY_ROTATE_RIGHT b h = Inr h' \<and> splaying side node h0 es h' lp rp (Node l b (Node m a r))"
proof -
  obtain cs ds where c: "lchain (spe_left h) (spe_right h) node cs lp" "rchain (spe_left h) (spe_right h) node ds rp"
    and t: "sph_root h = Some a" "tree_at (spe_left h) (spe_right h) (sph_root h) (Node (Node l b m) a r)"
    and es: "lin cs @ inorder (Node (Node l b m) a r) @ rin ds = es"
    and sides: "\<forall>x \<in> set (lin cs). side x > 0" "\<forall>x \<in> set (rin ds). side x < 0"
    and es': "distinct (node # es)" "cut_mono side es" and same: "same_outside (insert node (set es)) h0 h"
    using s unfolding splaying_def by auto
  have d: "distinct (node # lin cs @ inorder l @ b # inorder m @ a # inorder r @ rin ds)" using es'(1) es by simp
  let ?h = "h\<lparr>spe_left := (spe_left h)(a := spe_right h b), spe_right := (spe_right h)(b := Some a), sph_root := Some b\<rparr>"
  have rot: "SPLAY_ROTATE_RIGHT b h = Inr ?h" using t(1) by (simp add: SPLAY_ROTATE_RIGHT_def Let_def)
  have "same_outside (insert node (set es)) h0 ?h"
    using same by (auto simp: same_outside_def es [symmetric])
  then have "splaying side node h0 es ?h lp rp (Node l b (Node m a r))"
    using c t es' sides d unfolding splaying_def
    by (intro conjI exI [of _ cs] exI [of _ ds]) (simp_all add: es [symmetric])
  with rot show ?thesis by blast
qed

lemma rotate_left:
  assumes s: "splaying side node h0 es h lp rp (Node l a (Node m b r))"
  shows "\<exists>h'. SPLAY_ROTATE_LEFT b h = Inr h' \<and> splaying side node h0 es h' lp rp (Node (Node l a m) b r)"
proof -
  obtain cs ds where c: "lchain (spe_left h) (spe_right h) node cs lp" "rchain (spe_left h) (spe_right h) node ds rp"
    and t: "sph_root h = Some a" "tree_at (spe_left h) (spe_right h) (sph_root h) (Node l a (Node m b r))"
    and es: "lin cs @ inorder (Node l a (Node m b r)) @ rin ds = es"
    and sides: "\<forall>x \<in> set (lin cs). side x > 0" "\<forall>x \<in> set (rin ds). side x < 0"
    and es': "distinct (node # es)" "cut_mono side es" and same: "same_outside (insert node (set es)) h0 h"
    using s unfolding splaying_def by auto
  have d: "distinct (node # lin cs @ inorder l @ a # inorder m @ b # inorder r @ rin ds)" using es'(1) es by simp
  let ?h = "h\<lparr>spe_right := (spe_right h)(a := spe_left h b), spe_left := (spe_left h)(b := Some a), sph_root := Some b\<rparr>"
  have rot: "SPLAY_ROTATE_LEFT b h = Inr ?h" using t(1) by (simp add: SPLAY_ROTATE_LEFT_def Let_def)
  have "same_outside (insert node (set es)) h0 ?h"
    using same by (auto simp: same_outside_def es [symmetric])
  then have "splaying side node h0 es ?h lp rp (Node (Node l a m) b r)"
    using c t es' sides d unfolding splaying_def
    by (intro conjI exI [of _ cs] exI [of _ ds]) (simp_all add: es [symmetric])
  with rot show ?thesis by blast
qed

section \<open>The loop ends, and what it leaves\<close>

definition stopped :: "(elem \<Rightarrow> int) \<Rightarrow> elem tree \<Rightarrow> bool" where
  "stopped side t \<longleftrightarrow> (case t of Leaf \<Rightarrow> False
     | Node l a r \<Rightarrow> side a = 0 \<or> (side a < 0 \<and> l = Leaf) \<or> (side a > 0 \<and> r = Leaf))"

text \<open>A round keeps the invariant, and ends the loop or makes the tree at the root smaller.\<close>

definition round_ok ::
  "(elem \<Rightarrow> int) \<Rightarrow> elem \<Rightarrow> splay_heap \<Rightarrow> elem list \<Rightarrow> elem tree \<Rightarrow> fault + splay_round \<Rightarrow> bool" where
  "round_ok side node h0 es t r \<longleftrightarrow> (\<exists>fin h' lp' rp' t'. r = Inr (fin, h', lp', rp') \<and>
     splaying side node h0 es h' lp' rp' t' \<and> t' \<noteq> Leaf \<and> (if fin then stopped side t' else size t' < size t))"

lemma round_ok_stop: "splaying side node h0 es h lp rp t' \<Longrightarrow> stopped side t' \<Longrightarrow> round_ok side node h0 es t (Inr (True, h, lp, rp))"
  by (auto simp: round_ok_def stopped_def split: tree.splits)

lemma round_ok_next: "splaying side node h0 es h lp rp t' \<Longrightarrow> t' \<noteq> Leaf \<Longrightarrow> size t' < size t \<Longrightarrow>
    round_ok side node h0 es t (Inr (False, h, lp, rp))"
  by (auto simp: round_ok_def)

lemma splaying_root:
  assumes "splaying side node h0 es h lp rp (Node l a r)"
  shows "sph_root h = Some a" and "tree_at (spe_left h) (spe_right h) (spe_left h a) l"
    and "tree_at (spe_left h) (spe_right h) (spe_right h a) r"
  using assms by (auto simp: splaying_def)

lemma link_left_ok:
  assumes "splaying side node h0 es h lp rp (Node l a r)" and "side a < 0" and "l \<noteq> Leaf" and "size l < size t"
  shows "round_ok side node h0 es t (bindE (SPLAY_LINKLEFT rp h) (\<lambda>(h, rp). Inr (False, h, lp, rp)))"
  using link_left [OF assms(1,2)] assms(3,4) by (auto intro: round_ok_next)

lemma link_right_ok:
  assumes "splaying side node h0 es h lp rp (Node l a r)" and "side a > 0" and "r \<noteq> Leaf" and "size r < size t"
  shows "round_ok side node h0 es t (bindE (SPLAY_LINKRIGHT lp h) (\<lambda>(h, lp). Inr (False, h, lp, rp)))"
  using link_right [OF assms(1,2)] assms(3,4) by (auto intro: round_ok_next)

lemma zig_left_ok:
  assumes s: "splaying side node h0 es h lp rp (Node (Node l b m) a r)" and b: "side b < 0"
  shows "round_ok side node h0 es (Node (Node l b m) a r) (bindE (SPLAY_ROTATE_RIGHT b h) (\<lambda>h. bindE (root_of h) (\<lambda>r.
      if spe_left h r = None then Inr (True, h, lp, rp)
      else bindE (SPLAY_LINKLEFT rp h) (\<lambda>(h, rp). Inr (False, h, lp, rp)))))"
proof -
  obtain h' where h': "SPLAY_ROTATE_RIGHT b h = Inr h'" "splaying side node h0 es h' lp rp (Node l b (Node m a r))"
    using rotate_right [OF s] by blast
  note root = splaying_root [OF h'(2)]
  show ?thesis
  proof (cases l)
    case Leaf
    then show ?thesis using h' root b by (simp add: round_ok_stop stopped_def)
  next
    case (Node l1 c l2)
    then show ?thesis using h' root b link_left_ok [OF h'(2) b, of "Node (Node l b m) a r"] by simp
  qed
qed

lemma zig_right_ok:
  assumes s: "splaying side node h0 es h lp rp (Node l a (Node m b r))" and b: "side b > 0"
  shows "round_ok side node h0 es (Node l a (Node m b r)) (bindE (SPLAY_ROTATE_LEFT b h) (\<lambda>h. bindE (root_of h) (\<lambda>r.
      if spe_right h r = None then Inr (True, h, lp, rp)
      else bindE (SPLAY_LINKRIGHT lp h) (\<lambda>(h, lp). Inr (False, h, lp, rp)))))"
proof -
  obtain h' where h': "SPLAY_ROTATE_LEFT b h = Inr h'" "splaying side node h0 es h' lp rp (Node (Node l a m) b r)"
    using rotate_left [OF s] by blast
  note root = splaying_root [OF h'(2)]
  show ?thesis
  proof (cases r)
    case Leaf
    then show ?thesis using h' root b by (simp add: round_ok_stop stopped_def)
  next
    case (Node r1 c r2)
    then show ?thesis using h' root b link_right_ok [OF h'(2) b, of "Node l a (Node m b r)"] by simp
  qed
qed

lemma SPLAY_round_ok:
  assumes s: "splaying (cmp elm) node h0 es h lp rp t" and t: "t \<noteq> Leaf"
  shows "round_ok (cmp elm) node h0 es t (SPLAY_round cmp elm h lp rp)"
proof -
  obtain l a r where [simp]: "t = Node l a r" using t by (cases t) auto
  note root = splaying_root [OF s [unfolded \<open>t = _\<close>]]
  consider "cmp elm a = 0" | "cmp elm a < 0" | "cmp elm a > 0" by linarith
  then show ?thesis
  proof cases
    case 1
    then show ?thesis using s root by (simp add: SPLAY_round_def round_ok_stop stopped_def)
  next
    case 2
    show ?thesis
    proof (cases l)
      case Leaf
      then show ?thesis using 2 s root by (simp add: SPLAY_round_def round_ok_stop stopped_def)
    next
      case (Node l1 b m)
      then show ?thesis
        using 2 s root zig_left_ok [of "cmp elm" node h0 es h lp rp l1 b m a r] link_left_ok [of "cmp elm" node h0 es h lp rp l a r t]
        by (simp add: SPLAY_round_def Let_def)
    qed
  next
    case 3
    show ?thesis
    proof (cases r)
      case Leaf
      then show ?thesis using 3 s root by (simp add: SPLAY_round_def round_ok_stop stopped_def)
    next
      case (Node m b r1)
      then show ?thesis
        using 3 s root zig_right_ok [of "cmp elm" node h0 es h lp rp l a m b r1] link_right_ok [of "cmp elm" node h0 es h lp rp l a r t]
        by (simp add: SPLAY_round_def Let_def)
    qed
  qed
qed

text \<open>\<^verbatim>\<open>SPLAY_MINMAX\<close> goes to the same side at every element.\<close>

lemma SPLAY_MINMAX_round_ok:
  assumes s: "splaying (\<lambda>_. way) node h0 es h lp rp t" and t: "t \<noteq> Leaf" and way: "way \<noteq> 0"
  shows "round_ok (\<lambda>_. way) node h0 es t (SPLAY_MINMAX_round way h lp rp)"
proof -
  obtain l a r where "t = Node l a r" using t by (cases t) auto
  with s have "sph_root h = Some a" by (simp add: splaying_root(1))
  with way have "SPLAY_MINMAX_round way h lp rp = SPLAY_round (\<lambda>_ _. way) a h lp rp"
    by (simp add: SPLAY_MINMAX_round_def SPLAY_round_def Let_def split: option.split)
  then show ?thesis using SPLAY_round_ok [of "\<lambda>_ _. way" a node h0 es h lp rp t] s t by simp
qed

lemma splay_loop_ok:
  assumes rnd: "\<And>h lp rp t. splaying side node h0 es h lp rp t \<Longrightarrow> t \<noteq> Leaf \<Longrightarrow> round_ok side node h0 es t (rnd h lp rp)"
    and "splaying side node h0 es h lp rp t" and "t \<noteq> Leaf"
  shows "\<exists>h' lp' rp' t'. splay_loop rnd h lp rp = Some (Inr (h', lp', rp')) \<and>
    splaying side node h0 es h' lp' rp' t' \<and> stopped side t'"
  using assms(2,3)
proof (induction "size t" arbitrary: h lp rp t rule: less_induct)
  case less
  obtain fin h' lp' rp' t' where r: "rnd h lp rp = Inr (fin, h', lp', rp')" "splaying side node h0 es h' lp' rp' t'"
    "t' \<noteq> Leaf" "if fin then stopped side t' else size t' < size t"
    using rnd [OF less.prems] by (auto simp: round_ok_def)
  show ?case
  proof (cases fin)
    case True
    with r show ?thesis by (auto simp: splay_loop.simps [of rnd h])
  next
    case False
    with r less.hyps [of t' h' lp' rp'] show ?thesis by (simp add: splay_loop.simps [of rnd h])
  qed
qed

section \<open>What a splay does\<close>

text \<open>
  The tree in a head, and the root after a splay: it is the element sought, or there is no
  element between it and the place of the element sought.
\<close>

definition splay_tree :: "splay_heap \<Rightarrow> elem tree \<Rightarrow> bool" where
  "splay_tree h t \<longleftrightarrow> tree_at (spe_left h) (spe_right h) (sph_root h) t"

definition splayed :: "(elem \<Rightarrow> int) \<Rightarrow> elem list \<Rightarrow> splay_heap \<Rightarrow> elem tree \<Rightarrow> bool" where
  "splayed side es h t \<longleftrightarrow> splay_tree h t \<and> inorder t = es \<and>
     (case t of Leaf \<Rightarrow> False
      | Node l a r \<Rightarrow> side a = 0 \<or> (side a < 0 \<and> (\<forall>x \<in> set_tree l. side x > 0)) \<or>
          (side a > 0 \<and> (\<forall>x \<in> set_tree r. side x < 0)))"

lemma assemble_ok:
  assumes s: "splaying side node h0 es h lp rp t" and t: "stopped side t"
  shows "\<exists>h' t'. SPLAY_ASSEMBLE node lp rp h = Inr h' \<and> splayed side es h' t' \<and>
    same_outside (insert node (set es)) h0 h'"
proof -
  obtain l a r where [simp]: "t = Node l a r" using t by (cases t) (auto simp: stopped_def)
  obtain cs ds where c: "lchain (spe_left h) (spe_right h) node cs lp" "rchain (spe_left h) (spe_right h) node ds rp"
    and es: "lin cs @ (inorder l @ a # inorder r) @ rin ds = es"
    and sides: "\<forall>x \<in> set (lin cs). side x > 0" "\<forall>x \<in> set (rin ds). side x < 0"
    and es': "distinct (node # es)" and same: "same_outside (insert node (set es)) h0 h"
    using s unfolding splaying_def by auto
  note root = splaying_root [OF s [unfolded \<open>t = _\<close>]]
  have d: "distinct (node # lin cs @ inorder l @ a # inorder r @ rin ds)" using es' es by simp
  have ends: "lp = node \<or> lp \<in> set (lin cs)" "rp = node \<or> rp \<in> set (rin ds)"
    using c by (auto dest: lchain_end rchain_end)
  then have apart: "lp \<noteq> a" "rp \<noteq> a" "node \<noteq> a" "lp \<notin> set_tree r" "lp \<notin> set (rin ds)"
    "rp \<notin> set_tree l" "rp \<notin> set (lin cs)" using d by auto
  define lf where "lf = (spe_left h)(rp := spe_right h a)"
  define rt where "rt = (spe_right h)(lp := spe_left h a)"
  let ?l = "lplug cs l" and ?r = "rplug ds r"
  let ?h = "h\<lparr>spe_right := rt(a := lf node), spe_left := lf(a := rt node)\<rparr>"
  have l: "tree_at (spe_left h) rt (rt node) ?l"
    by (rule lchain_close [OF rt_def c(1) _ root(2)]) (use d in auto)
  have r: "tree_at lf (spe_right h) (lf node) ?r"
    by (rule rchain_close [OF lf_def c(2) _ root(3)]) (use d in auto)
  have elems: "set_tree ?l = set (lin cs) \<union> set_tree l" "set_tree ?r = set_tree r \<union> set (rin ds)"
    by (simp_all only: set_inorder [symmetric] inorder_plug set_append)
  have outside: "a \<notin> set_tree ?l" "a \<notin> set_tree ?r" "rp \<notin> set_tree ?l" "lp \<notin> set_tree ?r"
    using apart d by (auto simp: elems)
  have "tree_at lf rt (rt node) ?l" using l outside(3) by (simp add: lf_def)
  moreover have "tree_at lf rt (lf node) ?r" using r outside(4) by (simp add: rt_def)
  ultimately have "splay_tree ?h (Node ?l a ?r)"
    using root(1) outside by (simp add: splay_tree_def)
  moreover have "SPLAY_ASSEMBLE node lp rp h = Inr ?h"
    using root(1) apart by (simp add: SPLAY_ASSEMBLE_def Let_def lf_def rt_def fun_upd_other)
  moreover have "inorder (Node ?l a ?r) = es" by (simp add: es [symmetric])
  moreover have "side a = 0 \<or> side a < 0 \<and> (\<forall>x \<in> set_tree ?l. side x > 0) \<or> side a > 0 \<and> (\<forall>x \<in> set_tree ?r. side x < 0)"
    using t sides by (auto simp: stopped_def elems)
  moreover have "same_outside (insert node (set es)) h0 ?h"
    using same ends by (auto simp: same_outside_def es [symmetric] lf_def rt_def)
  ultimately show ?thesis
    by (intro exI [of _ ?h] exI [of _ "Node ?l a ?r"]) (simp add: splayed_def)
qed

lemma splay_with_ok:
  assumes rnd: "\<And>h' lp rp t. splaying side node h (inorder t0) h' lp rp t \<Longrightarrow> t \<noteq> Leaf \<Longrightarrow>
      round_ok side node h (inorder t0) t (rnd h' lp rp)"
    and t0: "splay_tree h t0" "t0 \<noteq> Leaf" "distinct (inorder t0)" "node \<notin> set_tree t0"
    and side: "cut_mono side (inorder t0)"
  shows "\<exists>h' t. splay_with rnd node h = Inr h' \<and> splayed side (inorder t0) h' t \<and>
    same_outside (insert node (set_tree t0)) h h'"
proof -
  let ?h = "h\<lparr>spe_left := (spe_left h)(node := None), spe_right := (spe_right h)(node := None)\<rparr>"
  have "splaying side node h (inorder t0) ?h node node t0"
    using t0 side unfolding splaying_def
    by (intro conjI exI [of _ "[]"]) (simp_all add: splay_tree_def same_outside_def)
  from splay_loop_ok [where rnd = rnd, OF rnd this t0(2)] obtain h' lp rp t where
    "splay_loop rnd ?h node node = Some (Inr (h', lp, rp))" "splaying side node h (inorder t0) h' lp rp t" "stopped side t"
    by blast
  with assemble_ok [OF this(2,3)] show ?thesis by (auto simp: splay_with_def)
qed

lemma cut_mono_cmp:
  assumes "orders cmp key" and "search_tree key t"
  shows "cut_mono (cmp elm) (inorder t)"
  using assms unfolding cut_mono_def search_tree_def
  by (elim sorted_wrt_mono_rel [rotated]) (auto simp: orders_cmp [OF assms(1)])

lemma SPLAY_ok:
  assumes "orders cmp key" and "search_tree key t" and "splay_tree h t" and "t \<noteq> Leaf" and "node \<notin> set_tree t"
  shows "\<exists>h' t'. SPLAY cmp node elm h = Inr h' \<and> splayed (cmp elm) (inorder t) h' t' \<and>
    same_outside (insert node (set_tree t)) h h'"
  unfolding SPLAY_def
  by (rule splay_with_ok [OF SPLAY_round_ok assms(3,4) search_tree_distinct [OF assms(2)] assms(5) cut_mono_cmp [OF assms(1,2)]])

lemma SPLAY_MINMAX_ok:
  assumes "splay_tree h t" and "t \<noteq> Leaf" and "distinct (inorder t)" and "node \<notin> set_tree t" and "way \<noteq> 0"
  shows "\<exists>h' t'. SPLAY_MINMAX node way h = Inr h' \<and> splayed (\<lambda>_. way) (inorder t) h' t' \<and>
    same_outside (insert node (set_tree t)) h h'"
proof -
  have "cut_mono (\<lambda>_. way) (inorder t)" by (simp add: cut_mono_def sorted_wrt_iff_nth_less)
  from splay_with_ok [where rnd = "SPLAY_MINMAX_round way", OF SPLAY_MINMAX_round_ok [OF _ _ assms(5)] assms(1-4) this]
  show ?thesis by (simp add: SPLAY_MINMAX_def)
qed

section \<open>The operations on a search tree\<close>

text \<open>What a head holds: a search tree without the local \<^verbatim>\<open>__node\<close>.\<close>

definition holds_tree :: "(elem \<Rightarrow> int) \<Rightarrow> elem \<Rightarrow> splay_heap \<Rightarrow> elem tree \<Rightarrow> bool" where
  "holds_tree key node h t \<longleftrightarrow> splay_tree h t \<and> search_tree key t \<and> node \<notin> set_tree t"

lemma holds_tree_empty: "holds_tree key node h t \<Longrightarrow> SPLAY_EMPTY h \<longleftrightarrow> t = Leaf"
  by (cases t) (auto simp: holds_tree_def splay_tree_def SPLAY_EMPTY_def)

lemma splayed_holds:
  assumes "holds_tree key node h t" and "splayed side (inorder t) h' t'"
  shows "holds_tree key node h' t'"
proof -
  have "inorder t' = inorder t" "splay_tree h' t'" using assms(2) by (simp_all add: splayed_def)
  then show ?thesis using assms(1)
    by (simp add: holds_tree_def search_tree_def) (simp add: set_inorder [symmetric] del: set_inorder)
qed

text \<open>After a splay the root decides whether the key is in the tree.\<close>

lemma SPLAY_holds:
  assumes "orders cmp key" and "holds_tree key node h t" and "t \<noteq> Leaf"
  obtains h' l a r where "SPLAY cmp node elm h = Inr h'" and "holds_tree key node h' (Node l a r)"
    and "inorder (Node l a r) = inorder t" and "splayed (cmp elm) (inorder t) h' (Node l a r)"
    and "sph_root h' = Some a" and "same_outside (insert node (set_tree t)) h h'"
proof -
  obtain h' t' where r: "SPLAY cmp node elm h = Inr h'" and s: "splayed (cmp elm) (inorder t) h' t'"
    and same: "same_outside (insert node (set_tree t)) h h'"
    using SPLAY_ok [OF assms(1) _ _ assms(3), of h node elm] assms(2) unfolding holds_tree_def by blast
  obtain l a q where t': "t' = Node l a q" using s by (cases t') (auto simp: splayed_def)
  from s t' same show thesis
    by (intro that [OF r, of l a q] splayed_holds [OF assms(2)]) (auto simp: splayed_def splay_tree_def)
qed

lemma splayed_absent:
  assumes ord: "orders cmp key" and s: "splayed (cmp elm) es h (Node l a r)" and t: "search_tree key (Node l a r)"
    and a: "key a \<noteq> key elm"
  shows "key elm \<notin> key ` set_tree (Node l a r)"
    and "key elm < key a \<Longrightarrow> \<forall>x \<in> set_tree l. key x < key elm"
    and "key a < key elm \<Longrightarrow> \<forall>x \<in> set_tree r. key elm < key x"
proof -
  note cmp = orders_cmp [OF ord]
  have near: "key elm < key a \<and> (\<forall>x \<in> set_tree l. key x < key elm) \<or> key a < key elm \<and> (\<forall>x \<in> set_tree r. key elm < key x)"
    using s a by (auto simp: splayed_def cmp)
  then show "key elm < key a \<Longrightarrow> \<forall>x \<in> set_tree l. key x < key elm"
    and "key a < key elm \<Longrightarrow> \<forall>x \<in> set_tree r. key elm < key x" by auto
  from near show "key elm \<notin> key ` set_tree (Node l a r)"
    using t a by fastforce
qed

lemma SPLAY_FIND_ok:
  assumes ord: "orders cmp key" and h: "holds_tree key node h t"
  shows "\<exists>res h' t'. SPLAY_FIND cmp node elm h = Inr (res, h') \<and> holds_tree key node h' t' \<and> inorder t' = inorder t \<and>
    (case res of Some x \<Rightarrow> x \<in> set_tree t \<and> key x = key elm | None \<Rightarrow> key elm \<notin> key ` set_tree t)"
proof (cases "t = Leaf")
  case True
  then show ?thesis using h holds_tree_empty [OF h] by (auto simp: SPLAY_FIND_def)
next
  case False
  obtain h' l a r where s: "SPLAY cmp node elm h = Inr h'" and h': "holds_tree key node h' (Node l a r)"
    and io: "inorder (Node l a r) = inorder t" and p: "splayed (cmp elm) (inorder t) h' (Node l a r)"
    and root: "sph_root h' = Some a"
    by (rule SPLAY_holds [OF ord h False])
  have elems: "set_tree t = set_tree (Node l a r)" using io by (metis set_inorder)
  show ?thesis
  proof (cases "key a = key elm")
    case True
    then have "SPLAY_FIND cmp node elm h = Inr (Some a, h')"
      using False holds_tree_empty [OF h] s root orders_cmp(3) [OF ord, of elm a] by (simp add: SPLAY_FIND_def)
    with h' io True elems show ?thesis
      by (intro exI [of _ "Some a"] exI [of _ h'] exI [of _ "Node l a r"]) simp
  next
    case diff: False
    then have "SPLAY_FIND cmp node elm h = Inr (None, h')"
      using False holds_tree_empty [OF h] s root orders_cmp(3) [OF ord, of elm a] by (simp add: SPLAY_FIND_def)
    moreover have "key elm \<notin> key ` set_tree t"
      using splayed_absent(1) [OF ord p _ diff] h' elems by (simp add: holds_tree_def)
    ultimately show ?thesis using h' io
      by (intro exI [of _ None] exI [of _ h'] exI [of _ "Node l a r"]) simp
  qed
qed

lemma SPLAY_INSERT_ok:
  assumes ord: "orders cmp key" and h: "holds_tree key node h t" and elm: "elm \<notin> set_tree t" "elm \<noteq> node"
  shows "\<exists>res h' t'. SPLAY_INSERT cmp node elm h = Inr (res, h') \<and> holds_tree key node h' t' \<and>
    (case res of Some x \<Rightarrow> x \<in> set_tree t \<and> key x = key elm \<and> inorder t' = inorder t
     | None \<Rightarrow> (key elm \<notin> key ` set_tree t) \<and> set_tree t' = insert elm (set_tree t))"
proof (cases "t = Leaf")
  case True
  then show ?thesis using h elm holds_tree_empty [OF h]
    by (auto simp: SPLAY_INSERT_def holds_tree_def splay_tree_def intro!: exI [of _ "Node Leaf elm Leaf"])
next
  case False
  obtain h' l a r where s: "SPLAY cmp node elm h = Inr h'" and h': "holds_tree key node h' (Node l a r)"
    and io: "inorder (Node l a r) = inorder t" and p: "splayed (cmp elm) (inorder t) h' (Node l a r)"
    and root: "sph_root h' = Some a"
    by (rule SPLAY_holds [OF ord h False])
  note cmp = orders_cmp [OF ord, of elm a]
  have elems: "set_tree t = set_tree (Node l a r)" using io by (metis set_inorder)
  have run: "SPLAY_INSERT cmp node elm h = (let way = cmp elm a in
      if way < 0 then Inr (None, h'\<lparr>spe_left := (spe_left h')(elm := spe_left h' a, a := None),
        spe_right := (spe_right h')(elm := Some a), sph_root := Some elm\<rparr>)
      else if way > 0 then Inr (None, h'\<lparr>spe_right := (spe_right h')(elm := spe_right h' a, a := None),
        spe_left := (spe_left h')(elm := Some a), sph_root := Some elm\<rparr>)
      else Inr (Some a, h'))"
    using False holds_tree_empty [OF h] s root by (simp add: SPLAY_INSERT_def Let_def)
  have tree: "tree_at (spe_left h') (spe_right h') (spe_left h' a) l" "tree_at (spe_left h') (spe_right h') (spe_right h' a) r"
    and bst: "search_tree key (Node l a r)" and node: "node \<notin> set_tree (Node l a r)"
    using h' by (auto simp: holds_tree_def splay_tree_def)
  have "a \<notin> set_tree l" "a \<notin> set_tree r" using search_tree_distinct [OF bst] by simp_all
  consider "key elm = key a" | "key elm < key a" | "key a < key elm" by linarith
  then show ?thesis
  proof cases
    case 1
    then have "SPLAY_INSERT cmp node elm h = Inr (Some a, h')" using run cmp by simp
    with h' io 1 elems show ?thesis by (intro exI [of _ "Some a"] exI [of _ h'] exI [of _ "Node l a r"]) simp
  next
    case 2
    let ?t = "Node l elm (Node Leaf a r)"
    have "holds_tree key node (h'\<lparr>spe_left := (spe_left h')(elm := spe_left h' a, a := None),
        spe_right := (spe_right h')(elm := Some a), sph_root := Some elm\<rparr>) ?t"
      using 2 tree bst node elm elems splayed_absent(2) [OF ord p bst] \<open>a \<notin> set_tree l\<close> \<open>a \<notin> set_tree r\<close>
      by (auto simp: holds_tree_def splay_tree_def)
    with run 2 cmp splayed_absent(1) [OF ord p bst] elems show ?thesis
      by (auto intro!: exI [of _ ?t])
  next
    case 3
    let ?t = "Node (Node l a Leaf) elm r"
    have "holds_tree key node (h'\<lparr>spe_right := (spe_right h')(elm := spe_right h' a, a := None),
        spe_left := (spe_left h')(elm := Some a), sph_root := Some elm\<rparr>) ?t"
      using 3 tree bst node elm elems splayed_absent(3) [OF ord p bst] \<open>a \<notin> set_tree l\<close> \<open>a \<notin> set_tree r\<close>
      by (auto simp: holds_tree_def splay_tree_def)
    with run 3 cmp splayed_absent(1) [OF ord p bst] elems show ?thesis
      by (auto intro!: exI [of _ ?t])
  qed
qed

text \<open>A splay for a key above all keys of the tree leaves the greatest element at the root.\<close>

lemma SPLAY_above:
  assumes ord: "orders cmp key" and h: "holds_tree key node h t" "t \<noteq> Leaf" and above: "\<forall>x \<in> set_tree t. key x < key elm"
  obtains h' l a where "SPLAY cmp node elm h = Inr h'" and "holds_tree key node h' (Node l a Leaf)"
    and "inorder (Node l a Leaf) = inorder t" and "sph_root h' = Some a"
    and "same_outside (insert node (set_tree t)) h h'"
proof -
  obtain h' l a r where s: "SPLAY cmp node elm h = Inr h'" and h': "holds_tree key node h' (Node l a r)"
    and io: "inorder (Node l a r) = inorder t" and p: "splayed (cmp elm) (inorder t) h' (Node l a r)"
    and root: "sph_root h' = Some a" and same: "same_outside (insert node (set_tree t)) h h'"
    by (rule SPLAY_holds [OF ord h])
  have elems: "set_tree t = set_tree (Node l a r)" using io by (metis set_inorder)
  have "cmp elm x > 0" if "x \<in> set_tree (Node l a r)" for x
    using above elems that orders_cmp(2) [OF ord, of elm x] by auto
  then have "set_tree r = {}" using p by (fastforce simp: splayed_def)
  then have "r = Leaf" by (cases r) auto
  with s h' io root same show thesis by (intro that) auto
qed

lemma SPLAY_REMOVE_ok:
  assumes ord: "orders cmp key" and h: "holds_tree key node h t"
  shows "\<exists>res h' t'. SPLAY_REMOVE cmp node elm h = Inr (res, h') \<and> holds_tree key node h' t' \<and>
    (case res of None \<Rightarrow> (key elm \<notin> key ` set_tree t) \<and> inorder t' = inorder t
     | Some e \<Rightarrow> e = elm \<and> (\<exists>x \<in> set_tree t. key x = key elm \<and> set_tree t' = set_tree t - {x}))"
proof (cases "t = Leaf")
  case True
  then show ?thesis using h holds_tree_empty [OF h] by (auto simp: SPLAY_REMOVE_def)
next
  case False
  obtain h' l a r where s: "SPLAY cmp node elm h = Inr h'" and h': "holds_tree key node h' (Node l a r)"
    and io: "inorder (Node l a r) = inorder t" and p: "splayed (cmp elm) (inorder t) h' (Node l a r)"
    and root: "sph_root h' = Some a"
    by (rule SPLAY_holds [OF ord h False])
  note cmp = orders_cmp(3) [OF ord, of elm a]
  have elems: "set_tree t = set_tree (Node l a r)" using io by (metis set_inorder)
  have tree: "tree_at (spe_left h') (spe_right h') (spe_left h' a) l" "tree_at (spe_left h') (spe_right h') (spe_right h' a) r"
    and bst: "search_tree key (Node l a r)" and node: "node \<notin> set_tree (Node l a r)"
    using h' by (auto simp: holds_tree_def splay_tree_def)
  have d: "distinct (inorder (Node l a r))" by (rule search_tree_distinct [OF bst])
  show ?thesis
  proof (cases "key a = key elm")
    case no: False
    then have "SPLAY_REMOVE cmp node elm h = Inr (None, h')"
      using False holds_tree_empty [OF h] s root cmp by (simp add: SPLAY_REMOVE_def)
    with h' io splayed_absent(1) [OF ord p bst no] elems show ?thesis
      by (intro exI [of _ None] exI [of _ h'] exI [of _ "Node l a r"]) simp
  next
    case yes: True
    let ?h = "h'\<lparr>sph_root := spe_left h' a\<rparr>"
    have rest: "set_tree t - {a} = set_tree l \<union> set_tree r" using d elems by auto
    show ?thesis
    proof (cases "l = Leaf")
      case True
      then have "SPLAY_REMOVE cmp node elm h = Inr (Some elm, h'\<lparr>sph_root := spe_right h' a\<rparr>)"
        using False holds_tree_empty [OF h] s root cmp tree(1) yes by (simp add: SPLAY_REMOVE_def)
      moreover have "holds_tree key node (h'\<lparr>sph_root := spe_right h' a\<rparr>) r"
        using tree bst node by (simp add: holds_tree_def splay_tree_def)
      ultimately show ?thesis using yes elems rest True
        by (intro exI [of _ "Some elm"] exI conjI) auto
    next
      case l: False
      have "holds_tree key node ?h l" using tree bst node by (simp add: holds_tree_def splay_tree_def)
      moreover have "\<forall>x \<in> set_tree l. key x < key elm" using bst yes by simp
      ultimately obtain h2 m b where s2: "SPLAY cmp node elm ?h = Inr h2" "holds_tree key node h2 (Node m b Leaf)"
        "inorder (Node m b Leaf) = inorder l" "sph_root h2 = Some b" "same_outside (insert node (set_tree l)) ?h h2"
        using SPLAY_above [OF ord _ l] by metis
      have elems2: "set_tree l = set_tree (Node m b Leaf)" using s2(3) by (metis set_inorder)
      let ?h2 = "h2\<lparr>spe_right := (spe_right h2)(b := spe_right h' a)\<rparr>" and ?t = "Node m b r"
      obtain b0 where "spe_left h' a = Some b0" using tree(1) l by (cases l) auto
      then have run: "SPLAY_REMOVE cmp node elm h = Inr (Some elm, ?h2)"
        using False holds_tree_empty [OF h] s root cmp yes s2 by (simp add: SPLAY_REMOVE_def Let_def)
      have "tree_at (spe_left h2) (spe_right h2) (spe_right h' a) r"
        by (rule tree_at_cong [OF tree(2)]) (use s2(5) d node in \<open>auto simp: same_outside_def\<close>)
      moreover have "b \<notin> set_tree r" "b \<notin> set_tree m"
        using d elems2 s2(2) search_tree_distinct [of key "Node m b Leaf"] by (auto simp: holds_tree_def)
      ultimately have "holds_tree key node ?h2 ?t"
        using s2 bst node elems2 yes
        by (auto simp: holds_tree_def splay_tree_def intro: less_trans)
      moreover have "set_tree ?t = set_tree t - {a}" using rest elems2 by auto
      ultimately show ?thesis using run yes elems
        by (intro exI [of _ "Some elm"] exI [of _ ?h2] exI [of _ ?t]) auto
    qed
  qed
qed

lemma SPLAY_MIN_ok:
  assumes h: "holds_tree key node h t"
  shows "\<exists>h' t'. SPLAY_MIN node h = Inr (if t = Leaf then None else Some (hd (inorder t)), h') \<and>
    holds_tree key node h' t' \<and> inorder t' = inorder t"
proof (cases "t = Leaf")
  case True
  then show ?thesis using h holds_tree_empty [OF h] by (auto simp: SPLAY_MIN_def)
next
  case False
  have "search_tree key t" "splay_tree h t" "node \<notin> set_tree t" using h by (simp_all add: holds_tree_def)
  then obtain h' t' where r: "SPLAY_MINMAX node (-1) h = Inr h'" and p: "splayed (\<lambda>_. -1) (inorder t) h' t'"
    using SPLAY_MINMAX_ok [OF _ False search_tree_distinct, of h key node "-1"] by auto
  obtain l a q where t': "t' = Node l a q" using p by (cases t') (auto simp: splayed_def)
  have "set_tree l = {}" using p t' by (auto simp: splayed_def)
  then have "l = Leaf" by (cases l) auto
  then have "sph_root h' = Some (hd (inorder t))"
    using p t' by (auto simp: splayed_def splay_tree_def dest: sym)
  with r False holds_tree_empty [OF h] splayed_holds [OF h p] p show ?thesis
    by (intro exI [of _ h'] exI [of _ t']) (simp add: SPLAY_MIN_def SPLAY_MIN_MAX_def SPLAY_NEGINF_def splayed_def)
qed

lemma SPLAY_MAX_ok:
  assumes h: "holds_tree key node h t"
  shows "\<exists>h' t'. SPLAY_MAX node h = Inr (if t = Leaf then None else Some (last (inorder t)), h') \<and>
    holds_tree key node h' t' \<and> inorder t' = inorder t"
proof (cases "t = Leaf")
  case True
  then show ?thesis using h holds_tree_empty [OF h] by (auto simp: SPLAY_MAX_def)
next
  case False
  have "search_tree key t" "splay_tree h t" "node \<notin> set_tree t" using h by (simp_all add: holds_tree_def)
  then obtain h' t' where r: "SPLAY_MINMAX node 1 h = Inr h'" and p: "splayed (\<lambda>_. 1) (inorder t) h' t'"
    using SPLAY_MINMAX_ok [OF _ False search_tree_distinct, of h key node 1] by auto
  obtain l a q where t': "t' = Node l a q" using p by (cases t') (auto simp: splayed_def)
  have "set_tree q = {}" using p t' by (auto simp: splayed_def)
  then have "q = Leaf" by (cases q) auto
  then have "inorder t = inorder l @ [a]" "sph_root h' = Some a"
    using p t' by (auto simp: splayed_def splay_tree_def dest: sym)
  then have "sph_root h' = Some (last (inorder t))" by simp
  with r False holds_tree_empty [OF h] splayed_holds [OF h p] p show ?thesis
    by (intro exI [of _ h'] exI [of _ t']) (simp add: SPLAY_MAX_def SPLAY_MIN_MAX_def SPLAY_INF_def splayed_def)
qed

lemma SPLAY_NEXT_ok:
  assumes ord: "orders cmp key" and h: "holds_tree key node h t" and t: "inorder t = xs @ elm # ys"
  shows "\<exists>h' t'. SPLAY_NEXT cmp node elm h = Inr (first_of ys, h') \<and> holds_tree key node h' t' \<and> inorder t' = inorder t"
proof -
  have ne: "t \<noteq> Leaf" using t by auto
  obtain h' l a r where s: "SPLAY cmp node elm h = Inr h'" and h': "holds_tree key node h' (Node l a r)"
    and io: "inorder (Node l a r) = inorder t" and p: "splayed (cmp elm) (inorder t) h' (Node l a r)"
    and root: "sph_root h' = Some a"
    by (rule SPLAY_holds [OF ord h ne])
  have bst: "search_tree key (Node l a r)" using h' by (simp add: holds_tree_def)
  have elm: "elm \<in> set_tree (Node l a r)" using io t by (metis in_set_conv_decomp set_inorder)
  then have "key a = key elm" using splayed_absent(1) [OF ord p bst] by blast
  then have a: "a = elm" by (intro search_tree_unique [OF bst _ elm]) simp_all
  have eq: "xs @ elm # ys = inorder l @ elm # inorder r" using io t a by simp
  have "distinct (xs @ elm # ys)" using search_tree_distinct [OF bst] a unfolding eq by simp
  then have ys: "ys = inorder r" using eq by (rule distinct_rest)
  have r: "tree_at (spe_left h') (spe_right h') (spe_right h' elm) r"
    using h' a by (auto simp: holds_tree_def splay_tree_def)
  have "SPLAY_NEXT cmp node elm h = Inr (first_of ys, h')"
  proof (cases "spe_right h' elm")
    case None
    then show ?thesis using r s ys by (simp add: SPLAY_NEXT_def first_of_def)
  next
    case (Some e)
    then have "last_link (spe_left h') e = Some (hd (inorder r))" "inorder r \<noteq> []"
      using r last_link_left by (auto simp: neq_Leaf_iff tree_at_Some)
    then show ?thesis using Some s ys by (simp add: SPLAY_NEXT_def first_of_def split: list.split)
  qed
  with h' io show ?thesis by blast
qed

lemma foreach_loop_ok:
  assumes ord: "orders cmp key"
  shows "holds_tree key node h t \<Longrightarrow> inorder t = seen @ ys \<Longrightarrow>
    \<exists>h' t'. foreach_loop cmp node seen (first_of ys) h = Some (Inr (inorder t, h')) \<and>
      holds_tree key node h' t' \<and> inorder t' = inorder t"
proof (induction ys arbitrary: h t seen)
  case Nil
  then show ?case by (auto simp: foreach_loop.simps [of cmp node seen] first_of_def)
next
  case (Cons y ys)
  obtain h1 t1 where "SPLAY_NEXT cmp node y h = Inr (first_of ys, h1)" "holds_tree key node h1 t1" "inorder t1 = inorder t"
    using SPLAY_NEXT_ok [OF ord Cons.prems(1), of seen y ys] Cons.prems(2) by auto
  with Cons.IH [of h1 t1 "seen @ [y]"] Cons.prems(2) show ?case
    by (simp add: foreach_loop.simps [of cmp node seen] first_of_def [of "y # ys"])
qed

lemma SPLAY_FOREACH_ok:
  assumes ord: "orders cmp key" and h: "holds_tree key node h t"
  shows "\<exists>h' t'. SPLAY_FOREACH cmp node h = Inr (inorder t, h') \<and> holds_tree key node h' t' \<and> inorder t' = inorder t"
proof -
  have first: "(if t = Leaf then None else Some (hd (inorder t))) = first_of (inorder t)"
    by (cases "inorder t") (auto simp: first_of_def)
  obtain h1 t1 where m: "SPLAY_MIN node h = Inr (first_of (inorder t), h1)" "holds_tree key node h1 t1" "inorder t1 = inorder t"
    using SPLAY_MIN_ok [OF h] first by auto
  with foreach_loop_ok [OF ord m(2), of "[]" "inorder t1"] show ?thesis
    by (auto simp: SPLAY_FOREACH_def)
qed

section \<open>A sample\<close>

definition sample_splay :: splay_heap where
  "sample_splay = \<lparr>sph_root = Some 4, spe_left = [4 \<mapsto> 2], spe_right = [4 \<mapsto> 6]\<rparr>"

lemma sample_splay_facts:
  "orders sample_cmp int" "holds_tree int 0 sample_splay sample_tree"
  by (simp_all add: orders_def sample_cmp_def holds_tree_def splay_tree_def sample_splay_def sample_tree_def)

section \<open>Properties\<close>

text \<open>Finding in a splay tree. On every search tree \<^verbatim>\<open>SPLAY_FIND\<close> returns; it gives the element with
  the key sought if there is one, and only then, and leaves a search tree of the same elements.\<close>

theorem splay_find_correct:
  assumes "orders cmp key" and "holds_tree key node h t"
  shows "\<exists>res h' t'. SPLAY_FIND cmp node elm h = Inr (res, h') \<and> holds_tree key node h' t' \<and> inorder t' = inorder t \<and>
    (case res of Some x \<Rightarrow> x \<in> set_tree t \<and> key x = key elm | None \<Rightarrow> key elm \<notin> key ` set_tree t)"
  by (rule SPLAY_FIND_ok [OF assms])

theorem splay_find_correct_witness:
  "\<exists>res h' t'. SPLAY_FIND sample_cmp 0 6 sample_splay = Inr (res, h') \<and> holds_tree int 0 h' t' \<and>
    inorder t' = inorder sample_tree \<and>
    (case res of Some x \<Rightarrow> x \<in> set_tree sample_tree \<and> int x = int 6 | None \<Rightarrow> int 6 \<notin> int ` set_tree sample_tree)"
  by (rule splay_find_correct [OF sample_splay_facts])

text \<open>Inserting into a splay tree. \<^verbatim>\<open>SPLAY_INSERT\<close> returns the element that has the key already and
  leaves the elements as they are, or returns the null pointer and leaves a search tree with the
  new element.\<close>

theorem splay_insert_correct:
  assumes "orders cmp key" and "holds_tree key node h t" and "elm \<notin> set_tree t" and "elm \<noteq> node"
  shows "\<exists>res h' t'. SPLAY_INSERT cmp node elm h = Inr (res, h') \<and> holds_tree key node h' t' \<and>
    (case res of Some x \<Rightarrow> x \<in> set_tree t \<and> key x = key elm \<and> inorder t' = inorder t
     | None \<Rightarrow> (key elm \<notin> key ` set_tree t) \<and> set_tree t' = insert elm (set_tree t))"
  by (rule SPLAY_INSERT_ok [OF assms])

theorem splay_insert_correct_witness:
  "\<exists>res h' t'. SPLAY_INSERT sample_cmp 0 5 sample_splay = Inr (res, h') \<and> holds_tree int 0 h' t' \<and>
    (case res of Some x \<Rightarrow> x \<in> set_tree sample_tree \<and> int x = int 5 \<and> inorder t' = inorder sample_tree
     | None \<Rightarrow> (int 5 \<notin> int ` set_tree sample_tree) \<and> set_tree t' = insert 5 (set_tree sample_tree))"
  by (rule splay_insert_correct [OF sample_splay_facts]) (simp_all add: sample_tree_def)

text \<open>Removing from a splay tree. \<^verbatim>\<open>SPLAY_REMOVE\<close> takes the element with the key out, and no other;
  what it returns is its argument, not the element it took out.\<close>

theorem splay_remove_correct:
  assumes "orders cmp key" and "holds_tree key node h t"
  shows "\<exists>res h' t'. SPLAY_REMOVE cmp node elm h = Inr (res, h') \<and> holds_tree key node h' t' \<and>
    (case res of None \<Rightarrow> (key elm \<notin> key ` set_tree t) \<and> inorder t' = inorder t
     | Some e \<Rightarrow> e = elm \<and> (\<exists>x \<in> set_tree t. key x = key elm \<and> set_tree t' = set_tree t - {x}))"
  by (rule SPLAY_REMOVE_ok [OF assms])

theorem splay_remove_correct_witness:
  "\<exists>res h' t'. SPLAY_REMOVE sample_cmp 0 4 sample_splay = Inr (res, h') \<and> holds_tree int 0 h' t' \<and>
    (case res of None \<Rightarrow> (int 4 \<notin> int ` set_tree sample_tree) \<and> inorder t' = inorder sample_tree
     | Some e \<Rightarrow> e = 4 \<and> (\<exists>x \<in> set_tree sample_tree. int x = int 4 \<and> set_tree t' = set_tree sample_tree - {x}))"
  by (rule splay_remove_correct [OF sample_splay_facts])

text \<open>Going through a splay tree. \<^verbatim>\<open>SPLAY_FOREACH\<close> ends and visits every element once, in the order of
  the keys, although each step splays the tree anew.\<close>

theorem splay_foreach_in_order:
  assumes "orders cmp key" and "holds_tree key node h t"
  shows "\<exists>h' t'. SPLAY_FOREACH cmp node h = Inr (inorder t, h') \<and> holds_tree key node h' t' \<and> inorder t' = inorder t"
  by (rule SPLAY_FOREACH_ok [OF assms])

theorem splay_foreach_in_order_witness:
  "\<exists>h' t'. SPLAY_FOREACH sample_cmp 0 sample_splay = Inr (inorder sample_tree, h') \<and> holds_tree int 0 h' t' \<and>
    inorder t' = inorder sample_tree"
  by (rule splay_foreach_in_order [OF sample_splay_facts])

end
