(* ===== verification/Uv_Rb_Tree.thy ===== *)
theory Uv_Rb_Tree
  imports Tree_Heap
begin

text \<open>
  The red-black trees of src/include/uv/tree.h: the macros as functions of the heap of links and
  colours, with the comparison \<open>cmp\<close> as an argument. \<^verbatim>\<open>RB_AUGMENT\<close> is what the header defines it
  to be, nothing. Following the null pointer is a fault, and a loop that does not end is the
  fault \<open>Diverges\<close>.
\<close>

section \<open>Heads, links and colours\<close>

record rb_heap =
  rbh_root :: "elem option"
  rbe_left :: links
  rbe_right :: links
  rbe_parent :: links
  rbe_color :: "elem \<Rightarrow> int"

definition RB_BLACK :: int where "RB_BLACK = 0"

definition RB_RED :: int where "RB_RED = 1"

definition RB_INIT :: "rb_heap \<Rightarrow> rb_heap" where
  "RB_INIT h = h\<lparr>rbh_root := None\<rparr>"

definition RB_EMPTY :: "rb_heap \<Rightarrow> bool" where
  "RB_EMPTY h \<longleftrightarrow> rbh_root h = None"

text \<open>Assignments through \<^verbatim>\<open>RB_LEFT\<close>, \<^verbatim>\<open>RB_RIGHT\<close>, \<^verbatim>\<open>RB_PARENT\<close>, \<^verbatim>\<open>RB_COLOR\<close> and \<^verbatim>\<open>RB_ROOT\<close>.\<close>

definition set_left :: "elem \<Rightarrow> elem option \<Rightarrow> rb_heap \<Rightarrow> rb_heap" where
  "set_left a p h = h\<lparr>rbe_left := (rbe_left h)(a := p)\<rparr>"

definition set_right :: "elem \<Rightarrow> elem option \<Rightarrow> rb_heap \<Rightarrow> rb_heap" where
  "set_right a p h = h\<lparr>rbe_right := (rbe_right h)(a := p)\<rparr>"

definition set_parent :: "elem \<Rightarrow> elem option \<Rightarrow> rb_heap \<Rightarrow> rb_heap" where
  "set_parent a p h = h\<lparr>rbe_parent := (rbe_parent h)(a := p)\<rparr>"

definition set_color :: "elem \<Rightarrow> int \<Rightarrow> rb_heap \<Rightarrow> rb_heap" where
  "set_color a c h = h\<lparr>rbe_color := (rbe_color h)(a := c)\<rparr>"

definition set_root :: "elem option \<Rightarrow> rb_heap \<Rightarrow> rb_heap" where
  "set_root p h = h\<lparr>rbh_root := p\<rparr>"

lemmas rb_sets = set_left_def set_right_def set_parent_def set_color_def set_root_def

definition the_ptr :: "elem option \<Rightarrow> fault + elem" where
  "the_ptr p = (case p of None \<Rightarrow> Inl Null_deref | Some a \<Rightarrow> Inr a)"

lemma the_ptr_simps [simp]: "the_ptr None = Inl Null_deref" "the_ptr (Some a) = Inr a"
  by (simp_all add: the_ptr_def)

definition RB_SET :: "elem \<Rightarrow> elem option \<Rightarrow> rb_heap \<Rightarrow> rb_heap" where
  "RB_SET elm parent h = set_color elm RB_RED (set_left elm None (set_right elm None (set_parent elm parent h)))"

definition RB_SET_BLACKRED :: "elem \<Rightarrow> elem \<Rightarrow> rb_heap \<Rightarrow> rb_heap" where
  "RB_SET_BLACKRED black red h = set_color red RB_RED (set_color black RB_BLACK h)"

text \<open>The link of the parent, or of the head, that leads to \<open>elm\<close> is turned to \<open>p\<close>.\<close>

definition relink :: "elem \<Rightarrow> elem option \<Rightarrow> rb_heap \<Rightarrow> rb_heap" where
  "relink elm p h =
     (case rbe_parent h elm of
        None \<Rightarrow> set_root p h
      | Some q \<Rightarrow> (if rbe_left h q = Some elm then set_left q p h else set_right q p h))"

text \<open>The rotations; the second part of the result is the value of their variable \<^verbatim>\<open>tmp\<close>.\<close>

definition RB_ROTATE_LEFT :: "elem \<Rightarrow> rb_heap \<Rightarrow> fault + (rb_heap \<times> elem)" where
  "RB_ROTATE_LEFT elm h =
     bindE (the_ptr (rbe_right h elm)) (\<lambda>tmp.
     let h = set_right elm (rbe_left h tmp) h;
         h = (case rbe_left h tmp of None \<Rightarrow> h | Some c \<Rightarrow> set_parent c (Some elm) h);
         h = set_parent tmp (rbe_parent h elm) h;
         h = relink elm (Some tmp) h;
         h = set_left tmp (Some elm) h;
         h = set_parent elm (Some tmp) h
     in Inr (h, tmp))"

definition RB_ROTATE_RIGHT :: "elem \<Rightarrow> rb_heap \<Rightarrow> fault + (rb_heap \<times> elem)" where
  "RB_ROTATE_RIGHT elm h =
     bindE (the_ptr (rbe_left h elm)) (\<lambda>tmp.
     let h = set_left elm (rbe_right h tmp) h;
         h = (case rbe_right h tmp of None \<Rightarrow> h | Some c \<Rightarrow> set_parent c (Some elm) h);
         h = set_parent tmp (rbe_parent h elm) h;
         h = relink elm (Some tmp) h;
         h = set_right tmp (Some elm) h;
         h = set_parent elm (Some tmp) h
     in Inr (h, tmp))"

section \<open>Loops\<close>

text \<open>A loop from its rounds: a round says whether it was the last.\<close>

partial_function (option) rounds :: "('s \<Rightarrow> fault + (bool \<times> 's)) \<Rightarrow> 's \<Rightarrow> (fault + 's) option" where
  "rounds rnd s =
     (case rnd s of
        Inl e \<Rightarrow> Some (Inl e)
      | Inr (fin, s) \<Rightarrow> (if fin then Some (Inr s) else rounds rnd s))"

declare rounds.simps [simp del]

definition run_rounds :: "('s \<Rightarrow> fault + (bool \<times> 's)) \<Rightarrow> 's \<Rightarrow> fault + 's" where
  "run_rounds rnd s = (case rounds rnd s of None \<Rightarrow> Inl Diverges | Some r \<Rightarrow> r)"

definition is_red :: "rb_heap \<Rightarrow> elem option \<Rightarrow> bool" where
  "is_red h p = (case p of None \<Rightarrow> False | Some a \<Rightarrow> rbe_color h a = RB_RED)"

text \<open>\<^verbatim>\<open>p == NULL || RB_COLOR(p, field) == RB_BLACK\<close>\<close>

definition null_or_black :: "rb_heap \<Rightarrow> elem option \<Rightarrow> bool" where
  "null_or_black h p = (case p of None \<Rightarrow> True | Some a \<Rightarrow> rbe_color h a = RB_BLACK)"

section \<open>Inserting\<close>

text \<open>One round of the loop of \<^verbatim>\<open>RB_INSERT_COLOR\<close>; \<^verbatim>\<open>parent\<close> and \<^verbatim>\<open>elm\<close> are exchanged after the inner rotation.\<close>

definition insert_color_left :: "elem \<Rightarrow> elem \<Rightarrow> elem \<Rightarrow> rb_heap \<Rightarrow> fault + (bool \<times> rb_heap \<times> elem)" where
  "insert_color_left gparent parent elm h =
     (let tmp = rbe_right h gparent in
      if is_red h tmp then
        let h = set_color (the tmp) RB_BLACK h
        in Inr (False, RB_SET_BLACKRED parent gparent h, gparent)
      else
        bindE (if rbe_right h parent = Some elm
               then bindE (RB_ROTATE_LEFT parent h) (\<lambda>(h, tmp). Inr (h, elm, parent))
               else Inr (h, parent, elm)) (\<lambda>(h, parent, elm).
        bindE (RB_ROTATE_RIGHT gparent (RB_SET_BLACKRED parent gparent h)) (\<lambda>(h, tmp).
        Inr (False, h, elm))))"

definition insert_color_right :: "elem \<Rightarrow> elem \<Rightarrow> elem \<Rightarrow> rb_heap \<Rightarrow> fault + (bool \<times> rb_heap \<times> elem)" where
  "insert_color_right gparent parent elm h =
     (let tmp = rbe_left h gparent in
      if is_red h tmp then
        let h = set_color (the tmp) RB_BLACK h
        in Inr (False, RB_SET_BLACKRED parent gparent h, gparent)
      else
        bindE (if rbe_left h parent = Some elm
               then bindE (RB_ROTATE_RIGHT parent h) (\<lambda>(h, tmp). Inr (h, elm, parent))
               else Inr (h, parent, elm)) (\<lambda>(h, parent, elm).
        bindE (RB_ROTATE_LEFT gparent (RB_SET_BLACKRED parent gparent h)) (\<lambda>(h, tmp).
        Inr (False, h, elm))))"

definition insert_color_round :: "rb_heap \<times> elem \<Rightarrow> fault + (bool \<times> rb_heap \<times> elem)" where
  "insert_color_round = (\<lambda>(h, elm).
     case rbe_parent h elm of
       None \<Rightarrow> Inr (True, h, elm)
     | Some parent \<Rightarrow>
         if rbe_color h parent \<noteq> RB_RED then Inr (True, h, elm)
         else
           bindE (the_ptr (rbe_parent h parent)) (\<lambda>gparent.
           if Some parent = rbe_left h gparent then insert_color_left gparent parent elm h
           else insert_color_right gparent parent elm h))"

definition RB_INSERT_COLOR :: "elem \<Rightarrow> rb_heap \<Rightarrow> fault + rb_heap" where
  "RB_INSERT_COLOR elm h =
     bindE (run_rounds insert_color_round (h, elm)) (\<lambda>(h, elm).
     bindE (the_ptr (rbh_root h)) (\<lambda>r. Inr (set_color r RB_BLACK h)))"

text \<open>The descent of \<^verbatim>\<open>RB_INSERT\<close>: the element with the key, or the last parent and comparison.\<close>

partial_function (option) insert_place ::
  "(elem \<Rightarrow> elem \<Rightarrow> int) \<Rightarrow> rb_heap \<Rightarrow> elem \<Rightarrow> elem option \<Rightarrow> elem option \<Rightarrow> int \<Rightarrow> (elem + (elem option \<times> int)) option" where
  "insert_place cmp h elm tmp parent way =
     (case tmp of
        None \<Rightarrow> Some (Inr (parent, way))
      | Some t \<Rightarrow>
          (let way = cmp elm t in
           if way < 0 then insert_place cmp h elm (rbe_left h t) (Some t) way
           else if way > 0 then insert_place cmp h elm (rbe_right h t) (Some t) way
           else Some (Inl t)))"

declare insert_place.simps [simp del]

definition RB_INSERT :: "(elem \<Rightarrow> elem \<Rightarrow> int) \<Rightarrow> elem \<Rightarrow> rb_heap \<Rightarrow> fault + (elem option \<times> rb_heap)" where
  "RB_INSERT cmp elm h =
     (case insert_place cmp h elm (rbh_root h) None 0 of
        None \<Rightarrow> Inl Diverges
      | Some (Inl t) \<Rightarrow> Inr (Some t, h)
      | Some (Inr (parent, way)) \<Rightarrow>
          let h = RB_SET elm parent h;
              h = (case parent of
                     None \<Rightarrow> set_root (Some elm) h
                   | Some p \<Rightarrow> (if way < 0 then set_left p (Some elm) h else set_right p (Some elm) h))
          in bindE (RB_INSERT_COLOR elm h) (\<lambda>h. Inr (None, h)))"

section \<open>Removing\<close>

text \<open>
  One round of the loop of \<^verbatim>\<open>RB_REMOVE_COLOR\<close>, from the head, \<^verbatim>\<open>parent\<close> and \<^verbatim>\<open>elm\<close>. The two halves
  of the body are for a left and for a right child.
\<close>

type_synonym rb_remove = "rb_heap \<times> elem option \<times> elem option"

definition set_black :: "elem option \<Rightarrow> rb_heap \<Rightarrow> rb_heap" where
  "set_black p h = (case p of None \<Rightarrow> h | Some a \<Rightarrow> set_color a RB_BLACK h)"

definition remove_color_left :: "elem \<Rightarrow> rb_heap \<Rightarrow> fault + (bool \<times> rb_remove)" where
  "remove_color_left parent h =
     bindE (the_ptr (rbe_right h parent)) (\<lambda>tmp.
     bindE (if rbe_color h tmp = RB_RED then
              bindE (RB_ROTATE_LEFT parent (RB_SET_BLACKRED tmp parent h)) (\<lambda>(h, tmp).
              bindE (the_ptr (rbe_right h parent)) (\<lambda>tmp. Inr (h, tmp)))
            else Inr (h, tmp)) (\<lambda>(h, tmp).
     if null_or_black h (rbe_left h tmp) \<and> null_or_black h (rbe_right h tmp) then
       let h = set_color tmp RB_RED h
       in Inr (False, h, rbe_parent h parent, Some parent)
     else
       bindE (if null_or_black h (rbe_right h tmp) then
                let h = set_color tmp RB_RED (set_black (rbe_left h tmp) h) in
                bindE (RB_ROTATE_RIGHT tmp h) (\<lambda>(h, oleft).
                bindE (the_ptr (rbe_right h parent)) (\<lambda>tmp. Inr (h, tmp)))
              else Inr (h, tmp)) (\<lambda>(h, tmp).
       let h = set_color parent RB_BLACK (set_color tmp (rbe_color h parent) h);
           h = set_black (rbe_right h tmp) h in
       bindE (RB_ROTATE_LEFT parent h) (\<lambda>(h, tmp).
       Inr (True, h, Some parent, rbh_root h)))))"

definition remove_color_right :: "elem \<Rightarrow> rb_heap \<Rightarrow> fault + (bool \<times> rb_remove)" where
  "remove_color_right parent h =
     bindE (the_ptr (rbe_left h parent)) (\<lambda>tmp.
     bindE (if rbe_color h tmp = RB_RED then
              bindE (RB_ROTATE_RIGHT parent (RB_SET_BLACKRED tmp parent h)) (\<lambda>(h, tmp).
              bindE (the_ptr (rbe_left h parent)) (\<lambda>tmp. Inr (h, tmp)))
            else Inr (h, tmp)) (\<lambda>(h, tmp).
     if null_or_black h (rbe_left h tmp) \<and> null_or_black h (rbe_right h tmp) then
       let h = set_color tmp RB_RED h
       in Inr (False, h, rbe_parent h parent, Some parent)
     else
       bindE (if null_or_black h (rbe_left h tmp) then
                let h = set_color tmp RB_RED (set_black (rbe_right h tmp) h) in
                bindE (RB_ROTATE_LEFT tmp h) (\<lambda>(h, oright).
                bindE (the_ptr (rbe_left h parent)) (\<lambda>tmp. Inr (h, tmp)))
              else Inr (h, tmp)) (\<lambda>(h, tmp).
       let h = set_color parent RB_BLACK (set_color tmp (rbe_color h parent) h);
           h = set_black (rbe_left h tmp) h in
       bindE (RB_ROTATE_RIGHT parent h) (\<lambda>(h, tmp).
       Inr (True, h, Some parent, rbh_root h)))))"

definition remove_color_round :: "rb_remove \<Rightarrow> fault + (bool \<times> rb_remove)" where
  "remove_color_round = (\<lambda>(h, parent, elm).
     if null_or_black h elm \<and> elm \<noteq> rbh_root h then
       bindE (the_ptr parent) (\<lambda>parent.
       if rbe_left h parent = elm then remove_color_left parent h else remove_color_right parent h)
     else Inr (True, h, parent, elm))"

definition RB_REMOVE_COLOR :: "elem option \<Rightarrow> elem option \<Rightarrow> rb_heap \<Rightarrow> fault + rb_heap" where
  "RB_REMOVE_COLOR parent elm h =
     bindE (run_rounds remove_color_round (h, parent, elm)) (\<lambda>(h, parent, elm). Inr (set_black elm h))"

definition loop_end :: "links \<Rightarrow> elem \<Rightarrow> fault + elem" where
  "loop_end link elm = (case last_link link elm of None \<Rightarrow> Inl Diverges | Some e \<Rightarrow> Inr e)"

text \<open>Taking out \<open>elm\<close>, which has at most the one child \<open>child\<close>.\<close>

definition cut_out :: "elem \<Rightarrow> elem option \<Rightarrow> elem option \<Rightarrow> rb_heap \<Rightarrow> rb_heap" where
  "cut_out elm child parent h =
     (let h = (case child of None \<Rightarrow> h | Some c \<Rightarrow> set_parent c parent h) in
      case parent of
        None \<Rightarrow> set_root child h
      | Some q \<Rightarrow> (if rbe_left h q = Some elm then set_left q child h else set_right q child h))"

text \<open>\<^verbatim>\<open>(elm)->field = (old)->field\<close>\<close>

definition copy_field :: "elem \<Rightarrow> elem \<Rightarrow> rb_heap \<Rightarrow> rb_heap" where
  "copy_field elm old h =
     set_color elm (rbe_color h old) (set_parent elm (rbe_parent h old)
       (set_right elm (rbe_right h old) (set_left elm (rbe_left h old) h)))"

text \<open>The case of two children: the next element takes the place of \<open>old\<close>.\<close>

definition remove_inner :: "elem \<Rightarrow> elem \<Rightarrow> rb_heap \<Rightarrow> fault + (rb_heap \<times> elem option \<times> elem option \<times> int)" where
  "remove_inner old rc h =
     bindE (loop_end (rbe_left h) rc) (\<lambda>elm.
     let child = rbe_right h elm;
         parent = rbe_parent h elm;
         color = rbe_color h elm;
         h = cut_out elm child parent h;
         parent = (if rbe_parent h elm = Some old then Some elm else parent);
         h = copy_field elm old h;
         h = relink old (Some elm) h in
     bindE (the_ptr (rbe_left h old)) (\<lambda>l.
     let h = set_parent l (Some elm) h;
         h = (case rbe_right h old of None \<Rightarrow> h | Some r \<Rightarrow> set_parent r (Some elm) h) in
     bindE (case parent of None \<Rightarrow> Inr elm | Some p \<Rightarrow> loop_end (rbe_parent h) p) (\<lambda>_.
     Inr (h, child, parent, color))))"

definition RB_REMOVE :: "elem \<Rightarrow> rb_heap \<Rightarrow> fault + (elem \<times> rb_heap)" where
  "RB_REMOVE old h =
     bindE (case (rbe_left h old, rbe_right h old) of
              (Some l, Some r) \<Rightarrow> remove_inner old r h
            | (lc, rc) \<Rightarrow>
                let child = (if lc = None then rc else lc);
                    parent = rbe_parent h old;
                    color = rbe_color h old
                in Inr (cut_out old child parent h, child, parent, color)) (\<lambda>(h, child, parent, color).
     bindE (if color = RB_BLACK then RB_REMOVE_COLOR parent child h else Inr h) (\<lambda>h. Inr (old, h)))"

section \<open>Searching\<close>

partial_function (option) rb_find ::
  "(elem \<Rightarrow> elem \<Rightarrow> int) \<Rightarrow> rb_heap \<Rightarrow> elem option \<Rightarrow> elem \<Rightarrow> (fault + elem option) option" where
  "rb_find cmp h tmp elm =
     (case tmp of
        None \<Rightarrow> Some (Inr None)
      | Some t \<Rightarrow>
          (let way = cmp elm t in
           if way < 0 then rb_find cmp h (rbe_left h t) elm
           else if way > 0 then rb_find cmp h (rbe_right h t) elm
           else Some (Inr (Some t))))"

declare rb_find.simps [simp del]

definition RB_FIND :: "(elem \<Rightarrow> elem \<Rightarrow> int) \<Rightarrow> elem \<Rightarrow> rb_heap \<Rightarrow> fault + elem option" where
  "RB_FIND cmp elm h = (case rb_find cmp h (rbh_root h) elm of None \<Rightarrow> Inl Diverges | Some r \<Rightarrow> r)"

partial_function (option) rb_nfind ::
  "(elem \<Rightarrow> elem \<Rightarrow> int) \<Rightarrow> rb_heap \<Rightarrow> elem \<Rightarrow> elem option \<Rightarrow> elem option \<Rightarrow> (fault + elem option) option" where
  "rb_nfind cmp h elm tmp res =
     (case tmp of
        None \<Rightarrow> Some (Inr res)
      | Some t \<Rightarrow>
          (let way = cmp elm t in
           if way < 0 then rb_nfind cmp h elm (rbe_left h t) (Some t)
           else if way > 0 then rb_nfind cmp h elm (rbe_right h t) res
           else Some (Inr (Some t))))"

declare rb_nfind.simps [simp del]

definition RB_NFIND :: "(elem \<Rightarrow> elem \<Rightarrow> int) \<Rightarrow> elem \<Rightarrow> rb_heap \<Rightarrow> fault + elem option" where
  "RB_NFIND cmp elm h = (case rb_nfind cmp h elm (rbh_root h) None of None \<Rightarrow> Inl Diverges | Some r \<Rightarrow> r)"

partial_function (option) rb_minmax :: "int \<Rightarrow> rb_heap \<Rightarrow> elem option \<Rightarrow> elem option \<Rightarrow> (fault + elem option) option" where
  "rb_minmax val h tmp parent =
     (case tmp of
        None \<Rightarrow> Some (Inr parent)
      | Some t \<Rightarrow> rb_minmax val h (if val < 0 then rbe_left h t else rbe_right h t) (Some t))"

declare rb_minmax.simps [simp del]

definition RB_MINMAX :: "int \<Rightarrow> rb_heap \<Rightarrow> fault + elem option" where
  "RB_MINMAX val h = (case rb_minmax val h (rbh_root h) None of None \<Rightarrow> Inl Diverges | Some r \<Rightarrow> r)"

definition RB_NEGINF :: int where "RB_NEGINF = -1"

definition RB_INF :: int where "RB_INF = 1"

section \<open>Going through the elements\<close>

text \<open>\<^verbatim>\<open>while (RB_PARENT(elm) && elm == link of RB_PARENT(elm)) elm = RB_PARENT(elm)\<close>\<close>

partial_function (option) climb :: "links \<Rightarrow> links \<Rightarrow> elem \<Rightarrow> elem option" where
  "climb par link elm =
     (case par elm of
        None \<Rightarrow> Some elm
      | Some q \<Rightarrow> (if link q = Some elm then climb par link q else Some elm))"

declare climb.simps [simp del]

definition rb_step :: "links \<Rightarrow> links \<Rightarrow> links \<Rightarrow> elem \<Rightarrow> fault + elem option" where
  "rb_step fwd bwd par elm =
     (case fwd elm of
        Some e \<Rightarrow> bindE (loop_end bwd e) (\<lambda>e. Inr (Some e))
      | None \<Rightarrow>
          (case par elm of
             Some q \<Rightarrow>
               (if bwd q = Some elm then Inr (Some q)
                else case climb par fwd elm of None \<Rightarrow> Inl Diverges | Some e \<Rightarrow> Inr (par e))
           | None \<Rightarrow> (case climb par fwd elm of None \<Rightarrow> Inl Diverges | Some e \<Rightarrow> Inr (par e))))"

definition RB_NEXT :: "elem \<Rightarrow> rb_heap \<Rightarrow> fault + elem option" where
  "RB_NEXT elm h = rb_step (rbe_right h) (rbe_left h) (rbe_parent h) elm"

definition RB_PREV :: "elem \<Rightarrow> rb_heap \<Rightarrow> fault + elem option" where
  "RB_PREV elm h = rb_step (rbe_left h) (rbe_right h) (rbe_parent h) elm"

text \<open>The loops \<^verbatim>\<open>RB_FOREACH\<close> and \<^verbatim>\<open>RB_FOREACH_REVERSE\<close>, with a body that notes the element.\<close>

partial_function (option) rb_visit ::
  "(elem \<Rightarrow> fault + elem option) \<Rightarrow> elem option \<Rightarrow> elem list \<Rightarrow> (fault + elem list) option" where
  "rb_visit nxt x seen =
     (case x of
        None \<Rightarrow> Some (Inr seen)
      | Some e \<Rightarrow> (case nxt e of Inl err \<Rightarrow> Some (Inl err) | Inr y \<Rightarrow> rb_visit nxt y (seen @ [e])))"

declare rb_visit.simps [simp del]

definition RB_FOREACH :: "rb_heap \<Rightarrow> fault + elem list" where
  "RB_FOREACH h =
     bindE (RB_MINMAX RB_NEGINF h) (\<lambda>x.
     case rb_visit (\<lambda>e. RB_NEXT e h) x [] of None \<Rightarrow> Inl Diverges | Some r \<Rightarrow> r)"

definition RB_FOREACH_REVERSE :: "rb_heap \<Rightarrow> fault + elem list" where
  "RB_FOREACH_REVERSE h =
     bindE (RB_MINMAX RB_INF h) (\<lambda>x.
     case rb_visit (\<lambda>e. RB_PREV e h) x [] of None \<Rightarrow> Inl Diverges | Some r \<Rightarrow> r)"

section \<open>Searching\<close>

definition rb_tree :: "rb_heap \<Rightarrow> elem tree \<Rightarrow> bool" where
  "rb_tree h t \<longleftrightarrow> tree_at (rbe_left h) (rbe_right h) (rbh_root h) t"

lemma rb_find_ok:
  assumes ord: "orders cmp key"
  shows "tree_at (rbe_left h) (rbe_right h) p t \<Longrightarrow> search_tree key t \<Longrightarrow>
    \<exists>res. rb_find cmp h p elm = Some (Inr res) \<and>
      (case res of Some x \<Rightarrow> x \<in> set_tree t \<and> key x = key elm | None \<Rightarrow> key elm \<notin> key ` set_tree t)"
proof (induction t arbitrary: p)
  case Leaf
  then show ?case by (simp add: rb_find.simps)
next
  case (Node l a r)
  note cmp = orders_cmp [OF ord, of elm a]
  have p: "p = Some a" and l: "tree_at (rbe_left h) (rbe_right h) (rbe_left h a) l"
    and r: "tree_at (rbe_left h) (rbe_right h) (rbe_right h a) r" and t: "search_tree key (Node l a r)"
    using Node.prems by simp_all
  consider "key elm = key a" | "key elm < key a" | "key a < key elm" by linarith
  then show ?case
  proof cases
    case 1
    then show ?thesis using cmp by (simp add: p rb_find.simps [of cmp h "Some a"])
  next
    case 2
    then have "rb_find cmp h p elm = rb_find cmp h (rbe_left h a) elm" using cmp by (simp add: p rb_find.simps [of cmp h "Some a"])
    moreover obtain res where "rb_find cmp h (rbe_left h a) elm = Some (Inr res)"
      "case res of Some x \<Rightarrow> x \<in> set_tree l \<and> key x = key elm | None \<Rightarrow> key elm \<notin> key ` set_tree l"
      using Node.IH(1) [OF l] t by auto
    moreover have "key elm \<notin> key ` set_tree r" using t 2 by fastforce
    ultimately show ?thesis using 2 by (auto split: option.splits)
  next
    case 3
    then have "rb_find cmp h p elm = rb_find cmp h (rbe_right h a) elm" using cmp by (simp add: p rb_find.simps [of cmp h "Some a"])
    moreover obtain res where "rb_find cmp h (rbe_right h a) elm = Some (Inr res)"
      "case res of Some x \<Rightarrow> x \<in> set_tree r \<and> key x = key elm | None \<Rightarrow> key elm \<notin> key ` set_tree r"
      using Node.IH(2) [OF r] t by auto
    moreover have "key elm \<notin> key ` set_tree l" using t 3 by fastforce
    ultimately show ?thesis using 3 by (auto split: option.splits)
  qed
qed

text \<open>The first element whose key is not below a given one.\<close>

definition first_from :: "(elem \<Rightarrow> int) \<Rightarrow> int \<Rightarrow> elem list \<Rightarrow> elem option" where
  "first_from key k xs = first_of (filter (\<lambda>x. k \<le> key x) xs)"

lemma first_from_append:
  "first_from key k (xs @ ys) = (case first_from key k xs of None \<Rightarrow> first_from key k ys | Some x \<Rightarrow> Some x)"
  by (auto simp: first_from_def first_of_def split: list.splits)

lemma first_from_Nil [simp]: "first_from key k [] = None"
  by (simp add: first_from_def first_of_def)

lemma first_from_Cons [simp]: "first_from key k (x # xs) = (if k \<le> key x then Some x else first_from key k xs)"
  by (simp add: first_from_def first_of_def)

lemma first_from_None: "(\<And>x. x \<in> set xs \<Longrightarrow> key x < k) \<Longrightarrow> first_from key k xs = None"
  by (induction xs) (simp_all add: not_le)

lemma rb_nfind_ok:
  assumes ord: "orders cmp key"
  shows "tree_at (rbe_left h) (rbe_right h) p t \<Longrightarrow> search_tree key t \<Longrightarrow>
    rb_nfind cmp h elm p res = Some (Inr (case first_from key (key elm) (inorder t) of None \<Rightarrow> res | Some x \<Rightarrow> Some x))"
proof (induction t arbitrary: p res)
  case Leaf
  then show ?case by (simp add: rb_nfind.simps)
next
  case (Node l a r)
  note cmp = orders_cmp [OF ord, of elm a]
  have p: "p = Some a" and l: "tree_at (rbe_left h) (rbe_right h) (rbe_left h a) l"
    and r: "tree_at (rbe_left h) (rbe_right h) (rbe_right h a) r" and t: "search_tree key (Node l a r)"
    using Node.prems by simp_all
  consider "key elm = key a" | "key elm < key a" | "key a < key elm" by linarith
  then show ?case
  proof cases
    case 1
    then have "first_from key (key elm) (inorder l) = None" using t by (intro first_from_None) auto
    then show ?thesis using 1 cmp by (simp add: p rb_nfind.simps [of cmp h elm "Some a"] first_from_append)
  next
    case 2
    then show ?thesis using cmp Node.IH(1) [OF l] t
      by (simp add: p rb_nfind.simps [of cmp h elm "Some a"] first_from_append split: option.splits)
  next
    case 3
    have "first_from key (key elm) (inorder l) = None" using t 3 by (intro first_from_None) fastforce
    then show ?thesis using 3 cmp Node.IH(2) [OF r] t
      by (simp add: p rb_nfind.simps [of cmp h elm "Some a"] first_from_append)
  qed
qed

lemma rb_minmax_ok:
  "tree_at (rbe_left h) (rbe_right h) p t \<Longrightarrow> rb_minmax val h p q = Some (Inr (
     if t = Leaf then q else if val < 0 then Some (hd (inorder t)) else Some (last (inorder t))))"
proof (induction t arbitrary: p q)
  case Leaf
  then show ?case by (simp add: rb_minmax.simps)
next
  case (Node l a r)
  then have p: "p = Some a" and l: "tree_at (rbe_left h) (rbe_right h) (rbe_left h a) l"
    and r: "tree_at (rbe_left h) (rbe_right h) (rbe_right h a) r" by simp_all
  have step: "rb_minmax val h p q = rb_minmax val h (if val < 0 then rbe_left h a else rbe_right h a) (Some a)"
    by (simp add: p rb_minmax.simps [of val h "Some a"])
  show ?case
  proof (cases "val < 0")
    case True
    with step Node.IH(1) [OF l, of "Some a"] show ?thesis by (cases l) (simp_all add: hd_append)
  next
    case False
    with step Node.IH(2) [OF r, of "Some a"] show ?thesis by (cases r) simp_all
  qed
qed

section \<open>Next and previous\<close>

fun parents_at :: "links \<Rightarrow> elem option \<Rightarrow> elem tree \<Rightarrow> bool" where
  "parents_at par q Leaf \<longleftrightarrow> True"
| "parents_at par q (Node l a r) \<longleftrightarrow> par a = q \<and> parents_at par (Some a) l \<and> parents_at par (Some a) r"

text \<open>
  \<open>RB_PREV\<close> is \<open>RB_NEXT\<close> of the mirrored tree: the links \<open>bwd\<close> lead to the smaller elements of
  the one and to the greater ones of the other.
\<close>

lemma last_suffix: "us @ vs = xs @ [e] \<Longrightarrow> vs \<noteq> [] \<Longrightarrow> \<exists>ys. vs = ys @ [e]"
  by (cases vs rule: rev_cases) auto

lemma last_in_right:
  assumes "inorder (Node l a r) = xs @ [e]" and "r \<noteq> Leaf"
  obtains ys where "inorder r = ys @ [e]"
  using last_suffix [of "inorder l @ [a]" "inorder r" xs e] assms by auto

lemma last_has_no_link: "tree_at bwd fwd p t \<Longrightarrow> inorder t = xs @ [e] \<Longrightarrow> fwd e = None"
proof (induction t arbitrary: p xs)
  case (Node l a r)
  show ?case
  proof (cases "r = Leaf")
    case True
    with Node.prems show ?thesis by simp
  next
    case False
    with Node.prems(2) obtain ys where "inorder r = ys @ [e]" by (rule last_in_right)
    with Node.IH(2) [of "fwd a" ys] Node.prems(1) show ?thesis by simp
  qed
qed simp

lemma climb_to_root:
  "tree_at bwd fwd (Some b) t \<Longrightarrow> parents_at par q t \<Longrightarrow> inorder t = xs @ [e] \<Longrightarrow> climb par fwd e = climb par fwd b"
proof (induction t arbitrary: b q xs)
  case (Node l a r)
  show ?case
  proof (cases r)
    case Leaf
    with Node.prems show ?thesis by simp
  next
    case (Node m c n)
    then have c: "fwd a = Some c" "par c = Some a" "tree_at bwd fwd (Some c) r" "parents_at par (Some a) r" "b = a"
      using Node.prems by auto
    obtain ys where "inorder r = ys @ [e]"
      by (rule last_in_right [OF Node.prems(3)]) (use Node in auto)
    with Node.IH(2) [OF c(3,4)] have "climb par fwd e = climb par fwd c" by blast
    also have "\<dots> = climb par fwd a" using c by (simp add: climb.simps [of par fwd c])
    finally show ?thesis using c(5) by simp
  qed
qed simp

text \<open>The walk without its first test, which the climb makes as well.\<close>

definition walk :: "links \<Rightarrow> links \<Rightarrow> links \<Rightarrow> elem \<Rightarrow> fault + elem option" where
  "walk fwd bwd par elm =
     (case fwd elm of
        Some e \<Rightarrow> bindE (loop_end bwd e) (\<lambda>e. Inr (Some e))
      | None \<Rightarrow> (case climb par fwd elm of None \<Rightarrow> Inl Diverges | Some e \<Rightarrow> Inr (par e)))"

lemma root_of_subtree: "tree_at bwd fwd p t \<Longrightarrow> p = Some a \<Longrightarrow> a \<in> set_tree t"
  by (cases t) auto

text \<open>An element is at most one child of at most one other element.\<close>

lemma no_share:
  assumes "tree_at bwd fwd p t" and "distinct (inorder t)" and "q \<in> set_tree t" and "bwd q = Some x"
  shows "fwd q \<noteq> Some x"
  using assms
proof (induction t arbitrary: p)
  case (Node l a r)
  show ?case
  proof (cases "q = a")
    case True
    with Node.prems have "x \<in> set_tree l" "\<And>y. fwd a = Some y \<Longrightarrow> y \<in> set_tree r"
      by (auto dest: root_of_subtree)
    with True Node.prems(2) show ?thesis by auto
  next
    case False
    with Node show ?thesis by auto
  qed
qed simp

lemma parent_in: "parents_at par q t \<Longrightarrow> e \<in> set_tree t \<Longrightarrow> par e = Some x \<Longrightarrow> x \<in> set_tree t \<or> q = Some x"
proof (induction t arbitrary: q)
  case (Node l a r)
  then consider "e = a" | "e \<in> set_tree l" | "e \<in> set_tree r" by auto
  then show ?case using Node by cases auto
qed simp

lemma rb_step_walk:
  assumes t: "tree_at bwd fwd p t" "distinct (inorder t)" "parents_at par None t" and e: "e \<in> set_tree t"
  shows "rb_step fwd bwd par e = walk fwd bwd par e"
proof (cases "par e")
  case None
  then show ?thesis by (cases "fwd e") (simp_all add: rb_step_def walk_def)
next
  case (Some q)
  then have "q \<in> set_tree t" using parent_in [OF t(3) e] by blast
  then have "climb par fwd e = Some e" if "bwd q = Some e"
    using no_share [OF t(1,2) _ that] Some by (simp add: climb.simps [of par fwd e])
  with Some show ?thesis by (simp add: rb_step_def walk_def split: option.split)
qed

lemma loop_end_first: "tree_at bwd fwd (Some b) t \<Longrightarrow> loop_end bwd b = Inr (hd (inorder t))"
  by (simp add: loop_end_def last_link_left)

lemma walk_inside:
  "tree_at bwd fwd p t \<Longrightarrow> parents_at par q t \<Longrightarrow> distinct (inorder t) \<Longrightarrow> inorder t = xs @ e # ys \<Longrightarrow> ys \<noteq> [] \<Longrightarrow>
   walk fwd bwd par e = Inr (Some (hd ys))"
proof (induction t arbitrary: p q xs ys)
  case (Node l a r)
  have l: "tree_at bwd fwd (bwd a) l" "parents_at par (Some a) l" and r: "tree_at bwd fwd (fwd a) r" "parents_at par (Some a) r"
    using Node.prems by simp_all
  have d: "distinct (inorder l @ a # inorder r)" using Node.prems(3) by simp
  have eq: "xs @ e # ys = inorder l @ a # inorder r" using Node.prems(4) by simp
  have d': "distinct (xs @ e # ys)" unfolding eq by (rule d)
  have "e \<in> set (inorder (Node l a r))" by (simp only: Node.prems(4)) simp
  then consider "e = a" | "e \<in> set_tree l" | "e \<in> set_tree r" by auto
  then show ?case
  proof cases
    case 1
    have "ys = inorder r"
      by (rule distinct_rest [OF d', of "inorder l"]) (use eq 1 in simp)
    then obtain b where "fwd a = Some b" using Node.prems(5) r(1) by (cases r) auto
    with r \<open>ys = inorder r\<close> 1 show ?thesis by (simp add: walk_def loop_end_first)
  next
    case 2
    then obtain us vs where l_split: "inorder l = us @ e # vs" by (metis set_inorder split_list)
    have ys: "ys = vs @ a # inorder r"
      by (rule distinct_rest [OF d', of us]) (simp add: eq l_split)
    show ?thesis
    proof (cases "vs = []")
      case False
      with Node.IH(1) [OF l _ l_split] d ys show ?thesis by simp
    next
      case True
      have none: "fwd e = None" using last_has_no_link [OF l(1)] l_split True by auto
      obtain b where b: "bwd a = Some b" "b \<in> set_tree l" "par b = Some a"
        using l 2 by (cases l) auto
      have "fwd a \<noteq> Some b" using b(2) d r(1) by (auto dest: root_of_subtree)
      then have "climb par fwd b = Some b" using b by (simp add: climb.simps [of par fwd b])
      moreover have "climb par fwd e = climb par fwd b"
        using climb_to_root [of bwd fwd b l par "Some a" us e] l b l_split True by simp
      ultimately show ?thesis using none b ys True by (simp add: walk_def)
    qed
  next
    case 3
    then obtain us vs where r_split: "inorder r = us @ e # vs" by (metis set_inorder split_list)
    have "ys = vs"
      by (rule distinct_rest [OF d', of "inorder l @ a # us"]) (simp add: eq r_split)
    with Node.IH(2) [OF r _ r_split] d Node.prems(5) show ?thesis by simp
  qed
qed simp

lemma walk_last:
  assumes t: "tree_at bwd fwd p t" "parents_at par None t" and e: "inorder t = xs @ [e]"
  shows "walk fwd bwd par e = Inr None"
proof -
  obtain l a r where [simp]: "t = Node l a r" using e by (cases t) auto
  have "fwd e = None" by (rule last_has_no_link [OF t(1) e])
  moreover have "climb par fwd e = climb par fwd a" using climb_to_root [of bwd fwd a t par None xs e] t e by simp
  moreover have "par a = None" using t(2) by simp
  ultimately show ?thesis by (simp add: walk_def climb.simps [of par fwd a])
qed

lemma rb_step_ok:
  assumes t: "tree_at bwd fwd p t" "distinct (inorder t)" "parents_at par None t" and e: "inorder t = xs @ e # ys"
  shows "rb_step fwd bwd par e = Inr (first_of ys)"
proof -
  have "e \<in> set_tree t" using e by (metis in_set_conv_decomp set_inorder)
  then have "rb_step fwd bwd par e = walk fwd bwd par e" by (rule rb_step_walk [OF t])
  also have "\<dots> = Inr (first_of ys)"
  proof (cases ys)
    case Nil
    with walk_last [OF t(1,3)] e show ?thesis by (simp add: first_of_def)
  next
    case (Cons y zs)
    with walk_inside [OF t(1,3,2) e] show ?thesis by (simp add: first_of_def)
  qed
  finally show ?thesis .
qed

lemma rb_visit_all:
  assumes nxt: "\<And>xs e ys. all = xs @ e # ys \<Longrightarrow> nxt e = Inr (first_of ys)"
  shows "all = seen @ ys \<Longrightarrow> rb_visit nxt (first_of ys) seen = Some (Inr all)"
proof (induction ys arbitrary: seen)
  case Nil
  then show ?case by (simp add: first_of_def rb_visit.simps)
next
  case (Cons y ys)
  then have "nxt y = Inr (first_of ys)" by (intro nxt)
  with Cons.IH [of "seen @ [y]"] Cons.prems show ?case
    by (subst rb_visit.simps) (simp add: first_of_def [of "y # ys"])
qed

text \<open>The mirrored tree.\<close>

lemma tree_at_mirror: "tree_at lf rt p t \<Longrightarrow> tree_at rt lf p (mirror t)"
  by (induction t arbitrary: p) auto

lemma parents_at_mirror: "parents_at par q t \<Longrightarrow> parents_at par q (mirror t)"
  by (induction t arbitrary: q) auto

lemma RB_FOREACH_ok:
  assumes t: "rb_tree h t" "distinct (inorder t)" "parents_at (rbe_parent h) None t"
  shows "RB_FOREACH h = Inr (inorder t)" and "RB_FOREACH_REVERSE h = Inr (rev (inorder t))"
proof -
  have lr: "tree_at (rbe_left h) (rbe_right h) (rbh_root h) t" using t(1) by (simp add: rb_tree_def)
  have min: "RB_MINMAX RB_NEGINF h = Inr (first_of (inorder t))"
    using rb_minmax_ok [OF lr] by (cases "inorder t") (auto simp: RB_MINMAX_def RB_NEGINF_def first_of_def)
  have "RB_NEXT e h = Inr (first_of ys)" if "inorder t = xs @ e # ys" for xs e ys
    unfolding RB_NEXT_def by (rule rb_step_ok [OF lr t(2,3) that])
  from rb_visit_all [where seen = "[]" and ys = "inorder t", OF this] show "RB_FOREACH h = Inr (inorder t)"
    by (simp add: RB_FOREACH_def min)
  have max: "RB_MINMAX RB_INF h = Inr (first_of (rev (inorder t)))"
    using rb_minmax_ok [OF lr, of RB_INF None]
    by (cases "inorder t" rule: rev_cases) (auto simp: RB_MINMAX_def RB_INF_def first_of_def)
  have "RB_PREV e h = Inr (first_of ys)" if "inorder (mirror t) = xs @ e # ys" for xs e ys
    unfolding RB_PREV_def
    by (rule rb_step_ok [OF tree_at_mirror [OF lr] _ parents_at_mirror [OF t(3)] that]) (simp add: t(2) inorder_mirror)
  from rb_visit_all [where seen = "[]" and ys = "inorder (mirror t)", OF this] show "RB_FOREACH_REVERSE h = Inr (rev (inorder t))"
    by (simp add: RB_FOREACH_REVERSE_def max inorder_mirror)
qed

section \<open>A sample\<close>

definition sample_rb :: rb_heap where
  "sample_rb = \<lparr>rbh_root = Some 4, rbe_left = [4 \<mapsto> 2], rbe_right = [4 \<mapsto> 6],
     rbe_parent = [2 \<mapsto> 4, 6 \<mapsto> 4], rbe_color = (\<lambda>a. if a = 4 then RB_BLACK else RB_RED)\<rparr>"

lemma sample_rb_facts:
  "orders sample_cmp int" "rb_tree sample_rb sample_tree" "search_tree int sample_tree"
  "parents_at (rbe_parent sample_rb) None sample_tree"
  by (simp_all add: orders_def sample_cmp_def rb_tree_def sample_rb_def sample_tree_def)

section \<open>Properties\<close>

text \<open>Searching a red-black tree. On every search tree \<^verbatim>\<open>RB_FIND\<close> ends with the element that has the
  key sought, if there is one, and \<^verbatim>\<open>RB_NFIND\<close> with the first element whose key is not below it.\<close>

theorem rb_search_correct:
  assumes "orders cmp key" and "rb_tree h t" and "search_tree key t"
  shows "\<exists>res. RB_FIND cmp elm h = Inr res \<and>
      (case res of Some x \<Rightarrow> x \<in> set_tree t \<and> key x = key elm | None \<Rightarrow> key elm \<notin> key ` set_tree t) \<and>
    RB_NFIND cmp elm h = Inr (first_from key (key elm) (inorder t))"
proof -
  have lr: "tree_at (rbe_left h) (rbe_right h) (rbh_root h) t" using assms(2) by (simp add: rb_tree_def)
  obtain res where "rb_find cmp h (rbh_root h) elm = Some (Inr res)"
    "case res of Some x \<Rightarrow> x \<in> set_tree t \<and> key x = key elm | None \<Rightarrow> key elm \<notin> key ` set_tree t"
    using rb_find_ok [OF assms(1) lr assms(3)] by blast
  then show ?thesis
    using rb_nfind_ok [OF assms(1) lr assms(3), of elm None]
    by (intro exI [of _ res]) (auto simp: RB_FIND_def RB_NFIND_def split: option.split)
qed

theorem rb_search_correct_witness:
  "\<exists>res. RB_FIND sample_cmp 5 sample_rb = Inr res \<and>
      (case res of Some x \<Rightarrow> x \<in> set_tree sample_tree \<and> int x = int 5 | None \<Rightarrow> int 5 \<notin> int ` set_tree sample_tree) \<and>
    RB_NFIND sample_cmp 5 sample_rb = Inr (first_from int (int 5) (inorder sample_tree))"
  by (rule rb_search_correct [OF sample_rb_facts(1-3)])

text \<open>Going through a red-black tree. On every linked tree of different elements \<^verbatim>\<open>RB_FOREACH\<close> ends
  and visits every element once, in order, and \<^verbatim>\<open>RB_FOREACH_REVERSE\<close> in the opposite order.\<close>

theorem rb_foreach_in_order:
  assumes "rb_tree h t" and "distinct (inorder t)" and "parents_at (rbe_parent h) None t"
  shows "RB_FOREACH h = Inr (inorder t) \<and> RB_FOREACH_REVERSE h = Inr (rev (inorder t))"
  using RB_FOREACH_ok [OF assms] by simp

theorem rb_foreach_in_order_witness:
  "RB_FOREACH sample_rb = Inr (inorder sample_tree) \<and> RB_FOREACH_REVERSE sample_rb = Inr (rev (inorder sample_tree))"
  by (rule rb_foreach_in_order [OF sample_rb_facts(2) search_tree_distinct [OF sample_rb_facts(3)] sample_rb_facts(4)])

end
