(* ===== verification/Uv_Rb_Focus.thy ===== *)
theory Uv_Rb_Focus
  imports Uv_Rb_Tree
begin

text \<open>
  A red-black tree of src/include/uv/tree.h seen from a place inside it: the subtree at the place
  and the path from it up to the head. The links to the parents make the two descriptions, of
  the whole tree and of the tree around a place, the same predicate on the heap, and a rotation
  changes only the subtree. The colours are a function on the elements, apart from the shape.
\<close>

section \<open>Places in a tree\<close>

definition root_ptr :: "elem tree \<Rightarrow> elem option" where
  "root_ptr t = (case t of Leaf \<Rightarrow> None | Node _ a _ \<Rightarrow> Some a)"

lemma root_ptr_simps [simp]: "root_ptr Leaf = None" "root_ptr (Node l a r) = Some a"
  by (simp_all add: root_ptr_def)

lemma root_ptr_None [simp]: "root_ptr t = None \<longleftrightarrow> t = Leaf" "None = root_ptr t \<longleftrightarrow> t = Leaf"
  by (cases t; simp)+

lemma root_ptr_in: "root_ptr t = Some a \<Longrightarrow> a \<in> set_tree t"
  by (cases t) auto

text \<open>The tree, with the links to the parents, below the parent \<open>q\<close>.\<close>

fun sub_at :: "rb_heap \<Rightarrow> elem option \<Rightarrow> elem tree \<Rightarrow> bool" where
  "sub_at h q Leaf \<longleftrightarrow> True"
| "sub_at h q (Node l a r) \<longleftrightarrow> rbe_parent h a = q \<and> rbe_left h a = root_ptr l \<and> rbe_right h a = root_ptr r \<and>
     sub_at h (Some a) l \<and> sub_at h (Some a) r"

lemma tree_at_root: "tree_at lf rt p t \<Longrightarrow> p = root_ptr t"
  by (cases t) auto

lemma tree_at_Node_root:
  "tree_at lf rt (Some a) (Node l a r) \<longleftrightarrow>
     lf a = root_ptr l \<and> rt a = root_ptr r \<and> tree_at lf rt (root_ptr l) l \<and> tree_at lf rt (root_ptr r) r"
  using tree_at_root [of lf rt "lf a" l] tree_at_root [of lf rt "rt a" r] by auto

lemma sub_at_iff:
  "sub_at h q t \<longleftrightarrow> tree_at (rbe_left h) (rbe_right h) (root_ptr t) t \<and> parents_at (rbe_parent h) q t"
proof (induction t arbitrary: q)
  case (Node l a r)
  then show ?case by (simp only: sub_at.simps root_ptr_simps tree_at_Node_root parents_at.simps) blast
qed simp

text \<open>One step of the path: from a left or from a right child to its parent.\<close>

datatype frame = From_left elem "elem tree" | From_right "elem tree" elem

fun plug :: "frame list \<Rightarrow> elem tree \<Rightarrow> elem tree" where
  "plug [] t = t"
| "plug (From_left a r # cs) t = plug cs (Node t a r)"
| "plug (From_right l a # cs) t = plug cs (Node l a t)"

definition hole_parent :: "frame list \<Rightarrow> elem option" where
  "hole_parent cs = (case cs of [] \<Rightarrow> None | From_left a _ # _ \<Rightarrow> Some a | From_right _ a # _ \<Rightarrow> Some a)"

lemma hole_parent_simps [simp]:
  "hole_parent [] = None" "hole_parent (From_left a r # cs) = Some a" "hole_parent (From_right l a # cs) = Some a"
  by (simp_all add: hole_parent_def)

lemma hole_parent_None [simp]: "hole_parent cs = None \<longleftrightarrow> cs = []"
proof (cases cs)
  case (Cons f fs)
  then show ?thesis by (cases f) auto
qed simp

fun ctx_at :: "rb_heap \<Rightarrow> frame list \<Rightarrow> elem option \<Rightarrow> bool" where
  "ctx_at h [] p \<longleftrightarrow> rbh_root h = p"
| "ctx_at h (From_left a r # cs) p \<longleftrightarrow> rbe_left h a = p \<and> rbe_right h a = root_ptr r \<and> sub_at h (Some a) r \<and>
     rbe_parent h a = hole_parent cs \<and> ctx_at h cs (Some a)"
| "ctx_at h (From_right l a # cs) p \<longleftrightarrow> rbe_left h a = root_ptr l \<and> rbe_right h a = p \<and> sub_at h (Some a) l \<and>
     rbe_parent h a = hole_parent cs \<and> ctx_at h cs (Some a)"

fun before :: "frame list \<Rightarrow> elem list" where
  "before [] = []"
| "before (From_left a r # cs) = before cs"
| "before (From_right l a # cs) = before cs @ inorder l @ [a]"

fun behind :: "frame list \<Rightarrow> elem list" where
  "behind [] = []"
| "behind (From_left a r # cs) = a # inorder r @ behind cs"
| "behind (From_right l a # cs) = behind cs"

lemma inorder_at_place [simp]: "inorder (plug cs t) = before cs @ inorder t @ behind cs"
  by (induction cs t rule: plug.induct) auto

lemma set_plug [simp]: "set_tree (plug cs t) = set (before cs) \<union> set_tree t \<union> set (behind cs)"
  by (simp only: set_inorder [symmetric] inorder_at_place) auto

text \<open>The subtree \<open>t\<close> at the place \<open>cs\<close> of the tree in the heap.\<close>

definition located :: "rb_heap \<Rightarrow> frame list \<Rightarrow> elem tree \<Rightarrow> bool" where
  "located h cs t \<longleftrightarrow> ctx_at h cs (root_ptr t) \<and> sub_at h (hole_parent cs) t \<and> distinct (inorder (plug cs t))"

lemma located_From_left [simp]: "located h (From_left a r # cs) t \<longleftrightarrow> located h cs (Node t a r)"
  by (auto simp: located_def)

lemma located_From_right [simp]: "located h (From_right l a # cs) t \<longleftrightarrow> located h cs (Node l a t)"
  by (auto simp: located_def)

lemma located_plug: "located h cs t \<longleftrightarrow> located h [] (plug cs t)"
  by (induction cs t rule: plug.induct) simp_all

lemma located_tree:
  "located h [] t \<longleftrightarrow> rb_tree h t \<and> parents_at (rbe_parent h) None t \<and> distinct (inorder t)"
  using tree_at_root [of "rbe_left h" "rbe_right h" "rbh_root h" t]
  by (simp add: located_def sub_at_iff rb_tree_def) metis

lemma located_root: "located h [] t \<Longrightarrow> rbh_root h = root_ptr t"
  by (simp add: located_def)

lemma located_links:
  assumes "located h cs (Node l a r)"
  shows "rbe_left h a = root_ptr l" and "rbe_right h a = root_ptr r" and "rbe_parent h a = hole_parent cs"
  using assms by (simp_all add: located_def)

text \<open>Only the outermost place has the root of the tree.\<close>

lemma ctx_root: "ctx_at h cs p \<Longrightarrow> cs \<noteq> [] \<Longrightarrow> \<exists>a \<in> set (before cs) \<union> set (behind cs). rbh_root h = Some a"
proof (induction h cs p rule: ctx_at.induct)
  case (2 h a r cs p)
  then show ?case by (cases "cs = []") auto
next
  case (3 h l a cs p)
  then show ?case by (cases "cs = []") auto
qed simp

lemma located_at_root: "located h cs t \<Longrightarrow> root_ptr t = rbh_root h \<longleftrightarrow> cs = []"
proof
  assume l: "located h cs t" and root: "root_ptr t = rbh_root h"
  show "cs = []"
  proof (rule ccontr)
    assume "cs \<noteq> []"
    with l obtain a where "a \<in> set (before cs) \<union> set (behind cs)" "rbh_root h = Some a"
      using ctx_root [of h cs] unfolding located_def by blast
    with l root root_ptr_in [of t a] show False by (auto simp: located_def)
  qed
qed (simp add: located_def)

section \<open>Writing to a tree in the heap\<close>

lemma set_fields [simp]:
  "rbe_left (set_left a p h) = (rbe_left h)(a := p)" "rbe_right (set_left a p h) = rbe_right h"
  "rbe_parent (set_left a p h) = rbe_parent h" "rbe_color (set_left a p h) = rbe_color h" "rbh_root (set_left a p h) = rbh_root h"
  "rbe_left (set_right a p h) = rbe_left h" "rbe_right (set_right a p h) = (rbe_right h)(a := p)"
  "rbe_parent (set_right a p h) = rbe_parent h" "rbe_color (set_right a p h) = rbe_color h" "rbh_root (set_right a p h) = rbh_root h"
  "rbe_left (set_parent a p h) = rbe_left h" "rbe_right (set_parent a p h) = rbe_right h"
  "rbe_parent (set_parent a p h) = (rbe_parent h)(a := p)" "rbe_color (set_parent a p h) = rbe_color h"
  "rbh_root (set_parent a p h) = rbh_root h"
  "rbe_left (set_color a c h) = rbe_left h" "rbe_right (set_color a c h) = rbe_right h"
  "rbe_parent (set_color a c h) = rbe_parent h" "rbe_color (set_color a c h) = (rbe_color h)(a := c)"
  "rbh_root (set_color a c h) = rbh_root h"
  "rbe_left (set_root p h) = rbe_left h" "rbe_right (set_root p h) = rbe_right h"
  "rbe_parent (set_root p h) = rbe_parent h" "rbe_color (set_root p h) = rbe_color h" "rbh_root (set_root p h) = p"
  by (simp_all add: rb_sets)

lemma sub_at_cong:
  "(\<And>a. a \<in> set_tree t \<Longrightarrow> rbe_left h' a = rbe_left h a \<and> rbe_right h' a = rbe_right h a \<and> rbe_parent h' a = rbe_parent h a) \<Longrightarrow>
   sub_at h' q t = sub_at h q t"
  by (induction t arbitrary: q) auto

lemma sub_at_sets [simp]:
  "a \<notin> set_tree t \<Longrightarrow> sub_at (set_left a p h) q t = sub_at h q t"
  "a \<notin> set_tree t \<Longrightarrow> sub_at (set_right a p h) q t = sub_at h q t"
  "a \<notin> set_tree t \<Longrightarrow> sub_at (set_parent a p h) q t = sub_at h q t"
  "sub_at (set_color a c h) q t = sub_at h q t"
  "sub_at (set_root p h) q t = sub_at h q t"
  by (rule sub_at_cong; auto)+

lemma ctx_at_cong:
  "(\<And>a. a \<in> set (before cs) \<union> set (behind cs) \<Longrightarrow>
     rbe_left h' a = rbe_left h a \<and> rbe_right h' a = rbe_right h a \<and> rbe_parent h' a = rbe_parent h a) \<Longrightarrow>
   rbh_root h' = rbh_root h \<Longrightarrow> ctx_at h' cs p = ctx_at h cs p"
proof (induction h cs p rule: ctx_at.induct)
  case (2 h a r cs p)
  then show ?case using sub_at_cong [of r h' h] by auto
next
  case (3 h l a cs p)
  then show ?case using sub_at_cong [of l h' h] by auto
qed simp

lemma ctx_at_sets [simp]:
  "a \<notin> set (before cs) \<Longrightarrow> a \<notin> set (behind cs) \<Longrightarrow> ctx_at (set_left a x h) cs p = ctx_at h cs p"
  "a \<notin> set (before cs) \<Longrightarrow> a \<notin> set (behind cs) \<Longrightarrow> ctx_at (set_right a x h) cs p = ctx_at h cs p"
  "a \<notin> set (before cs) \<Longrightarrow> a \<notin> set (behind cs) \<Longrightarrow> ctx_at (set_parent a x h) cs p = ctx_at h cs p"
  "ctx_at (set_color a c h) cs p = ctx_at h cs p"
  by (rule ctx_at_cong; auto)+

lemma located_set_color [simp]: "located (set_color a c h) cs t = located h cs t"
  by (simp add: located_def)

lemma located_BLACKRED [simp]: "located (RB_SET_BLACKRED a b h) cs t = located h cs t"
  by (simp add: RB_SET_BLACKRED_def)

text \<open>A child gets a new parent.\<close>

lemma sub_at_new_parent [simp]:
  "sub_at h q t \<Longrightarrow> distinct (inorder t) \<Longrightarrow> root_ptr t = Some a \<Longrightarrow> sub_at (set_parent a p h) p t"
  by (cases t) auto

text \<open>The link that leads to the place.\<close>

lemma relink_fields [simp]:
  "rbe_parent (relink a p h) = rbe_parent h" "rbe_color (relink a p h) = rbe_color h"
  by (simp_all add: relink_def split: option.split)

lemma relink_at:
  assumes "ctx_at h cs (Some x)" and "rbe_parent h x = hole_parent cs"
    and "x \<notin> set (before cs) \<union> set (behind cs)" and "distinct (before cs @ behind cs)"
  shows "ctx_at (relink x p h) cs p"
    and "set_tree t \<inter> (set (before cs) \<union> set (behind cs)) = {} \<Longrightarrow> sub_at (relink x p h) q t = sub_at h q t"
proof -
  have "ctx_at (relink x p h) cs p \<and>
    (set_tree t \<inter> (set (before cs) \<union> set (behind cs)) = {} \<longrightarrow> sub_at (relink x p h) q t = sub_at h q t)"
  proof (cases cs)
    case Nil
    with assms show ?thesis by (simp add: relink_def)
  next
    case (Cons f fs)
    show ?thesis
    proof (cases f)
      case (From_left a r)
      with assms Cons show ?thesis by (auto simp: relink_def)
    next
      case (From_right l a)
      then have "root_ptr l \<noteq> Some x" using assms(3) Cons root_ptr_in [of l x] by auto
      with assms Cons From_right show ?thesis by (auto simp: relink_def)
    qed
  qed
  then show "ctx_at (relink x p h) cs p"
    and "set_tree t \<inter> (set (before cs) \<union> set (behind cs)) = {} \<Longrightarrow> sub_at (relink x p h) q t = sub_at h q t" by auto
qed

lemma relink_links:
  assumes "rbe_parent h x = hole_parent cs" and "a \<notin> set (before cs) \<union> set (behind cs)"
  shows "rbe_left (relink x p h) a = rbe_left h a" and "rbe_right (relink x p h) a = rbe_right h a"
proof -
  have "hole_parent cs = Some q \<Longrightarrow> q \<in> set (before cs) \<union> set (behind cs)" for q
    by (induction cs rule: before.induct) auto
  with assms show "rbe_left (relink x p h) a = rbe_left h a" and "rbe_right (relink x p h) a = rbe_right h a"
    by (auto simp: relink_def split: option.split)
qed

section \<open>Rotations\<close>

text \<open>The child that changes sides.\<close>

definition adopt :: "elem tree \<Rightarrow> elem \<Rightarrow> rb_heap \<Rightarrow> rb_heap" where
  "adopt t q h = (case root_ptr t of None \<Rightarrow> h | Some c \<Rightarrow> set_parent c (Some q) h)"

lemma adopt_fields [simp]:
  "rbe_left (adopt t q h) = rbe_left h" "rbe_right (adopt t q h) = rbe_right h" "rbe_color (adopt t q h) = rbe_color h"
  "a \<notin> set_tree t \<Longrightarrow> rbe_parent (adopt t q h) a = rbe_parent h a"
  by (auto simp: adopt_def split: option.split dest: root_ptr_in)

lemma adopt_at [simp]:
  "sub_at h q' t \<Longrightarrow> distinct (inorder t) \<Longrightarrow> sub_at (adopt t q h) (Some q) t"
  "set_tree t \<inter> set_tree t' = {} \<Longrightarrow> sub_at (adopt t q h) p t' = sub_at h p t'"
  "set_tree t \<inter> (set (before cs) \<union> set (behind cs)) = {} \<Longrightarrow> ctx_at (adopt t q h) cs p' = ctx_at h cs p'"
  by (cases t; auto simp: adopt_def)+

lemma RB_ROTATE_LEFT_ok:
  assumes loc: "located h cs (Node a x (Node b y c))"
  obtains h' where "RB_ROTATE_LEFT x h = Inr (h', y)" and "located h' cs (Node (Node a x b) y c)"
    and "rbe_color h' = rbe_color h"
proof -
  let ?h3 = "set_parent y (hole_parent cs) (adopt b x (set_right x (root_ptr b) h))"
  let ?h4 = "relink x (Some y) ?h3"
  let ?h' = "set_parent x (Some y) (set_left y (Some x) ?h4)"
  have d: "distinct (before cs @ (inorder a @ x # inorder b @ y # inorder c) @ behind cs)"
    and ctx: "ctx_at h cs (Some x)" and x: "rbe_left h x = root_ptr a" "rbe_right h x = Some y" "rbe_parent h x = hole_parent cs"
    and y: "rbe_left h y = root_ptr b" "rbe_right h y = root_ptr c" "rbe_parent h y = Some x"
    and subs: "sub_at h (Some x) a" "sub_at h (Some y) b" "sub_at h (Some y) c"
    using loc by (simp_all add: located_def)
  have d': "x \<noteq> y" "x \<notin> set_tree a" "x \<notin> set_tree b" "x \<notin> set_tree c" "y \<notin> set_tree a" "y \<notin> set_tree b" "y \<notin> set_tree c"
    "set_tree a \<inter> set_tree b = {}" "set_tree b \<inter> set_tree a = {}" "set_tree b \<inter> set_tree c = {}"
    "x \<notin> set (before cs) \<union> set (behind cs)" "y \<notin> set (before cs) \<union> set (behind cs)"
    "set_tree a \<inter> (set (before cs) \<union> set (behind cs)) = {}" "set_tree b \<inter> (set (before cs) \<union> set (behind cs)) = {}"
    "set_tree c \<inter> (set (before cs) \<union> set (behind cs)) = {}" "distinct (before cs @ behind cs)" "distinct (inorder b)"
    using d by auto
  have ctx3: "ctx_at ?h3 cs (Some x)" "rbe_parent ?h3 x = hole_parent cs" using ctx d' x by simp_all
  note relink = relink_at [OF ctx3 d'(11,16)] relink_links [OF ctx3(2)]
  have "RB_ROTATE_LEFT x h = Inr (?h', y)"
    using d' x y by (simp add: RB_ROTATE_LEFT_def Let_def adopt_def [symmetric])
  moreover have "located ?h' cs (Node (Node a x b) y c)"
    using d d' x y subs by (simp add: located_def relink)
  moreover have "rbe_color ?h' = rbe_color h" by simp
  ultimately show thesis by (rule that)
qed

lemma RB_ROTATE_RIGHT_ok:
  assumes loc: "located h cs (Node (Node c y b) x a)"
  obtains h' where "RB_ROTATE_RIGHT x h = Inr (h', y)" and "located h' cs (Node c y (Node b x a))"
    and "rbe_color h' = rbe_color h"
proof -
  let ?h3 = "set_parent y (hole_parent cs) (adopt b x (set_left x (root_ptr b) h))"
  let ?h4 = "relink x (Some y) ?h3"
  let ?h' = "set_parent x (Some y) (set_right y (Some x) ?h4)"
  have d: "distinct (before cs @ ((inorder c @ y # inorder b) @ x # inorder a) @ behind cs)"
    and ctx: "ctx_at h cs (Some x)" and x: "rbe_right h x = root_ptr a" "rbe_left h x = Some y" "rbe_parent h x = hole_parent cs"
    and y: "rbe_right h y = root_ptr b" "rbe_left h y = root_ptr c" "rbe_parent h y = Some x"
    and subs: "sub_at h (Some x) a" "sub_at h (Some y) b" "sub_at h (Some y) c"
    using loc by (simp_all add: located_def)
  have d': "x \<noteq> y" "x \<notin> set_tree a" "x \<notin> set_tree b" "x \<notin> set_tree c" "y \<notin> set_tree a" "y \<notin> set_tree b" "y \<notin> set_tree c"
    "set_tree a \<inter> set_tree b = {}" "set_tree b \<inter> set_tree a = {}" "set_tree b \<inter> set_tree c = {}"
    "x \<notin> set (before cs) \<union> set (behind cs)" "y \<notin> set (before cs) \<union> set (behind cs)"
    "set_tree a \<inter> (set (before cs) \<union> set (behind cs)) = {}" "set_tree b \<inter> (set (before cs) \<union> set (behind cs)) = {}"
    "set_tree c \<inter> (set (before cs) \<union> set (behind cs)) = {}" "distinct (before cs @ behind cs)" "distinct (inorder b)"
    using d by auto
  have ctx3: "ctx_at ?h3 cs (Some x)" "rbe_parent ?h3 x = hole_parent cs" using ctx d' x by simp_all
  note relink = relink_at [OF ctx3 d'(11,16)] relink_links [OF ctx3(2)]
  have "RB_ROTATE_RIGHT x h = Inr (?h', y)"
    using d' x y by (simp add: RB_ROTATE_RIGHT_def Let_def adopt_def [symmetric])
  moreover have "located ?h' cs (Node c y (Node b x a))"
    using d d' x y subs by (simp add: located_def relink)
  moreover have "rbe_color ?h' = rbe_color h" by simp
  ultimately show thesis by (rule that)
qed

end
