(* ===== verification/Uv_Rb_Balance.thy ===== *)
theory Uv_Rb_Balance
  imports Uv_Rb_Focus
begin

text \<open>
  The colours of the red-black trees of src/include/uv/tree.h and the two sides of their
  operations. The bodies of \<^verbatim>\<open>RB_INSERT_COLOR\<close> and \<^verbatim>\<open>RB_REMOVE_COLOR\<close> hold every case twice, with left
  and right exchanged: the locale \<open>rb_side\<close> says what one side needs to know of its near and far
  links and its two rotations, and is interpreted once for each.
\<close>

section \<open>Colours\<close>

definition black_root :: "(elem \<Rightarrow> int) \<Rightarrow> elem tree \<Rightarrow> bool" where
  "black_root c t = (case t of Leaf \<Rightarrow> True | Node _ a _ \<Rightarrow> c a = RB_BLACK)"

lemma black_root_simps [simp]: "black_root c Leaf" "black_root c (Node l a r) \<longleftrightarrow> c a = RB_BLACK"
  by (simp_all add: black_root_def)

lemma colors_differ [simp]: "RB_RED \<noteq> RB_BLACK" "RB_BLACK \<noteq> RB_RED"
  by (simp_all add: RB_RED_def RB_BLACK_def)

text \<open>Every path to a leaf has \<open>n\<close> black elements, and no red element has a red child.\<close>

fun colored :: "(elem \<Rightarrow> int) \<Rightarrow> elem tree \<Rightarrow> nat \<Rightarrow> bool" where
  "colored c Leaf n \<longleftrightarrow> n = 0"
| "colored c (Node l a r) n \<longleftrightarrow>
     (if c a = RB_RED then black_root c l \<and> black_root c r \<and> colored c l n \<and> colored c r n
      else c a = RB_BLACK \<and> 0 < n \<and> colored c l (n - 1) \<and> colored c r (n - 1))"

text \<open>The same without a condition on the colour of the root and its children.\<close>

definition nearly :: "(elem \<Rightarrow> int) \<Rightarrow> elem tree \<Rightarrow> nat \<Rightarrow> bool" where
  "nearly c t n = (case t of
     Leaf \<Rightarrow> n = 0
   | Node l a r \<Rightarrow> if c a = RB_RED then colored c l n \<and> colored c r n else colored c t n)"

lemma nearly_simps [simp]:
  "nearly c Leaf n \<longleftrightarrow> n = 0"
  "c a = RB_RED \<Longrightarrow> nearly c (Node l a r) n \<longleftrightarrow> colored c l n \<and> colored c r n"
  "c a = RB_BLACK \<Longrightarrow> nearly c (Node l a r) n \<longleftrightarrow> 0 < n \<and> colored c l (n - 1) \<and> colored c r (n - 1)"
  by (simp_all add: nearly_def)

lemma colored_nearly: "colored c t n \<Longrightarrow> nearly c t n"
  by (cases t) (auto simp: nearly_def split: if_splits)

lemma colored_color: "colored c (Node l a r) n \<Longrightarrow> c a = RB_RED \<or> c a = RB_BLACK"
  by (auto split: if_splits)

text \<open>The path above a subtree of black height \<open>n\<close>, whose root must be black if the path ends in a red element.\<close>

definition black_top :: "(elem \<Rightarrow> int) \<Rightarrow> frame list \<Rightarrow> bool" where
  "black_top c cs = (case hole_parent cs of None \<Rightarrow> True | Some a \<Rightarrow> c a = RB_BLACK)"

lemma black_top_simps [simp]:
  "black_top c []" "black_top c (From_left a r # cs) \<longleftrightarrow> c a = RB_BLACK" "black_top c (From_right l a # cs) \<longleftrightarrow> c a = RB_BLACK"
  by (simp_all add: black_top_def)

definition colored_step :: "(elem \<Rightarrow> int) \<Rightarrow> elem \<Rightarrow> elem tree \<Rightarrow> frame list \<Rightarrow> nat \<Rightarrow> bool" where
  "colored_step c a s cs n \<longleftrightarrow> colored c s n \<and>
     (if c a = RB_RED then black_root c s \<and> cs \<noteq> [] \<and> black_top c cs else c a = RB_BLACK)"

fun colored_ctx :: "(elem \<Rightarrow> int) \<Rightarrow> frame list \<Rightarrow> nat \<Rightarrow> bool" where
  "colored_ctx c [] n \<longleftrightarrow> True"
| "colored_ctx c (From_left a r # cs) n \<longleftrightarrow>
     colored_step c a r cs n \<and> colored_ctx c cs (if c a = RB_RED then n else Suc n)"
| "colored_ctx c (From_right l a # cs) n \<longleftrightarrow>
     colored_step c a l cs n \<and> colored_ctx c cs (if c a = RB_RED then n else Suc n)"

definition red_black :: "(elem \<Rightarrow> int) \<Rightarrow> elem tree \<Rightarrow> bool" where
  "red_black c t \<longleftrightarrow> black_root c t \<and> (\<exists>n. colored c t n)"

lemma colored_Node:
  "colored c (Node l a r) n \<longleftrightarrow>
     c a = RB_RED \<and> black_root c l \<and> black_root c r \<and> colored c l n \<and> colored c r n \<or>
     c a = RB_BLACK \<and> 0 < n \<and> colored c l (n - 1) \<and> colored c r (n - 1)"
  by auto

lemma red_black_plug:
  "red_black c (plug cs t) \<longleftrightarrow>
     (\<exists>n. colored_ctx c cs n \<and> colored c t n \<and> (if black_top c cs then cs = [] \<longrightarrow> black_root c t else black_root c t))"
proof (induction cs t rule: plug.induct)
  case (1 t)
  then show ?case by (auto simp: red_black_def)
next
  case (2 a r cs t)
  have pos: "(\<exists>n. 0 < n \<and> P n) \<longleftrightarrow> (\<exists>n. P (Suc n))" for P :: "nat \<Rightarrow> bool" by (metis gr0_conv_Suc)
  show ?case unfolding plug.simps 2 colored_Node
    by (cases "c a = RB_RED"; cases "c a = RB_BLACK"; auto simp: pos colored_step_def)
next
  case (3 l a cs t)
  have pos: "(\<exists>n. 0 < n \<and> P n) \<longleftrightarrow> (\<exists>n. P (Suc n))" for P :: "nat \<Rightarrow> bool" by (metis gr0_conv_Suc)
  show ?case unfolding plug.simps 3 colored_Node
    by (cases "c a = RB_RED"; cases "c a = RB_BLACK"; auto simp: pos colored_step_def)
qed

text \<open>Colours of elements elsewhere do not matter.\<close>

lemma black_root_upd [simp]: "a \<notin> set_tree t \<Longrightarrow> black_root (c(a := x)) t = black_root c t"
  by (cases t) auto

lemma colored_upd [simp]: "a \<notin> set_tree t \<Longrightarrow> colored (c(a := x)) t n = colored c t n"
  by (induction t arbitrary: n) simp_all

lemma colored_ctx_upd [simp]:
  "a \<notin> set (before cs) \<Longrightarrow> a \<notin> set (behind cs) \<Longrightarrow> colored_ctx (c(a := x)) cs n = colored_ctx c cs n"
  "a \<notin> set (before cs) \<Longrightarrow> a \<notin> set (behind cs) \<Longrightarrow> black_top (c(a := x)) cs = black_top c cs"
proof -
  show top: "a \<notin> set (before cs) \<Longrightarrow> a \<notin> set (behind cs) \<Longrightarrow> black_top (c(a := x)) cs = black_top c cs" for cs
    by (cases cs rule: before.cases) auto
  show "a \<notin> set (before cs) \<Longrightarrow> a \<notin> set (behind cs) \<Longrightarrow> colored_ctx (c(a := x)) cs n = colored_ctx c cs n"
    by (induction cs arbitrary: n rule: before.induct) (auto simp: colored_step_def top)
qed

section \<open>The two sides\<close>

text \<open>
  \<open>nd l a r\<close> is the tree with the near child \<open>l\<close> and the far child \<open>r\<close>, and \<open>from_near\<close>,
  \<open>from_far\<close> are the steps of a path from a near and from a far child. \<open>rot_in\<close> moves an element
  down to the near side, \<open>rot_out\<close> to the far side.
\<close>

locale rb_side =
  fixes near far :: "rb_heap \<Rightarrow> links"
    and rot_in rot_out :: "elem \<Rightarrow> rb_heap \<Rightarrow> fault + (rb_heap \<times> elem)"
    and nd :: "elem tree \<Rightarrow> elem \<Rightarrow> elem tree \<Rightarrow> elem tree"
    and from_near from_far :: "elem \<Rightarrow> elem tree \<Rightarrow> frame"
  assumes links_color [simp]: "near (set_color a val h) = near h" "far (set_color a val h) = far h"
    and links: "located h cs (nd l a r) \<Longrightarrow> near h a = root_ptr l \<and> far h a = root_ptr r"
    and nd_cases: "t \<noteq> Leaf \<Longrightarrow> \<exists>l a r. t = nd l a r"
    and nd_root [simp]: "root_ptr (nd l a r) = Some a" "nd l a r \<noteq> Leaf"
    and nd_colored [simp]: "black_root c (nd l a r) \<longleftrightarrow> c a = RB_BLACK"
      "colored c (nd l a r) n \<longleftrightarrow>
         (if c a = RB_RED then black_root c l \<and> black_root c r \<and> colored c l n \<and> colored c r n
          else c a = RB_BLACK \<and> 0 < n \<and> colored c l (n - 1) \<and> colored c r (n - 1))"
      "nearly c (nd l a r) n \<longleftrightarrow> (if c a = RB_RED then colored c l n \<and> colored c r n
         else c a = RB_BLACK \<and> 0 < n \<and> colored c l (n - 1) \<and> colored c r (n - 1))"
    and nd_set [simp]: "set_tree (nd l a r) = insert a (set_tree l \<union> set_tree r)"
    and nd_distinct [simp]: "distinct (inorder (nd l a r)) \<longleftrightarrow> a \<notin> set_tree l \<and> a \<notin> set_tree r \<and>
       set_tree l \<inter> set_tree r = {} \<and> distinct (inorder l) \<and> distinct (inorder r)"
    and nd_rotated: "inorder (nd (nd u x v) y w) = inorder (nd u x (nd v y w))"
    and plug_side [simp]: "plug (from_near a r # cs) t = plug cs (nd t a r)" "plug (from_far a l # cs) t = plug cs (nd l a t)"
    and ctx_side [simp]:
      "colored_ctx c (from_near a s # cs) n \<longleftrightarrow> colored_step c a s cs n \<and> colored_ctx c cs (if c a = RB_RED then n else Suc n)"
      "colored_ctx c (from_far a s # cs) n \<longleftrightarrow> colored_step c a s cs n \<and> colored_ctx c cs (if c a = RB_RED then n else Suc n)"
    and hole_side [simp]: "hole_parent (from_near a s # cs) = Some a" "hole_parent (from_far a s # cs) = Some a"
    and rot_in: "located h cs (nd u x (nd v y w)) \<Longrightarrow>
      \<exists>h'. rot_in x h = Inr (h', y) \<and> located h' cs (nd (nd u x v) y w) \<and> rbe_color h' = rbe_color h"
    and rot_out: "located h cs (nd (nd u x v) y w) \<Longrightarrow>
      \<exists>h'. rot_out y h = Inr (h', x) \<and> located h' cs (nd u x (nd v y w)) \<and> rbe_color h' = rbe_color h"
begin

lemma located_side [simp]:
  "located h (from_near a r # cs) t \<longleftrightarrow> located h cs (nd t a r)"
  "located h (from_far a l # cs) t \<longleftrightarrow> located h cs (nd l a t)"
  by (simp_all add: located_plug [of h "_ # _"] located_plug [of h cs])

lemma links_BLACKRED [simp]: "near (RB_SET_BLACKRED a b h) = near h" "far (RB_SET_BLACKRED a b h) = far h"
  by (simp_all add: RB_SET_BLACKRED_def)

end

lemma located_disjoint:
  assumes "located h cs t"
  shows "distinct (inorder t)" and "a \<in> set_tree t \<Longrightarrow> a \<notin> set (before cs) \<and> a \<notin> set (behind cs)"
  using assms by (auto simp: located_def)

lemma rotations:
  "located h cs (Node a x (Node b y d)) \<Longrightarrow>
     \<exists>h'. RB_ROTATE_LEFT x h = Inr (h', y) \<and> located h' cs (Node (Node a x b) y d) \<and> rbe_color h' = rbe_color h"
  "located h cs (Node (Node a x b) y d) \<Longrightarrow>
     \<exists>h'. RB_ROTATE_RIGHT y h = Inr (h', x) \<and> located h' cs (Node a x (Node b y d)) \<and> rbe_color h' = rbe_color h"
  by (metis RB_ROTATE_LEFT_ok, metis RB_ROTATE_RIGHT_ok)

interpretation left_side: rb_side rbe_left rbe_right RB_ROTATE_LEFT RB_ROTATE_RIGHT Node From_left "\<lambda>a l. From_right l a"
  by unfold_locales (auto simp: located_links neq_Leaf_iff nearly_def rotations)

interpretation right_side: rb_side rbe_right rbe_left RB_ROTATE_RIGHT RB_ROTATE_LEFT
  "\<lambda>l a r. Node r a l" "\<lambda>a r. From_right r a" From_left
  by unfold_locales (auto simp: located_links neq_Leaf_iff nearly_def rotations)

end
