(* ===== verification/Uv_Rb_Insert.thy ===== *)
theory Uv_Rb_Insert
  imports Uv_Rb_Balance
begin

text \<open>
  Inserting into the red-black trees of src/include/uv/tree.h: \<^verbatim>\<open>RB_INSERT_COLOR\<close> ends and restores
  the colours, and \<^verbatim>\<open>RB_INSERT\<close> adds its element to the set the tree stands for.
\<close>

section \<open>Loops\<close>

lemma run_rounds_ok:
  assumes step: "\<And>(n :: nat) s. I n s \<Longrightarrow> \<exists>fin s'. rnd s = Inr (fin, s') \<and> (if fin then Q s' else \<exists>m < n. I m s')"
  shows "I n s \<Longrightarrow> \<exists>s'. run_rounds rnd s = Inr s' \<and> Q s'"
proof (induction n arbitrary: s rule: less_induct)
  case (less n)
  from step [OF less.prems] obtain fin s' where r: "rnd s = Inr (fin, s')" "if fin then Q s' else \<exists>m < n. I m s'" by blast
  show ?case
  proof (cases fin)
    case True
    with r show ?thesis by (simp add: run_rounds_def rounds.simps [of rnd s])
  next
    case False
    with r obtain m where "m < n" "I m s'" by auto
    from less.IH [OF this] False r show ?thesis by (simp add: run_rounds_def rounds.simps [of rnd s])
  qed
qed

section \<open>The colours after an insertion\<close>

text \<open>The body of \<^verbatim>\<open>RB_INSERT_COLOR\<close> for a parent that is a near child.\<close>

definition insert_color_side ::
  "(rb_heap \<Rightarrow> links) \<Rightarrow> (elem \<Rightarrow> rb_heap \<Rightarrow> fault + (rb_heap \<times> elem)) \<Rightarrow> (elem \<Rightarrow> rb_heap \<Rightarrow> fault + (rb_heap \<times> elem)) \<Rightarrow>
   elem \<Rightarrow> elem \<Rightarrow> elem \<Rightarrow> rb_heap \<Rightarrow> fault + (bool \<times> rb_heap \<times> elem)" where
  "insert_color_side far rot_in rot_out gparent parent elm h =
     (let tmp = far h gparent in
      if is_red h tmp then
        let h = set_color (the tmp) RB_BLACK h
        in Inr (False, RB_SET_BLACKRED parent gparent h, gparent)
      else
        bindE (if far h parent = Some elm
               then bindE (rot_in parent h) (\<lambda>(h, tmp). Inr (h, elm, parent))
               else Inr (h, parent, elm)) (\<lambda>(h, parent, elm).
        bindE (rot_out gparent (RB_SET_BLACKRED parent gparent h)) (\<lambda>(h, tmp).
        Inr (False, h, elm))))"

lemma insert_color_sides:
  "insert_color_left = insert_color_side rbe_right RB_ROTATE_LEFT RB_ROTATE_RIGHT"
  "insert_color_right = insert_color_side rbe_left RB_ROTATE_RIGHT RB_ROTATE_LEFT"
  by (simp_all add: fun_eq_iff insert_color_left_def insert_color_right_def insert_color_side_def)

text \<open>
  The tree is right but for the red root \<open>elm\<close> of the subtree at a place \<open>cs\<close>, which may have a red parent.
\<close>

definition red_at :: "elem list \<Rightarrow> frame list \<Rightarrow> rb_heap \<Rightarrow> elem \<Rightarrow> bool" where
  "red_at xs cs h elm \<longleftrightarrow> (\<exists>t n. located h cs t \<and> root_ptr t = Some elm \<and> rbe_color h elm = RB_RED \<and>
     colored (rbe_color h) t n \<and> colored_ctx (rbe_color h) cs n \<and> inorder (plug cs t) = xs)"

lemma is_red_root: "colored (rbe_color h) t n \<Longrightarrow> is_red h (root_ptr t) \<longleftrightarrow> \<not> black_root (rbe_color h) t"
  by (cases t) (auto simp: is_red_def split: if_splits)

lemma RB_SET_BLACKRED_color [simp]: "rbe_color (RB_SET_BLACKRED b r h) = (rbe_color h)(b := RB_BLACK, r := RB_RED)"
  by (simp add: RB_SET_BLACKRED_def)

text \<open>A round that goes on, from a place closer to the head.\<close>

definition insert_step :: "elem list \<Rightarrow> nat \<Rightarrow> fault + (bool \<times> rb_heap \<times> elem) \<Rightarrow> bool" where
  "insert_step xs n res \<longleftrightarrow> (\<exists>h e cs. res = Inr (False, h, e) \<and> red_at xs cs h e \<and> length cs < n)"

context rb_side
begin

lemma insert_recolored:
  assumes loc: "located h cs (nd (nd x p y) g u)" and u: "root_ptr u = Some q" "rbe_color h q = RB_RED"
    and col: "colored (rbe_color h) x n" "colored (rbe_color h) y n" "colored (rbe_color h) u n"
      "colored_ctx (rbe_color h) cs (Suc n)"
  shows "red_at (inorder (plug cs (nd (nd x p y) g u))) cs (RB_SET_BLACKRED p g (set_color q RB_BLACK h)) g"
proof -
  obtain ul ur where [simp]: "u = nd ul q ur" using nd_cases [of u] u(1) by (cases "u = Leaf") auto
  let ?c = "(rbe_color h)(q := RB_BLACK, p := RB_BLACK, g := RB_RED)"
  have d: "p \<noteq> g" "q \<noteq> g" "q \<noteq> p" "{p, q, g} \<inter> (set_tree x \<union> set_tree y \<union> set_tree ul \<union> set_tree ur) = {}"
    and out: "{p, q, g} \<inter> (set (before cs) \<union> set (behind cs)) = {}"
    using located_disjoint [OF loc] by auto
  have "colored ?c (nd (nd x p y) g u) (Suc n)" using d col u(2) by auto
  moreover have "colored_ctx ?c cs (Suc n)" using out col(4) by simp
  ultimately show ?thesis unfolding red_at_def using loc by (intro exI conjI) auto
qed

lemma insert_rotated:
  assumes loc: "located h cs (nd (nd x p y) g u)" and e: "root_ptr x = Some e" "rbe_color h e = RB_RED"
    and col: "colored (rbe_color h) x n" "colored (rbe_color h) y n" "black_root (rbe_color h) y"
      "colored (rbe_color h) u n" "black_root (rbe_color h) u" "colored_ctx (rbe_color h) cs (Suc n)"
  shows "\<exists>h' tmp. rot_out g (RB_SET_BLACKRED p g h) = Inr (h', tmp) \<and>
    red_at (inorder (plug cs (nd (nd x p y) g u))) (from_near p (nd y g u) # cs) h' e"
proof -
  let ?c = "(rbe_color h)(p := RB_BLACK, g := RB_RED)"
  have d: "p \<noteq> g" "e \<noteq> p" "e \<noteq> g" "{p, g} \<inter> (set_tree x \<union> set_tree y \<union> set_tree u) = {}"
    and out: "{p, g} \<inter> (set (before cs) \<union> set (behind cs)) = {}"
    using located_disjoint [OF loc] root_ptr_in [OF e(1)] by auto
  have "located (RB_SET_BLACKRED p g h) cs (nd (nd x p y) g u)" using loc by simp
  from rot_out [OF this] obtain h' where h': "rot_out g (RB_SET_BLACKRED p g h) = Inr (h', p)"
    "located h' cs (nd x p (nd y g u))" "rbe_color h' = ?c" by auto
  have "colored ?c x n" "colored ?c (nd y g u) n" using d col by auto
  moreover have "colored_ctx ?c (from_near p (nd y g u) # cs) n" 
    using calculation d out col(6) by (simp add: colored_step_def del: nd_colored)
  moreover have "inorder (plug cs (nd (nd x p y) g u)) = inorder (plug cs (nd x p (nd y g u)))" by (simp add: nd_rotated)
  ultimately have "red_at (inorder (plug cs (nd (nd x p y) g u))) (from_near p (nd y g u) # cs) h' e"
    unfolding red_at_def h'(3) using h'(2) e d by (intro exI [of _ x] exI [of _ n]) simp
  with h'(1) show ?thesis by blast
qed

lemma insert_step_recolored:
  assumes loc: "located h cs (nd (nd x p y) g u)" and u: "\<not> black_root (rbe_color h) u"
    and col: "colored (rbe_color h) x n" "colored (rbe_color h) y n" "colored (rbe_color h) u n"
      "colored_ctx (rbe_color h) cs (Suc n)"
    and len: "length cs < m"
  shows "insert_step (inorder (plug cs (nd (nd x p y) g u))) m (insert_color_side far rot_in rot_out g p e h)"
proof -
  obtain q where q: "root_ptr u = Some q" "rbe_color h q = RB_RED"
    using u is_red_root [OF col(3)] by (auto simp: is_red_def split: option.splits)
  then have "insert_color_side far rot_in rot_out g p e h = Inr (False, RB_SET_BLACKRED p g (set_color q RB_BLACK h), g)"
    using links [OF loc] by (simp add: insert_color_side_def is_red_def)
  moreover have "red_at (inorder (plug cs (nd (nd x p y) g u))) cs (RB_SET_BLACKRED p g (set_color q RB_BLACK h)) g"
    by (rule insert_recolored [OF loc q col])
  ultimately show ?thesis using len unfolding insert_step_def by blast
qed

lemma insert_step_near:
  assumes loc: "located h cs (nd (nd t p s) g u)" and t: "root_ptr t = Some e" "rbe_color h e = RB_RED"
    and col: "colored (rbe_color h) t n" "colored (rbe_color h) s n" "black_root (rbe_color h) s"
      "colored (rbe_color h) u n" "colored_ctx (rbe_color h) cs (Suc n)"
    and len: "length cs + 1 < m"
    and xs: "inorder (plug cs (nd (nd t p s) g u)) = xs"
  shows "insert_step xs m (insert_color_side far rot_in rot_out g p e h)"
proof -
  have "far h g = root_ptr u" using links [OF loc] by simp
  moreover have "far h p \<noteq> Some e"
  proof -
    have "located h (from_near g u # cs) (nd t p s)" using loc by simp
    then have "far h p = root_ptr s" using links by blast
    with located_disjoint(1) [OF loc] root_ptr_in [OF t(1)] root_ptr_in [of s e] show ?thesis by auto
  qed
  ultimately show ?thesis
  proof (cases "black_root (rbe_color h) u")
    case True
    obtain h' tmp where "rot_out g (RB_SET_BLACKRED p g h) = Inr (h', tmp)" "red_at xs (from_near p (nd s g u) # cs) h' e"
      using insert_rotated [OF loc t col(1-4) True col(5)] xs by auto
    with \<open>far h g = root_ptr u\<close> \<open>far h p \<noteq> Some e\<close> True len show ?thesis
      by (auto simp: insert_step_def insert_color_side_def is_red_root [OF col(4)])
  next
    case False
    from insert_step_recolored [OF loc this col(1,2,4,5), of m e] len xs show ?thesis by simp
  qed
qed

lemma insert_step_far:
  assumes loc: "located h cs (nd (nd s p t) g u)" and t: "root_ptr t = Some e" "rbe_color h e = RB_RED" and p: "rbe_color h p = RB_RED"
    and col: "colored (rbe_color h) t n" "colored (rbe_color h) s n" "black_root (rbe_color h) s"
      "colored (rbe_color h) u n" "colored_ctx (rbe_color h) cs (Suc n)"
    and len: "length cs + 1 < m"
    and xs: "inorder (plug cs (nd (nd s p t) g u)) = xs"
  shows "insert_step xs m (insert_color_side far rot_in rot_out g p e h)"
proof -
  have fg: "far h g = root_ptr u" using links [OF loc] by simp
  have loc': "located h (from_near g u # cs) (nd s p t)" using loc by simp
  then have fp: "far h p = Some e" using links t(1) by metis
  obtain tl tr where [simp]: "t = nd tl e tr" using nd_cases [of t] t(1) by (cases "t = Leaf") auto
  show ?thesis
  proof (cases "black_root (rbe_color h) u")
    case True
    from rot_in [OF loc' [simplified \<open>t = nd tl e tr\<close>]] obtain h1 where h1: "rot_in p h = Inr (h1, e)"
      "located h1 cs (nd (nd (nd s p tl) e tr) g u)" "rbe_color h1 = rbe_color h" by auto
    have "colored (rbe_color h) (nd s p tl) n" "colored (rbe_color h) tr n" "black_root (rbe_color h) tr"
      using col t(2) p by auto
    with insert_rotated [OF h1(2), of p n] h1(3) p col True obtain h' tmp where
      "rot_out g (RB_SET_BLACKRED e g h1) = Inr (h', tmp)"
      "red_at (inorder (plug cs (nd (nd (nd s p tl) e tr) g u))) (from_near e (nd tr g u) # cs) h' p" by auto
    moreover have "inorder (plug cs (nd (nd (nd s p tl) e tr) g u)) = xs"
    proof -
      have "inorder (plug (from_near g u # cs) (nd (nd s p tl) e tr)) = inorder (plug (from_near g u # cs) (nd s p (nd tl e tr)))"
        by (simp only: inorder_at_place nd_rotated)
      with xs show ?thesis by (simp only: plug_side \<open>t = nd tl e tr\<close>)
    qed
    moreover from calculation(1) have "insert_color_side far rot_in rot_out g p e h = Inr (False, h', p)"
      using fg fp True h1(1) by (simp add: insert_color_side_def is_red_root [OF col(4)])
    ultimately show ?thesis using len unfolding insert_step_def by fastforce
  next
    case False
    from insert_step_recolored [OF loc this col(2,1,4,5), of m e] len xs show ?thesis by simp
  qed
qed

end

lemma located_parent: "located h cs t \<Longrightarrow> root_ptr t = Some e \<Longrightarrow> rbe_parent h e = hole_parent cs"
  by (cases t) (auto simp: located_def)

lemma nearly_blackened:
  assumes "distinct (inorder t)" and "nearly c t n"
  shows "root_ptr t = Some r \<Longrightarrow> red_black (c(r := RB_BLACK)) t"
  using assms by (cases t; cases n) (auto simp: red_black_def nearly_def split: if_splits)

text \<open>A round ends the loop at an element without a red parent, or goes on closer to the head.\<close>

lemma insert_color_round_ok:
  assumes red: "red_at xs cs h e"
  shows "if black_top (rbe_color h) cs then insert_color_round (h, e) = Inr (True, h, e)
    else insert_step xs (length cs) (insert_color_round (h, e))"
proof -
  obtain t n where loc: "located h cs t" and t: "root_ptr t = Some e" "rbe_color h e = RB_RED"
    and col: "colored (rbe_color h) t n" "colored_ctx (rbe_color h) cs n" and xs: "inorder (plug cs t) = xs"
    using red by (auto simp: red_at_def)
  have par: "rbe_parent h e = hole_parent cs" by (rule located_parent [OF loc t(1)])
  show ?thesis
  proof (cases "black_top (rbe_color h) cs")
    case True
    then show ?thesis by (cases "hole_parent cs") (simp_all add: insert_color_round_def par black_top_def)
  next
    case False
    then obtain p s f cs' where cs: "cs = f # cs'" "f = From_left p s \<or> f = From_right s p" and p: "rbe_color h p \<noteq> RB_BLACK"
      by (cases cs rule: before.cases) auto
    with col(2) have ctx: "rbe_color h p = RB_RED" "colored (rbe_color h) s n" "black_root (rbe_color h) s" "cs' \<noteq> []"
      "black_top (rbe_color h) cs'" "colored_ctx (rbe_color h) cs' n"
      by (auto simp: colored_step_def split: if_splits)
    then obtain g u f' cs0 where cs': "cs' = f' # cs0" "f' = From_left g u \<or> f' = From_right u g"
      by (cases cs' rule: before.cases) auto
    with ctx have g: "rbe_color h g = RB_BLACK" "colored (rbe_color h) u n" "colored_ctx (rbe_color h) cs0 (Suc n)"
      by (auto simp: colored_step_def)
    have side: "located h cs' (if f = From_left p s then Node t p s else Node s p t)" using loc cs by auto
    have "rbe_parent h p = Some g" using located_parent [OF side, of p] cs' by auto
    moreover have "rbe_left h g = Some p \<longleftrightarrow> f' = From_left g u"
    proof -
      have "root_ptr u \<noteq> Some p"
        using located_disjoint(1) [OF loc [unfolded located_plug [of h cs]]] root_ptr_in [of u p] cs cs' by auto
      moreover have "rbe_left h g = (if f' = From_left g u then Some p else root_ptr u)"
        using side cs' left_side.links [of h cs0 "if f = From_left p s then Node t p s else Node s p t" g u]
          left_side.links [of h cs0 u g "if f = From_left p s then Node t p s else Node s p t"] by (auto split: if_splits)
      ultimately show ?thesis by simp
    qed
    ultimately have "insert_color_round (h, e) =
      (if f' = From_left g u then insert_color_left g p e h else insert_color_right g p e h)"
      using ctx(1) cs par by (auto simp: insert_color_round_def)
    moreover have "insert_step xs (length cs) (if f' = From_left g u then insert_color_left g p e h else insert_color_right g p e h)"
      using loc cs cs' xs g ctx t col(1)
        left_side.insert_step_near [where h = h and cs = cs0 and t = t and p = p and s = s and g = g and u = u and e = e and n = n and m = "length cs" and xs = xs]
        left_side.insert_step_far [where h = h and cs = cs0 and t = t and p = p and s = s and g = g and u = u and e = e and n = n and m = "length cs" and xs = xs]
        right_side.insert_step_near [where h = h and cs = cs0 and t = t and p = p and s = s and g = g and u = u and e = e and n = n and m = "length cs" and xs = xs]
        right_side.insert_step_far [where h = h and cs = cs0 and t = t and p = p and s = s and g = g and u = u and e = e and n = n and m = "length cs" and xs = xs]
      by (auto simp: insert_color_sides)
    ultimately show ?thesis using False by simp
  qed
qed

lemma RB_INSERT_COLOR_ok:
  assumes "red_at xs cs h e"
  obtains h' t' where "RB_INSERT_COLOR e h = Inr h'" and "located h' [] t'" and "red_black (rbe_color h') t'" and "inorder t' = xs"
proof -
  define I where "I n s \<longleftrightarrow> (\<exists>cs. length cs = n \<and> red_at xs cs (fst s) (snd s))" for n and s :: "rb_heap \<times> elem"
  define Q where "Q s \<longleftrightarrow> (\<exists>cs. black_top (rbe_color (fst s)) cs \<and> red_at xs cs (fst s) (snd s))" for s :: "rb_heap \<times> elem"
  have step: "\<exists>fin s'. insert_color_round s = Inr (fin, s') \<and> (if fin then Q s' else \<exists>m < n. I m s')" if "I n s" for n s
  proof -
    obtain h e where [simp]: "s = (h, e)" by (cases s)
    from that obtain cs where cs: "length cs = n" "red_at xs cs h e" by (auto simp: I_def)
    show ?thesis
    proof (cases "black_top (rbe_color h) cs")
      case True
      with insert_color_round_ok [OF cs(2)] cs(2) show ?thesis by (auto simp: Q_def)
    next
      case False
      with insert_color_round_ok [OF cs(2)] cs(1) obtain h' e' cs' where
        "insert_color_round (h, e) = Inr (False, h', e')" "red_at xs cs' h' e'" "length cs' < n" by (auto simp: insert_step_def)
      then show ?thesis by (intro exI [of _ False] exI [of _ "(h', e')"]) (auto simp: I_def)
    qed
  qed
  have "I (length cs) (h, e)" using assms by (auto simp: I_def)
  from run_rounds_ok [of I insert_color_round Q, OF step this] obtain h1 e1 cs1 where run: "run_rounds insert_color_round (h, e) = Inr (h1, e1)"
    and top: "black_top (rbe_color h1) cs1" and red: "red_at xs cs1 h1 e1" by (auto simp: Q_def)
  from red obtain t n where t: "located h1 cs1 t" "root_ptr t = Some e1" "colored (rbe_color h1) t n"
    "colored_ctx (rbe_color h1) cs1 n" "inorder (plug cs1 t) = xs" by (auto simp: red_at_def)
  then have loc: "located h1 [] (plug cs1 t)" by (simp add: located_plug [of h1 cs1])
  obtain m where near: "nearly (rbe_color h1) (plug cs1 t) m"
  proof (cases "cs1 = []")
    case True
    with t(3) that show thesis by (auto dest: colored_nearly)
  next
    case False
    then have "red_black (rbe_color h1) (plug cs1 t)" using top t by (auto simp: red_black_plug)
    with that show thesis by (auto simp: red_black_def dest: colored_nearly)
  qed
  obtain r where r: "root_ptr (plug cs1 t) = Some r"
    using t(2) set_plug [of cs1 t] root_ptr_in [OF t(2)] by (cases "plug cs1 t") auto
  show thesis
  proof (rule that)
    show "RB_INSERT_COLOR e h = Inr (set_color r RB_BLACK h1)"
      using run r located_root [OF loc] by (simp add: RB_INSERT_COLOR_def)
    show "located (set_color r RB_BLACK h1) [] (plug cs1 t)" using loc by simp
    show "red_black (rbe_color (set_color r RB_BLACK h1)) (plug cs1 t)"
      using nearly_blackened [OF located_disjoint(1) [OF loc] near r] by simp
  qed (rule t(5))
qed

section \<open>Inserting\<close>

definition on_left :: "frame list \<Rightarrow> bool" where
  "on_left cs = (case cs of From_left _ _ # _ \<Rightarrow> True | _ \<Rightarrow> False)"

lemma on_left_simps [simp]: "on_left (From_left a r # cs)" "\<not> on_left (From_right l a # cs)"
  by (simp_all add: on_left_def)

text \<open>The descent ends at the element with the key, or at the empty place where the new element belongs.\<close>

definition place_found :: "(elem \<Rightarrow> int) \<Rightarrow> elem \<Rightarrow> elem tree \<Rightarrow> (elem + (elem option \<times> int)) option \<Rightarrow> bool" where
  "place_found key elm t res \<longleftrightarrow>
     (\<exists>x \<in> set_tree t. key x = key elm \<and> res = Some (Inl x)) \<or>
     (\<exists>cs way. plug cs Leaf = t \<and> res = Some (Inr (hole_parent cs, way)) \<and> (cs \<noteq> [] \<longrightarrow> (way < 0 \<longleftrightarrow> on_left cs)) \<and>
        (\<forall>x \<in> set (before cs). key x < key elm) \<and> (\<forall>x \<in> set (behind cs). key elm < key x))"

lemma insert_place_ok:
  assumes ord: "orders cmp key"
  shows "located h cs t \<Longrightarrow> search_tree key (plug cs t) \<Longrightarrow> (\<forall>x \<in> set (before cs). key x < key elm) \<Longrightarrow>
    (\<forall>x \<in> set (behind cs). key elm < key x) \<Longrightarrow> (cs \<noteq> [] \<longrightarrow> (way < 0 \<longleftrightarrow> on_left cs)) \<Longrightarrow>
    place_found key elm (plug cs t) (insert_place cmp h elm (root_ptr t) (hole_parent cs) way)"
proof (induction t arbitrary: cs way)
  case Leaf
  then show ?case by (auto simp: place_found_def insert_place.simps)
next
  case (Node l a r)
  note cmp = orders_cmp [OF ord, of elm a]
  have sorted: "sorted_wrt (\<lambda>a b. key a < key b) (before cs @ inorder l @ a # inorder r @ behind cs)"
    using Node.prems(2) by (simp add: search_tree_def)
  then have sides: "\<And>x. x \<in> set_tree l \<Longrightarrow> key x < key a" "\<And>x. x \<in> set_tree r \<Longrightarrow> key a < key x"
    by (simp_all add: sorted_wrt_append)
  have links: "rbe_left h a = root_ptr l" "rbe_right h a = root_ptr r"
    using located_links [OF Node.prems(1)] by simp_all
  consider "key elm = key a" | "key elm < key a" | "key a < key elm" by linarith
  then show ?case
  proof cases
    case 1
    then show ?thesis using cmp by (auto simp: place_found_def insert_place.simps [of cmp h elm "Some a"])
  next
    case 2
    have "place_found key elm (plug (From_left a r # cs) l)
      (insert_place cmp h elm (root_ptr l) (hole_parent (From_left a r # cs)) (cmp elm a))"
      using Node.prems 2 cmp by (intro Node.IH(1)) (auto dest: sides(2))
    then show ?thesis using 2 cmp links by (simp add: insert_place.simps [of cmp h elm "Some a"])
  next
    case 3
    have "place_found key elm (plug (From_right l a # cs) r)
      (insert_place cmp h elm (root_ptr r) (hole_parent (From_right l a # cs)) (cmp elm a))"
      using Node.prems 3 cmp by (intro Node.IH(2)) (auto dest: sides(1))
    then show ?thesis using 3 cmp links by (simp add: insert_place.simps [of cmp h elm "Some a"])
  qed
qed

lemma RB_SET_fields [simp]:
  "rbe_left (RB_SET e p h) = (rbe_left h)(e := None)" "rbe_right (RB_SET e p h) = (rbe_right h)(e := None)"
  "rbe_parent (RB_SET e p h) = (rbe_parent h)(e := p)" "rbe_color (RB_SET e p h) = (rbe_color h)(e := RB_RED)"
  by (simp_all add: RB_SET_def)

text \<open>The new element at an empty place.\<close>

definition linked_in :: "elem \<Rightarrow> frame list \<Rightarrow> rb_heap \<Rightarrow> rb_heap" where
  "linked_in elm cs h =
     (let h = RB_SET elm (hole_parent cs) h in
      case hole_parent cs of
        None \<Rightarrow> set_root (Some elm) h
      | Some p \<Rightarrow> (if on_left cs then set_left p (Some elm) h else set_right p (Some elm) h))"

lemma linked_in_fields:
  "rbe_color (linked_in elm cs h) = (rbe_color h)(elm := RB_RED)" "rbe_parent (linked_in elm cs h) = (rbe_parent h)(elm := hole_parent cs)"
  "hole_parent cs \<noteq> Some elm \<Longrightarrow> rbe_left (linked_in elm cs h) elm = None"
  "hole_parent cs \<noteq> Some elm \<Longrightarrow> rbe_right (linked_in elm cs h) elm = None"
  by (auto simp: linked_in_def Let_def split: option.split)

lemma linked_in_ctx:
  assumes "ctx_at h cs None" and d: "distinct (before cs @ behind cs)" and new: "elm \<notin> set (before cs)" "elm \<notin> set (behind cs)"
  shows "ctx_at (linked_in elm cs h) cs (Some elm)"
proof -
  have set: "ctx_at (RB_SET elm p h) cs q = ctx_at h cs q" for p q using new by (simp add: RB_SET_def)
  show ?thesis
  proof (cases cs)
    case Nil
    then show ?thesis by (simp add: linked_in_def)
  next
    case (Cons f fs)
    with assms set [of "hole_parent cs" None] show ?thesis by (cases f) (auto simp: linked_in_def Let_def)
  qed
qed

lemma linked_in_red:
  assumes "located h cs Leaf" and "red_black (rbe_color h) (plug cs Leaf)" and new: "elm \<notin> set (before cs)" "elm \<notin> set (behind cs)"
  shows "red_at (before cs @ elm # behind cs) cs (linked_in elm cs h) elm"
proof -
  have at: "ctx_at h cs None" "distinct (before cs @ behind cs)" using assms(1) by (simp_all add: located_def)
  have "colored_ctx (rbe_color h) cs 0" using assms(2) by (auto simp: red_black_plug)
  moreover have "hole_parent cs \<noteq> Some elm" using new by (cases cs rule: before.cases) auto
  moreover have "distinct (before cs @ elm # behind cs)" using at(2) new by simp
  ultimately show ?thesis unfolding red_at_def using linked_in_ctx [OF at new] new
    by (intro exI [of _ "Node Leaf elm Leaf"] exI [of _ 0]) (simp add: located_def linked_in_fields)
qed

text \<open>A search tree in the heap, with its links to the parents and its colours.\<close>

definition rb_search_tree :: "(elem \<Rightarrow> int) \<Rightarrow> rb_heap \<Rightarrow> elem tree \<Rightarrow> bool" where
  "rb_search_tree key h t \<longleftrightarrow>
     rb_tree h t \<and> parents_at (rbe_parent h) None t \<and> search_tree key t \<and> red_black (rbe_color h) t"

lemma rb_search_tree_located:
  "rb_search_tree key h t \<longleftrightarrow> located h [] t \<and> search_tree key t \<and> red_black (rbe_color h) t"
  by (auto simp: rb_search_tree_def located_tree search_tree_distinct)

lemma search_tree_insert:
  assumes "search_tree key (plug cs Leaf)" and "inorder t = before cs @ elm # behind cs"
    and "\<forall>x \<in> set (before cs). key x < key elm" and "\<forall>x \<in> set (behind cs). key elm < key x"
  shows "search_tree key t" and "set_tree t = insert elm (set_tree (plug cs Leaf))"
proof -
  show "search_tree key t" using assms by (simp add: search_tree_def sorted_wrt_append)
  show "set_tree t = insert elm (set_tree (plug cs Leaf))" by (simp add: assms(2) flip: set_inorder)
qed

lemma RB_INSERT_ok:
  assumes "orders cmp key" and "rb_search_tree key h t"
  shows "if key elm \<in> key ` set_tree t
    then \<exists>x. x \<in> set_tree t \<and> key x = key elm \<and> RB_INSERT cmp elm h = Inr (Some x, h)
    else \<exists>h' t'. RB_INSERT cmp elm h = Inr (None, h') \<and> rb_search_tree key h' t' \<and> set_tree t' = insert elm (set_tree t)"
proof -
  have loc: "located h [] t" and sorted: "search_tree key t" and rb: "red_black (rbe_color h) t"
    using assms(2) by (simp_all add: rb_search_tree_located)
  from insert_place_ok [OF assms(1) loc, of elm 0] sorted
  have "place_found key elm t (insert_place cmp h elm (rbh_root h) None 0)" by (simp add: located_root [OF loc])
  then consider (found) x where "x \<in> set_tree t" "key x = key elm" "insert_place cmp h elm (rbh_root h) None 0 = Some (Inl x)"
    | (place) cs way where "plug cs Leaf = t" "insert_place cmp h elm (rbh_root h) None 0 = Some (Inr (hole_parent cs, way))"
      "cs \<noteq> [] \<longrightarrow> (way < 0 \<longleftrightarrow> on_left cs)" "\<forall>x \<in> set (before cs). key x < key elm" "\<forall>x \<in> set (behind cs). key elm < key x"
    unfolding place_found_def by blast
  then show ?thesis
  proof cases
    case found
    then show ?thesis by (auto simp: RB_INSERT_def image_iff) metis
  next
    case place
    have "located h cs Leaf" using loc place(1) by (simp add: located_plug [of h cs])
    moreover have new: "elm \<notin> set (before cs)" "elm \<notin> set (behind cs)" using place by auto
    ultimately have "red_at (before cs @ elm # behind cs) cs (linked_in elm cs h) elm"
      using rb place(1) by (intro linked_in_red) auto
    from RB_INSERT_COLOR_ok [OF this] obtain h' t' where h': "RB_INSERT_COLOR elm (linked_in elm cs h) = Inr h'"
      "located h' [] t'" "red_black (rbe_color h') t'" "inorder t' = before cs @ elm # behind cs" by metis
    have "RB_INSERT cmp elm h = Inr (None, h')"
      using place h'(1) by (cases "cs = []") (auto simp: RB_INSERT_def linked_in_def Let_def split: option.splits)
    moreover have "rb_search_tree key h' t' \<and> set_tree t' = insert elm (set_tree t)"
      using search_tree_insert [OF _ h'(4) place(4,5)] sorted place(1) h'(2,3) by (auto simp: rb_search_tree_located)
    moreover have "key elm \<notin> key ` set_tree t" using place by auto
    ultimately show ?thesis by auto
  qed
qed

section \<open>Properties\<close>

text \<open>C36: inserting into a red-black tree. \<^verbatim>\<open>RB_INSERT\<close> always ends. If the key of the element is in
  the tree it returns the element with that key and changes nothing. Otherwise it returns NULL
  and leaves a search tree with exactly one more element, whose parent links are right and whose
  colours keep the rules of red-black trees.\<close>

theorem rb_insert_correct:
  assumes "orders cmp key" and "rb_search_tree key h t"
  shows "if key elm \<in> key ` set_tree t
    then \<exists>x. x \<in> set_tree t \<and> key x = key elm \<and> RB_INSERT cmp elm h = Inr (Some x, h)
    else \<exists>h' t'. RB_INSERT cmp elm h = Inr (None, h') \<and> rb_search_tree key h' t' \<and> set_tree t' = insert elm (set_tree t)"
  by (rule RB_INSERT_ok [OF assms])

lemma sample_rb_search_tree: "rb_search_tree int sample_rb sample_tree"
proof -
  have "red_black (rbe_color sample_rb) sample_tree"
    unfolding red_black_def by (intro conjI exI [of _ 1]) (simp_all add: sample_rb_def sample_tree_def)
  with sample_rb_facts show ?thesis by (simp add: rb_search_tree_def)
qed

theorem rb_insert_correct_witness:
  "\<exists>h' t'. RB_INSERT sample_cmp 5 sample_rb = Inr (None, h') \<and> rb_search_tree int h' t' \<and>
    set_tree t' = insert 5 (set_tree sample_tree)"
proof -
  have "int 5 \<notin> int ` set_tree sample_tree" by (simp add: sample_tree_def)
  with rb_insert_correct [OF sample_rb_facts(1) sample_rb_search_tree, of 5] show ?thesis by presburger
qed

end
