(* ===== verification/Uv_Rb_Remove.thy ===== *)
theory Uv_Rb_Remove
  imports Uv_Rb_Insert
begin

text \<open>
  Removing from the red-black trees of src/include/uv/tree.h: \<^verbatim>\<open>RB_REMOVE_COLOR\<close> ends and gives the
  missing black element back, and \<^verbatim>\<open>RB_REMOVE\<close> takes exactly its element out of the tree.
\<close>

section \<open>The colours after a removal\<close>

text \<open>
  The body of \<^verbatim>\<open>RB_REMOVE_COLOR\<close> for an element that is a near child: all of it, and the part
  behind the case of a red sibling.
\<close>

definition remove_color_rest ::
  "(rb_heap \<Rightarrow> links) \<Rightarrow> (rb_heap \<Rightarrow> links) \<Rightarrow> (elem \<Rightarrow> rb_heap \<Rightarrow> fault + (rb_heap \<times> elem)) \<Rightarrow>
   (elem \<Rightarrow> rb_heap \<Rightarrow> fault + (rb_heap \<times> elem)) \<Rightarrow> elem \<Rightarrow> rb_heap \<Rightarrow> elem \<Rightarrow> fault + (bool \<times> rb_remove)" where
  "remove_color_rest near far rot_in rot_out parent h tmp =
     (if null_or_black h (near h tmp) \<and> null_or_black h (far h tmp) then
       let h = set_color tmp RB_RED h
       in Inr (False, h, rbe_parent h parent, Some parent)
     else
       bindE (if null_or_black h (far h tmp) then
                let h = set_color tmp RB_RED (set_black (near h tmp) h) in
                bindE (rot_out tmp h) (\<lambda>(h, moved).
                bindE (the_ptr (far h parent)) (\<lambda>tmp. Inr (h, tmp)))
              else Inr (h, tmp)) (\<lambda>(h, tmp).
       let h = set_color parent RB_BLACK (set_color tmp (rbe_color h parent) h);
           h = set_black (far h tmp) h in
       bindE (rot_in parent h) (\<lambda>(h, tmp).
       Inr (True, h, Some parent, rbh_root h))))"

definition remove_color_side ::
  "(rb_heap \<Rightarrow> links) \<Rightarrow> (rb_heap \<Rightarrow> links) \<Rightarrow> (elem \<Rightarrow> rb_heap \<Rightarrow> fault + (rb_heap \<times> elem)) \<Rightarrow>
   (elem \<Rightarrow> rb_heap \<Rightarrow> fault + (rb_heap \<times> elem)) \<Rightarrow> elem \<Rightarrow> rb_heap \<Rightarrow> fault + (bool \<times> rb_remove)" where
  "remove_color_side near far rot_in rot_out parent h =
     bindE (the_ptr (far h parent)) (\<lambda>tmp.
     bindE (if rbe_color h tmp = RB_RED then
              bindE (rot_in parent (RB_SET_BLACKRED tmp parent h)) (\<lambda>(h, tmp).
              bindE (the_ptr (far h parent)) (\<lambda>tmp. Inr (h, tmp)))
            else Inr (h, tmp)) (\<lambda>(h, tmp).
     remove_color_rest near far rot_in rot_out parent h tmp))"

lemma remove_color_sides:
  "remove_color_left = remove_color_side rbe_left rbe_right RB_ROTATE_LEFT RB_ROTATE_RIGHT"
  "remove_color_right = remove_color_side rbe_right rbe_left RB_ROTATE_RIGHT RB_ROTATE_LEFT"
  by (simp_all add: fun_eq_iff remove_color_left_def remove_color_right_def remove_color_side_def remove_color_rest_def conj_commute)

lemma null_or_black_root: "null_or_black h (root_ptr t) \<longleftrightarrow> black_root (rbe_color h) t"
  by (cases t) (simp_all add: null_or_black_def)

lemma set_black_simps [simp]:
  "set_black None h = h" "set_black (Some a) h = set_color a RB_BLACK h" "located (set_black p h) cs t = located h cs t"
  by (simp_all add: set_black_def split: option.split)

text \<open>The subtree at a place \<open>cs\<close> has one black element too few, or the tree is right once \<open>elm\<close> is black.\<close>

definition short_at :: "elem list \<Rightarrow> frame list \<Rightarrow> rb_remove \<Rightarrow> bool" where
  "short_at xs cs s \<longleftrightarrow> (\<exists>h t n. s = (h, hole_parent cs, root_ptr t) \<and> located h cs t \<and> nearly (rbe_color h) t n \<and>
     colored_ctx (rbe_color h) cs (Suc n) \<and> inorder (plug cs t) = xs)"

definition mended :: "elem list \<Rightarrow> rb_remove \<Rightarrow> bool" where
  "mended xs s \<longleftrightarrow> (\<exists>h parent elm t. s = (h, parent, elm) \<and> located h [] t \<and>
     red_black (rbe_color (set_black elm h)) t \<and> inorder t = xs)"

lemma mended_root:
  assumes loc: "located h [] t" and rb: "red_black (rbe_color h) t"
  shows "mended (inorder t) (h, parent, rbh_root h)"
proof -
  have "rbe_color (set_black (rbh_root h) h) = rbe_color h"
    using rb located_root [OF loc] by (cases t) (simp_all add: red_black_def fun_upd_idem)
  with assms show ?thesis by (auto simp: mended_def)
qed

definition distance :: "frame list \<Rightarrow> rb_remove \<Rightarrow> nat" where
  "distance cs s = (if null_or_black (fst s) (snd (snd s)) then Suc (length cs) else 0)"

definition remove_step :: "elem list \<Rightarrow> nat \<Rightarrow> fault + (bool \<times> rb_remove) \<Rightarrow> bool" where
  "remove_step xs m res \<longleftrightarrow> (\<exists>s. res = Inr (True, s) \<and> mended xs s) \<or>
     (\<exists>s cs. res = Inr (False, s) \<and> short_at xs cs s \<and> distance cs s < m)"

text \<open>The place above \<open>p\<close>, whose subtree is to have the black height \<open>n\<close> of its children and its own colour.\<close>

definition fits :: "(elem \<Rightarrow> int) \<Rightarrow> int \<Rightarrow> frame list \<Rightarrow> nat \<Rightarrow> bool" where
  "fits c col cs n \<longleftrightarrow>
     (if col = RB_RED then cs \<noteq> [] \<and> black_top c cs \<and> colored_ctx c cs n else col = RB_BLACK \<and> colored_ctx c cs (Suc n))"

lemma fits_upd [simp]: "a \<notin> set (before cs) \<Longrightarrow> a \<notin> set (behind cs) \<Longrightarrow> fits (c(a := x)) col cs n = fits c col cs n"
  by (simp add: fits_def)

lemma fits_plug:
  assumes "fits c (c a) cs n" and "root_ptr t = Some a" 
    and "if c a = RB_RED then colored c t n else colored c t (Suc n)"
  shows "red_black c (plug cs t)"
proof -
  have "c a = RB_BLACK \<Longrightarrow> black_root c t" using assms(2) by (cases t) auto
  with assms show ?thesis by (auto simp: red_black_plug fits_def split: if_splits)
qed

context rb_side
begin

lemma remove_final:
  assumes loc: "located h cs (nd t p (nd sl q sr))" and z: "root_ptr sr = Some z" "rbe_color h z = RB_RED"
    and col: "colored (rbe_color h) t n" "colored (rbe_color h) sl n" "colored (rbe_color h) sr n" "fits (rbe_color h) (rbe_color h p) cs (Suc n)"
  shows "\<exists>h'. rot_in p (set_color z RB_BLACK (set_color p RB_BLACK (set_color q (rbe_color h p) h))) = Inr (h', q) \<and>
    mended (inorder (plug cs (nd t p (nd sl q sr)))) (h', parent, rbh_root h')"
proof -
  obtain zl zr where [simp]: "sr = nd zl z zr" using nd_cases [of sr] z(1) by (cases "sr = Leaf") auto
  let ?c = "(rbe_color h)(q := rbe_color h p, p := RB_BLACK, z := RB_BLACK)"
  have d: "p \<noteq> q" "q \<noteq> z" "z \<noteq> p" "{p, q, z} \<inter> (set_tree t \<union> set_tree sl \<union> set_tree zl \<union> set_tree zr) = {}"
    and out: "{p, q, z} \<inter> (set (before cs) \<union> set (behind cs)) = {}"
    using located_disjoint [OF loc] by auto
  have "located (set_color z RB_BLACK (set_color p RB_BLACK (set_color q (rbe_color h p) h))) cs (nd t p (nd sl q sr))"
    using loc by simp
  from rot_in [OF this] obtain h' where h': "rot_in p (set_color z RB_BLACK (set_color p RB_BLACK (set_color q (rbe_color h p) h))) = Inr (h', q)"
    "located h' cs (nd (nd t p sl) q sr)" "rbe_color h' = ?c" by auto
  let ?t = "nd (nd t p sl) q sr"
  have "if ?c q = RB_RED then colored ?c ?t (Suc n) else colored ?c ?t (Suc (Suc n))"
    using d col z by (auto simp: fits_def split: if_splits)
  moreover have "fits ?c (?c q) cs (Suc n)" using col(4) out d by simp
  ultimately have rb: "red_black ?c (plug cs ?t)" by (intro fits_plug [where a = q]) auto
  have loc': "located h' [] (plug cs ?t)" using h'(2) by (simp add: located_plug [of h' cs])
  have "mended (inorder (plug cs ?t)) (h', parent, rbh_root h')"
    using mended_root [OF loc'] rb h'(3) by simp
  moreover have "inorder (plug cs ?t) = inorder (plug cs (nd t p (nd sl q sr)))" by (simp add: nd_rotated)
  ultimately show ?thesis using h'(1) by metis
qed

lemma remove_both_black:
  assumes loc: "located h cs (nd t p (nd sl q sr))"
    and col: "colored (rbe_color h) t n" "colored (rbe_color h) sl n" "colored (rbe_color h) sr n"
      "black_root (rbe_color h) t" "black_root (rbe_color h) sl" "black_root (rbe_color h) sr"
      "fits (rbe_color h) (rbe_color h p) cs (Suc n)"
    and m: "if rbe_color h p = RB_RED then 0 < m else Suc (length cs) < m"
  shows "remove_step (inorder (plug cs (nd t p (nd sl q sr)))) m
    (Inr (False, set_color q RB_RED h, rbe_parent h p, Some p))"
proof -
  let ?c = "(rbe_color h)(q := RB_RED)"
  have d: "p \<noteq> q" "{p, q} \<inter> (set_tree t \<union> set_tree sl \<union> set_tree sr) = {}"
    and out: "{p, q} \<inter> (set (before cs) \<union> set (behind cs)) = {}"
    using located_disjoint [OF loc] by auto
  have colors: "colored ?c t n" "colored ?c (nd sl q sr) n" using d col by auto
  have par: "rbe_parent h p = hole_parent cs" by (rule located_parent [OF loc]) simp
  have near: "nearly ?c (nd t p (nd sl q sr)) (if rbe_color h p = RB_RED then n else Suc n)"
  proof (cases "rbe_color h p = RB_RED")
    case True
    then show ?thesis using colors d(1) by simp
  next
    case False
    then have "rbe_color h p = RB_BLACK" using col(7) by (simp add: fits_def)
    then show ?thesis using colors d col(4) by (intro colored_nearly) auto
  qed
  let ?n = "if rbe_color h p = RB_RED then n else Suc n"
  have "colored_ctx ?c cs (Suc ?n)" using col(7) out by (simp add: fits_def split: if_splits)
  then have "short_at (inorder (plug cs (nd t p (nd sl q sr)))) cs (set_color q RB_RED h, rbe_parent h p, Some p)"
    unfolding short_at_def using near loc par
    by (intro exI [of _ "set_color q RB_RED h"] exI [of _ "nd t p (nd sl q sr)"] exI [of _ ?n]) simp
  moreover have "distance cs (set_color q RB_RED h, rbe_parent h p, Some p) < m"
    using m d(1) col(7) by (auto simp: distance_def null_or_black_def fits_def split: if_splits)
  ultimately show ?thesis unfolding remove_step_def by blast
qed

lemma remove_rest_ok:
  assumes loc: "located h cs (nd t p (nd sl q sr))"
    and col: "colored (rbe_color h) t n" "colored (rbe_color h) sl n" "colored (rbe_color h) sr n"
      "black_root (rbe_color h) t" "fits (rbe_color h) (rbe_color h p) cs (Suc n)"
    and m: "if rbe_color h p = RB_RED then 0 < m else Suc (length cs) < m"
  shows "remove_step (inorder (plug cs (nd t p (nd sl q sr)))) m (remove_color_rest near far rot_in rot_out p h q)"
proof -
  have loc': "located h (from_far p t # cs) (nd sl q sr)" using loc by simp
  have q: "near h q = root_ptr sl" "far h q = root_ptr sr" using links [OF loc'] by simp_all
  consider (both) "black_root (rbe_color h) sl" "black_root (rbe_color h) sr" | (outer) "\<not> black_root (rbe_color h) sr"
    | (inner) "\<not> black_root (rbe_color h) sl" "black_root (rbe_color h) sr" by blast
  then show ?thesis
  proof cases
    case both
    then have "remove_color_rest near far rot_in rot_out p h q = Inr (False, set_color q RB_RED h, rbe_parent h p, Some p)"
      by (simp add: remove_color_rest_def q null_or_black_root)
    with remove_both_black [OF loc col(1-4) both col(5) m] show ?thesis by simp
  next
    case outer
    then obtain z where z: "root_ptr sr = Some z" "rbe_color h z = RB_RED"
      using is_red_root [OF col(3)] by (auto simp: is_red_def split: option.splits)
    from remove_final [OF loc z col(1-3,5), of "Some p"] obtain h' where
      "rot_in p (set_color z RB_BLACK (set_color p RB_BLACK (set_color q (rbe_color h p) h))) = Inr (h', q)"
      "mended (inorder (plug cs (nd t p (nd sl q sr)))) (h', Some p, rbh_root h')" by blast
    with outer show ?thesis
      by (simp add: remove_color_rest_def remove_step_def q null_or_black_root Let_def) (simp add: z)
  next
    case inner
    then obtain z where z: "root_ptr sl = Some z" "rbe_color h z = RB_RED"
      using is_red_root [OF col(2)] by (auto simp: is_red_def split: option.splits)
    then obtain zl zr where sl: "sl = nd zl z zr" using nd_cases [of sl] by (cases "sl = Leaf") auto
    let ?h = "set_color q RB_RED (set_color z RB_BLACK h)"
    have d: "p \<noteq> q" "q \<noteq> z" "z \<noteq> p" "{p, q, z} \<inter> (set_tree t \<union> set_tree zl \<union> set_tree zr \<union> set_tree sr) = {}"
      and out: "{p, q, z} \<inter> (set (before cs) \<union> set (behind cs)) = {}"
      using located_disjoint [OF loc] by (auto simp: sl)
    have "located ?h (from_far p t # cs) (nd (nd zl z zr) q sr)" using loc' by (simp add: sl)
    from rot_out [OF this] obtain h1 where h1: "rot_out q ?h = Inr (h1, z)"
      "located h1 cs (nd t p (nd zl z (nd zr q sr)))" "rbe_color h1 = rbe_color ?h" by auto
    then have far1: "far h1 p = Some z" using links [OF h1(2)] by simp
    have far2: "far h1 z = Some q" using links [of h1 "from_far p t # cs" zl z "nd zr q sr"] h1(2) by simp
    have "rbe_color h1 q = RB_RED" "rbe_color h1 p = rbe_color h p" using d by (simp_all add: h1(3))
    moreover have "colored (rbe_color h1) t n" "colored (rbe_color h1) zl n" "colored (rbe_color h1) (nd zr q sr) n"
      using d col z inner by (auto simp: h1(3) sl)
    moreover have "fits (rbe_color h1) (rbe_color h1 p) cs (Suc n)" using col(5) out d by (simp add: h1(3))
    ultimately obtain h' where h': "rot_in p (set_color q RB_BLACK (set_color p RB_BLACK (set_color z (rbe_color h p) h1))) = Inr (h', z)"
      "mended (inorder (plug cs (nd t p (nd zl z (nd zr q sr))))) (h', Some p, rbh_root h')"
      using remove_final [OF h1(2), of q n "Some p"] by auto
    have "remove_color_rest near far rot_in rot_out p h q = Inr (True, h', Some p, rbh_root h')"
      using inner h1(1) far1 far2 h'(1) \<open>rbe_color h1 p = rbe_color h p\<close>
      by (simp add: remove_color_rest_def q null_or_black_root Let_def) (simp add: z)
    moreover have "inorder (plug (from_far p t # cs) (nd zl z (nd zr q sr))) = inorder (plug (from_far p t # cs) (nd sl q sr))"
      by (simp only: sl inorder_at_place nd_rotated)
    ultimately show ?thesis using h'(2) by (simp only: remove_step_def plug_side) blast
  qed
qed

lemma remove_side_ok:
  assumes loc: "located h cs (nd t p s)"
    and col: "colored (rbe_color h) t n" "colored (rbe_color h) s (Suc n)" "black_root (rbe_color h) t"
      "fits (rbe_color h) (rbe_color h p) cs (Suc n)" "rbe_color h p = RB_RED \<Longrightarrow> black_root (rbe_color h) s"
    and m: "Suc (length cs) < m"
  shows "remove_step (inorder (plug cs (nd t p s))) m (remove_color_side near far rot_in rot_out p h)"
proof -
  have "s \<noteq> Leaf" using col(2) by auto
  then obtain sl q sr where s: "s = nd sl q sr" using nd_cases by blast
  have far: "far h p = Some q" using links [OF loc] by (simp add: s)
  show ?thesis
  proof (cases "rbe_color h q = RB_RED")
    case False
    have "remove_step (inorder (plug cs (nd t p (nd sl q sr)))) m (remove_color_rest near far rot_in rot_out p h q)"
      using loc col m False by (intro remove_rest_ok [where n = n]) (auto simp: s split: if_splits)
    then show ?thesis using far False by (simp add: remove_color_side_def s)
  next
    case True
    have p: "rbe_color h p = RB_BLACK" using col(4,5) True by (auto simp: fits_def s split: if_splits)
    let ?h = "RB_SET_BLACKRED q p h"
    have d: "p \<noteq> q" "{p, q} \<inter> (set_tree t \<union> set_tree sl \<union> set_tree sr) = {}"
      and out: "{p, q} \<inter> (set (before cs) \<union> set (behind cs)) = {}"
      using located_disjoint [OF loc] by (auto simp: s)
    have "sl \<noteq> Leaf" using col(2) True by (auto simp: s)
    then obtain a x b where sl: "sl = nd a x b" using nd_cases by blast
    have "located ?h cs (nd t p (nd sl q sr))" using loc by (simp add: s)
    from rot_in [OF this] obtain h1 where h1: "rot_in p ?h = Inr (h1, q)" "located h1 cs (nd (nd t p sl) q sr)"
      "rbe_color h1 = rbe_color ?h" by auto
    then have loc1: "located h1 (from_near q sr # cs) (nd t p (nd a x b))" by (simp add: sl)
    have far1: "far h1 p = Some x" using links [OF loc1] by simp
    have x: "rbe_color h x = RB_BLACK" "colored (rbe_color h) a n" "colored (rbe_color h) b n"
      using col(2) True by (auto simp: s sl split: if_splits)
    have cols: "colored (rbe_color h1) t n" "colored (rbe_color h1) a n" "colored (rbe_color h1) b n" "black_root (rbe_color h1) t"
      using d col(1,3) x by (auto simp: h1(3) sl)
    moreover have "fits (rbe_color h1) (rbe_color h1 p) (from_near q sr # cs) (Suc n)"
      using d out col(2,4) p True by (auto simp: h1(3) fits_def black_top_def colored_step_def s split: if_splits)
    ultimately have "remove_step (inorder (plug (from_near q sr # cs) (nd t p (nd a x b)))) m
        (remove_color_rest near far rot_in rot_out p h1 x)"
      using m d(1) by (intro remove_rest_ok [OF loc1, where n = n]) (auto simp: h1(3))
    moreover have "inorder (plug (from_near q sr # cs) (nd t p (nd a x b))) = inorder (plug cs (nd t p s))"
      by (simp only: plug_side inorder_at_place nd_rotated s sl)
    ultimately show ?thesis using far True h1(1) far1 by (simp add: remove_color_side_def)
  qed
qed

end

text \<open>A round ends with a tree that is right, or comes closer to the head.\<close>

lemma short_stop:
  assumes short: "short_at xs cs (h, parent, elm)" and stop: "\<not> null_or_black h elm \<or> elm = rbh_root h"
  shows "mended xs (h, parent, elm)"
proof -
  obtain t n where t: "parent = hole_parent cs" "elm = root_ptr t" "located h cs t" "nearly (rbe_color h) t n"
    "colored_ctx (rbe_color h) cs (Suc n)" "inorder (plug cs t) = xs"
    using short by (auto simp: short_at_def)
  have loc: "located h [] (plug cs t)" using t(3) by (simp add: located_plug [of h cs])
  show ?thesis
  proof (cases "cs = []")
    case True
    then have "red_black (rbe_color (set_black (root_ptr t) h)) t"
      using t(4) nearly_blackened [OF located_disjoint(1) [OF t(3)] t(4)] by (cases t) (auto simp: red_black_def)
    with True t show ?thesis by (auto simp: mended_def)
  next
    case False
    then have "\<not> null_or_black h elm" using stop t(2) located_at_root [OF t(3)] by simp
    then obtain l e r where e: "t = Node l e r" "rbe_color h e \<noteq> RB_BLACK" using t(2) by (cases t) (auto simp: null_or_black_def)
    with t(4) have "rbe_color h e = RB_RED" "colored (rbe_color h) l n" "colored (rbe_color h) r n"
      by (auto simp: nearly_def split: if_splits)
    with e(1) t(5) located_disjoint [OF t(3)] have "red_black ((rbe_color h)(e := RB_BLACK)) (plug cs t)"
      by (auto simp: red_black_plug intro!: exI [of _ "Suc n"])
    with loc t e show ?thesis by (auto simp: mended_def)
  qed
qed

lemma remove_color_round_ok:
  assumes short: "short_at xs cs s"
  shows "remove_step xs (distance cs s) (remove_color_round s)"
proof -
  obtain h t n where s: "s = (h, hole_parent cs, root_ptr t)" and loc: "located h cs t" and near: "nearly (rbe_color h) t n"
    and ctx: "colored_ctx (rbe_color h) cs (Suc n)" and xs: "inorder (plug cs t) = xs"
    using short by (auto simp: short_at_def)
  show ?thesis
  proof (cases "null_or_black h (root_ptr t) \<and> root_ptr t \<noteq> rbh_root h")
    case False
    with short_stop [OF short [unfolded s]] show ?thesis by (auto simp: s remove_color_round_def remove_step_def)
  next
    case True
    then have black: "black_root (rbe_color h) t" by (simp add: null_or_black_root)
    then have col: "colored (rbe_color h) t n" using near by (cases t) (auto simp: nearly_def)
    have "cs \<noteq> []" using True located_at_root [OF loc] by simp
    then obtain f p u cs' where cs: "cs = f # cs'" "f = From_left p u \<or> f = From_right u p"
      by (cases cs rule: before.cases) auto
    then have u: "colored (rbe_color h) u (Suc n)" "rbe_color h p = RB_RED \<Longrightarrow> black_root (rbe_color h) u"
      "fits (rbe_color h) (rbe_color h p) cs' (Suc n)"
      using ctx by (auto simp: colored_step_def fits_def split: if_splits)
    have dist: "distance cs s = Suc (length cs)" "Suc (length cs') < distance cs s"
      using True cs(1) by (simp_all add: s distance_def)
    from cs(2) show ?thesis
    proof
      assume f: "f = From_left p u"
      then have "located h cs' (Node t p u)" using loc cs(1) by simp
      moreover have "remove_color_round s = remove_color_left p h"
        using True f cs(1) located_links [OF calculation] by (simp add: s remove_color_round_def)
      ultimately show ?thesis using left_side.remove_side_ok [of h cs' t p u n "distance cs s"] col u black dist(2) f cs(1) xs
        by (simp add: remove_color_sides)
    next
      assume f: "f = From_right u p"
      then have at: "located h cs' (Node u p t)" using loc cs(1) by simp
      have "root_ptr u \<noteq> root_ptr t"
        using u(1) located_disjoint(1) [OF at] root_ptr_in [of u] root_ptr_in [of t] by (cases u) auto
      then have "remove_color_round s = remove_color_right p h"
        using True f cs(1) located_links [OF at] by (simp add: s remove_color_round_def)
      then show ?thesis using right_side.remove_side_ok [where h = h and cs = cs' and t = t and p = p and s = u and n = n and m = "distance cs s"]
          at col u black dist(2) f cs(1) xs
        by (simp add: remove_color_sides)
    qed
  qed
qed

lemma RB_REMOVE_COLOR_ok:
  assumes "short_at xs cs (h, parent, elm)"
  obtains h' t' where "RB_REMOVE_COLOR parent elm h = Inr h'" and "located h' [] t'" and "red_black (rbe_color h') t'" and "inorder t' = xs"
proof -
  define I where "I n s \<longleftrightarrow> (\<exists>cs. distance cs s = n \<and> short_at xs cs s)" for n s
  have step: "\<exists>fin s'. remove_color_round s = Inr (fin, s') \<and> (if fin then mended xs s' else \<exists>m < n. I m s')" if "I n s" for n s
  proof -
    obtain cs where "distance cs s = n" "short_at xs cs s" using \<open>I n s\<close> by (auto simp: I_def)
    from remove_color_round_ok [OF this(2)] this(1)
    consider s' where "remove_color_round s = Inr (True, s')" "mended xs s'"
      | s' cs' where "remove_color_round s = Inr (False, s')" "short_at xs cs' s'" "distance cs' s' < n"
      by (auto simp: remove_step_def)
    then show ?thesis
    proof cases
      case 1
      then show ?thesis by (intro exI [of _ True] exI [of _ s']) simp
    next
      case 2
      then show ?thesis by (intro exI [of _ False] exI [of _ s']) (auto simp: I_def)
    qed
  qed
  have "I (distance cs (h, parent, elm)) (h, parent, elm)" using assms by (auto simp: I_def)
  from run_rounds_ok [of I remove_color_round "mended xs", OF step this] obtain h1 p1 e1 t1 where
    "run_rounds remove_color_round (h, parent, elm) = Inr (h1, p1, e1)" "located h1 [] t1"
    "red_black (rbe_color (set_black e1 h1)) t1" "inorder t1 = xs" by (auto simp: mended_def)
  then show thesis by (intro that [of "set_black e1 h1" t1]) (simp_all add: RB_REMOVE_COLOR_def)
qed

section \<open>Taking an element out\<close>

lemma cut_out_relink:
  assumes "rbe_parent h old = parent" and "child \<noteq> Some old"
  shows "cut_out old child parent h = relink old child (case child of None \<Rightarrow> h | Some c \<Rightarrow> set_parent c parent h)"
  using assms by (auto simp: cut_out_def relink_def Let_def split: option.split)

lemma cut_out_ok:
  assumes loc: "located h cs (Node l old r)" and u: "u = l \<or> u = r"
  shows "located (cut_out old (root_ptr u) (hole_parent cs) h) cs u"
    and "rbe_color (cut_out old (root_ptr u) (hole_parent cs) h) = rbe_color h"
    and "a \<notin> set_tree u \<Longrightarrow> rbe_parent (cut_out old (root_ptr u) (hole_parent cs) h) a = rbe_parent h a"
proof -
  let ?h = "case root_ptr u of None \<Rightarrow> h | Some c \<Rightarrow> set_parent c (hole_parent cs) h"
  have d: "distinct (before cs @ (inorder l @ old # inorder r) @ behind cs)" and ctx: "ctx_at h cs (Some old)"
    and par: "rbe_parent h old = hole_parent cs" and sub: "sub_at h (Some old) u"
    using loc u by (auto simp: located_def)
  have du: "old \<notin> set_tree u" "set_tree u \<inter> (set (before cs) \<union> set (behind cs)) = {}" "distinct (before cs @ inorder u @ behind cs)"
    "old \<notin> set (before cs) \<union> set (behind cs)" "distinct (before cs @ behind cs)"
    using d u by auto
  have cut: "cut_out old (root_ptr u) (hole_parent cs) h = relink old (root_ptr u) ?h"
    using par du(1) root_ptr_in [of u old] by (intro cut_out_relink) auto
  have h: "ctx_at ?h cs (Some old)" "rbe_parent ?h old = hole_parent cs" "sub_at ?h (hole_parent cs) u"
    using ctx par sub du by (cases u; auto)+
  show "located (cut_out old (root_ptr u) (hole_parent cs) h) cs u"
    using relink_at [OF h(1,2) du(4,5)] h(3) du(2,3) by (simp add: located_def cut)
  show "rbe_color (cut_out old (root_ptr u) (hole_parent cs) h) = rbe_color h"
    by (simp add: cut split: option.split)
  show "a \<notin> set_tree u \<Longrightarrow> rbe_parent (cut_out old (root_ptr u) (hole_parent cs) h) a = rbe_parent h a"
    by (auto simp: cut split: option.split dest: root_ptr_in)
qed

text \<open>The removal is completed: what was cut out was red, or its place is short of a black element.\<close>

lemma remove_finish:
  assumes loc: "located h cs u" and ctx: "colored_ctx (rbe_color h) cs n"
    and col: "if col = RB_RED then colored (rbe_color h) u n \<and> black_root (rbe_color h) u
      else col = RB_BLACK \<and> 0 < n \<and> colored (rbe_color h) u (n - 1)"
  obtains h' t' where "(if col = RB_BLACK then RB_REMOVE_COLOR (hole_parent cs) (root_ptr u) h else Inr h) = Inr h'"
    and "located h' [] t'" and "red_black (rbe_color h') t'" and "inorder t' = inorder (plug cs u)"
proof (cases "col = RB_BLACK")
  case True
  with col obtain m where m: "n = Suc m" "colored (rbe_color h) u m" by (cases n) auto
  then have "short_at (inorder (plug cs u)) cs (h, hole_parent cs, root_ptr u)"
    using loc ctx by (auto simp: short_at_def dest: colored_nearly)
  from RB_REMOVE_COLOR_ok [OF this] that True show thesis by metis
next
  case False
  with col have "red_black (rbe_color h) (plug cs u)" using ctx by (auto simp: red_black_plug split: if_splits)
  moreover have "located h [] (plug cs u)" using loc by (simp add: located_plug [of h cs])
  ultimately show thesis using that [of h "plug cs u"] False by simp
qed

text \<open>The place of an element.\<close>

lemma place_of: "a \<in> set_tree t \<Longrightarrow> \<exists>ds l r. plug (ds @ cs) (Node l a r) = plug cs t"
proof (induction t arbitrary: cs)
  case (Node l b r)
  then consider "a = b" | "a \<in> set_tree l" | "a \<in> set_tree r" by auto
  then show ?case
  proof cases
    case 1
    then show ?thesis by (intro exI [of _ "[]"]) auto
  next
    case 2
    from Node.IH(1) [OF this, of "From_left b r # cs"] obtain ds l' r' where
      "plug (ds @ From_left b r # cs) (Node l' a r') = plug cs (Node l b r)" by auto
    then show ?thesis by (intro exI [of _ "ds @ [From_left b r]"]) auto
  next
    case 3
    from Node.IH(2) [OF this, of "From_right l b # cs"] obtain ds l' r' where
      "plug (ds @ From_right l b # cs) (Node l' a r') = plug cs (Node l b r)" by auto
    then show ?thesis by (intro exI [of _ "ds @ [From_right l b]"]) auto
  qed
qed simp

text \<open>The colours at a place, of the element and of the path above it.\<close>

lemma red_black_place:
  assumes "red_black c (plug cs (Node l a r))"
  obtains n where "colored_ctx c cs n" and "colored c (Node l a r) n"
  using assms by (auto simp: red_black_plug simp del: colored.simps)

text \<open>Removing an element with at most one child.\<close>

lemma remove_outer_ok:
  assumes loc: "located h cs (Node l old r)" and rb: "red_black (rbe_color h) (plug cs (Node l old r))"
    and leaf: "l = Leaf \<or> r = Leaf"
  obtains h' t' where "RB_REMOVE old h = Inr (old, h')" and "located h' [] t'" and "red_black (rbe_color h') t'"
    and "inorder t' = before cs @ inorder l @ inorder r @ behind cs"
proof -
  let ?u = "if l = Leaf then r else l"
  let ?h = "cut_out old (root_ptr ?u) (hole_parent cs) h"
  have u: "?u = l \<or> ?u = r" "inorder ?u = inorder l @ inorder r" using leaf by auto
  obtain n where n: "colored_ctx (rbe_color h) cs n" "colored (rbe_color h) (Node l old r) n"
    using rb by (rule red_black_place)
  have "if rbe_color h old = RB_RED then colored (rbe_color h) ?u n \<and> black_root (rbe_color h) ?u
      else rbe_color h old = RB_BLACK \<and> 0 < n \<and> colored (rbe_color h) ?u (n - 1)"
    using n(2) u(1) by (auto split: if_splits)
  with remove_finish [OF cut_out_ok(1) [OF loc u(1)], of n "rbe_color h old"] n(1) cut_out_ok(2) [OF loc u(1)]
  obtain h' t' where h': "(if rbe_color h old = RB_BLACK then RB_REMOVE_COLOR (hole_parent cs) (root_ptr ?u) ?h else Inr ?h) = Inr h'"
    "located h' [] t'" "red_black (rbe_color h') t'" "inorder t' = inorder (plug cs ?u)" by metis
  have "RB_REMOVE old h = Inr (old, h')"
    using located_links [OF loc] leaf h'(1) by (cases l; cases r) (auto simp: RB_REMOVE_def Let_def)
  then show thesis using h'(2-4) u(2) by (intro that) simp_all
qed

lemma plug_append [simp]: "plug (ds @ cs) t = plug cs (plug ds t)"
  by (induction ds t rule: plug.induct) auto

lemma path_append [simp]: "before (ds @ cs) = before cs @ before ds" "behind (ds @ cs) = behind ds @ behind cs"
  by (induction ds rule: before.induct) auto

lemma hole_parent_append: "hole_parent (ds @ cs) = (if ds = [] then hole_parent cs else hole_parent ds)"
  by (cases ds rule: before.cases) auto

lemma hole_parent_in: "hole_parent ds = Some a \<Longrightarrow> a \<in> set (before ds) \<union> set (behind ds)"
  by (cases ds rule: before.cases) auto

text \<open>The next element of one with a right child is the leftmost one below that child.\<close>

lemma leftmost:
  assumes "located h cs r" and "root_ptr r = Some rc"
  shows "\<exists>ds e er. r = plug ds (Node Leaf e er) \<and> before ds = [] \<and> loop_end (rbe_left h) rc = Inr e"
  using assms
proof (induction r arbitrary: cs rc)
  case (Node l a r)
  have left: "rbe_left h a = root_ptr l" and rc: "rc = a" using located_links [OF Node.prems(1)] Node.prems(2) by simp_all
  show ?case
  proof (cases l)
    case Leaf
    then show ?thesis using left rc
      by (intro exI [of _ "[]"] exI [of _ a] exI [of _ r]) (simp add: loop_end_def last_link.simps [of _ a])
  next
    case (Node ll b lr)
    have "located h (From_left a r # cs) l" using Node.prems(1) by simp
    from Node.IH(1) [OF this, of b] obtain ds e er where
      "l = plug ds (Node Leaf e er)" "before ds = []" "loop_end (rbe_left h) b = Inr e" by (auto simp: Node)
    moreover have "rbe_left h a = Some b" using left Node by simp
    ultimately show ?thesis using rc
      by (intro exI [of _ "ds @ [From_left a r]"] exI [of _ e] exI [of _ er]) (simp add: loop_end_def last_link.simps [of _ a])
  qed
qed simp

text \<open>Another element takes the place of \<open>old\<close>, with its links and colour.\<close>

lemma replace_ok:
  assumes loc: "located h cs (Node l old r)" and new: "e \<notin> set_tree (plug cs (Node l old r))"
  defines "h1 \<equiv> relink old (Some e) (copy_field e old h)"
  shows "located (adopt r e (adopt l e h1)) cs (Node l e r)"
    and "rbe_color h1 = (rbe_color h)(e := rbe_color h old)"
    and "rbe_left h1 old = root_ptr l" and "rbe_right h1 old = root_ptr r"
proof -
  let ?h0 = "copy_field e old h"
  have d: "distinct (before cs @ (inorder l @ old # inorder r) @ behind cs)" and ctx: "ctx_at h cs (Some old)"
    and old: "rbe_left h old = root_ptr l" "rbe_right h old = root_ptr r" "rbe_parent h old = hole_parent cs"
    and subs: "sub_at h (Some old) l" "sub_at h (Some old) r"
    using loc by (auto simp: located_def)
  have d': "e \<noteq> old" "e \<notin> set_tree l" "e \<notin> set_tree r" "e \<notin> set (before cs) \<union> set (behind cs)"
    "old \<notin> set (before cs) \<union> set (behind cs)" "distinct (before cs @ behind cs)" "set_tree l \<inter> set_tree r = {}" "set_tree r \<inter> set_tree l = {}"
    "set_tree l \<inter> (set (before cs) \<union> set (behind cs)) = {}" "set_tree r \<inter> (set (before cs) \<union> set (behind cs)) = {}"
    "distinct (inorder l)" "distinct (inorder r)"
    using d new by auto
  have h0: "rbe_left ?h0 e = root_ptr l" "rbe_right ?h0 e = root_ptr r" "rbe_parent ?h0 e = hole_parent cs"
    "rbe_left ?h0 old = root_ptr l" "rbe_right ?h0 old = root_ptr r"
    "sub_at ?h0 (Some old) l" "sub_at ?h0 (Some old) r" "rbe_color ?h0 = (rbe_color h)(e := rbe_color h old)"
    using d' old subs by (simp_all add: copy_field_def)
  have ctx0: "ctx_at ?h0 cs (Some old)" "rbe_parent ?h0 old = hole_parent cs"
    using ctx d' old by (simp_all add: copy_field_def)
  note relink = relink_at [OF ctx0 d'(5,6)] relink_links [OF ctx0(2)]
  show "rbe_left h1 old = root_ptr l" "rbe_right h1 old = root_ptr r" using relink(3,4) d'(5) h0 by (simp_all add: h1_def)
  show "rbe_color h1 = (rbe_color h)(e := rbe_color h old)" by (simp add: h1_def h0)
  have "sub_at (adopt r e (adopt l e h1)) (Some e) l" "sub_at (adopt r e (adopt l e h1)) (Some e) r"
    using h0 d' relink(2) by (simp_all add: h1_def adopt_at(1) [of h1 "Some old"])
  moreover have "ctx_at (adopt r e (adopt l e h1)) cs (Some e)" using relink(1) d' by (simp add: h1_def)
  ultimately show "located (adopt r e (adopt l e h1)) cs (Node l e r)"
    using d d' h0 relink(3,4) by (auto simp: located_def h1_def)
qed

text \<open>The loop up to the head, which only \<^verbatim>\<open>RB_AUGMENT\<close> would be run in, ends.\<close>

lemma last_parent:
  assumes "located h cs (Node l a r)"
  shows "\<exists>e. last_link (rbe_parent h) a = Some e"
  using assms
proof (induction cs arbitrary: l a r rule: before.induct)
  case 1
  then show ?case by (simp add: located_def last_link.simps)
next
  case (2 b s cs)
  from located_links(3) [OF "2.prems"] "2.IH" [of "Node l a r" b s] "2.prems" show ?case by (simp add: last_link.simps [of _ a])
next
  case (3 s b cs)
  from located_links(3) [OF "3.prems"] "3.IH" [of s b "Node l a r"] "3.prems" show ?case by (simp add: last_link.simps [of _ a])
qed

text \<open>The colours of a path with another element in the place of \<open>old\<close>.\<close>

lemma colored_ctx_replace:
  assumes "e \<notin> set (before ds) \<union> set (behind ds) \<union> set_tree l \<union> set (before cs) \<union> set (behind cs)"
  shows "colored_ctx (c(e := c old)) (ds @ From_right l e # cs) n \<longleftrightarrow> colored_ctx c (ds @ From_right l old # cs) n"
proof -
  define c' where "c' = c(e := c old)"
  have c': "c' e = c old" "a \<noteq> e \<Longrightarrow> c' a = c a" for a by (simp_all add: c'_def)
  have upd: "e \<notin> set_tree t \<Longrightarrow> colored c' t n = colored c t n" "e \<notin> set_tree t \<Longrightarrow> black_root c' t = black_root c t"
    "e \<notin> set (before cs) \<Longrightarrow> e \<notin> set (behind cs) \<Longrightarrow> colored_ctx c' cs n = colored_ctx c cs n"
    "e \<notin> set (before cs) \<Longrightarrow> e \<notin> set (behind cs) \<Longrightarrow> black_top c' cs = black_top c cs" for t cs n
    by (simp_all add: c'_def)
  have top: "black_top c' (ds @ From_right l e # cs) \<longleftrightarrow> black_top c (ds @ From_right l old # cs)"
    if "e \<notin> set (before ds) \<union> set (behind ds)" for ds
    using that by (cases ds rule: before.cases) (auto simp: c')
  have "colored_ctx c' (ds @ From_right l e # cs) n \<longleftrightarrow> colored_ctx c (ds @ From_right l old # cs) n"
    using assms
  proof (induction ds arbitrary: n rule: before.induct)
    case 1
    then show ?case by (auto simp: colored_step_def c'(1) upd)
  next
    case (2 a r ds)
    then show ?case using top [of ds] c'(2) [of a] by (auto simp: colored_step_def upd)
  next
    case (3 s a ds)
    then show ?case using top [of ds] c'(2) [of a] by (auto simp: colored_step_def upd)
  qed
  then show ?thesis by (simp only: c'_def)
qed

lemma loop_end_parent:
  assumes "located h cs t" and "hole_parent cs = Some p"
  obtains e where "loop_end (rbe_parent h) p = Inr e"
proof -
  obtain cs' l r where "located h cs' (Node l p r)"
    using assms by (cases cs rule: before.cases) auto
  from last_parent [OF this] that show thesis by (auto simp: loop_end_def)
qed

lemma remove_inner_ok:
  assumes loc: "located h cs (Node l old (plug ds (Node Leaf e er)))" and l: "l \<noteq> Leaf"
    and e: "loop_end (rbe_left h) rc = Inr e"
  obtains h' where
    "remove_inner old rc h = Inr (h', root_ptr er, hole_parent (ds @ From_right l e # cs), rbe_color h e)"
    and "located h' (ds @ From_right l e # cs) er" and "rbe_color h' = (rbe_color h)(e := rbe_color h old)"
proof -
  let ?cs = "ds @ From_right l old # cs"
  let ?r = "plug ds er"
  let ?p = "hole_parent (ds @ From_right l e # cs)"
  define h1 where "h1 = cut_out e (root_ptr er) (hole_parent ?cs) h"
  define h2 where "h2 = relink old (Some e) (copy_field e old h1)"
  define h3 where "h3 = adopt ?r e (adopt l e h2)"
  have at: "located h ?cs (Node Leaf e er)"
    using loc by (simp add: located_plug [of h ?cs] located_plug [of h cs])
  have d: "distinct (before cs @ (inorder l @ old # before ds @ e # inorder er @ behind ds) @ behind cs)"
    using loc by (simp add: located_def)
  have cut: "located h1 ?cs er" "rbe_color h1 = rbe_color h" "a \<notin> set_tree er \<Longrightarrow> rbe_parent h1 a = rbe_parent h a" for a
    using cut_out_ok [OF at, of er] by (simp_all add: h1_def)
  have old: "rbe_parent h e = hole_parent ?cs" "rbe_right h e = root_ptr er" using located_links [OF at] by simp_all
  have par: "rbe_parent h1 e = hole_parent ?cs" using cut(3) [of e] d old by simp
  have p: "(if rbe_parent h1 e = Some old then Some e else hole_parent ?cs) = ?p"
    using par d hole_parent_in [of ds old] by (auto simp: hole_parent_append)
  have loc1: "located h1 cs (Node l old ?r)"
    using cut(1) by (simp only: located_plug [of h1 ?cs] located_plug [of h1 cs] plug_append plug.simps)
  have new: "e \<notin> set_tree (plug cs (Node l old ?r))" using d by auto
  note rep = replace_ok [OF loc1 new, folded h2_def, folded h3_def]
  have loc3: "located h3 (ds @ From_right l e # cs) er"
    using rep(1) by (simp only: located_plug [of h3 "ds @ From_right l e # cs"] located_plug [of h3 cs] plug_append plug.simps)
  obtain q where q: "?p = Some q" by (cases "ds = []"; cases ?p) (auto simp: hole_parent_append)
  obtain top where top: "loop_end (rbe_parent h3) q = Inr top" by (rule loop_end_parent [OF loc3 q])
  obtain la where la: "root_ptr l = Some la" using l by (cases l) auto
  have steps: "cut_out e (rbe_right h e) (rbe_parent h e) h = h1" "relink old (Some e) (copy_field e old h1) = h2"
    by (simp_all add: old h1_def h2_def)
  have left: "set_parent la (Some e) h2 = adopt l e h2" by (simp add: la adopt_def)
  have right: "(case rbe_right h2 old of None \<Rightarrow> adopt l e h2 | Some r \<Rightarrow> set_parent r (Some e) (adopt l e h2)) = h3"
    by (simp add: rep(4) h3_def adopt_def [of ?r])
  have "(if rbe_parent h1 e = Some old then Some e else rbe_parent h e) = Some q" using p q by (simp only: old(1))
  then have "remove_inner old rc h = Inr (h3, root_ptr er, ?p, rbe_color h e)"
    using e rep(3) la top q by (simp add: remove_inner_def Let_def steps left right cong: option.case_cong) (simp add: old)
  then show thesis by (rule that [OF _ loc3]) (simp add: h3_def rep(2) cut(2))
qed

lemma RB_REMOVE_inner_ok:
  assumes loc: "located h cs (Node l old r)" and rb: "red_black (rbe_color h) (plug cs (Node l old r))"
    and both: "l \<noteq> Leaf" "r \<noteq> Leaf"
  obtains h' t' where "RB_REMOVE old h = Inr (old, h')" and "located h' [] t'" and "red_black (rbe_color h') t'"
    and "inorder t' = before cs @ inorder l @ inorder r @ behind cs"
proof -
  obtain rc where rc: "root_ptr r = Some rc" using both(2) by (cases r) auto
  have "located h (From_right l old # cs) r" using loc by simp
  from leftmost [OF this rc] obtain ds e er where r: "r = plug ds (Node Leaf e er)" "before ds = []"
    and e: "loop_end (rbe_left h) rc = Inr e" by blast
  from remove_inner_ok [OF loc [unfolded r(1)] both(1) e] obtain h1 where h1:
    "remove_inner old rc h = Inr (h1, root_ptr er, hole_parent (ds @ From_right l e # cs), rbe_color h e)"
    "located h1 (ds @ From_right l e # cs) er" "rbe_color h1 = (rbe_color h)(e := rbe_color h old)" by blast
  have d: "distinct (before cs @ (inorder l @ old # before ds @ e # inorder er @ behind ds) @ behind cs)"
    using loc by (simp add: located_def r)
  have "red_black (rbe_color h) (plug (ds @ From_right l old # cs) (Node Leaf e er))" using rb by (simp add: r)
  then obtain n where n: "colored_ctx (rbe_color h) (ds @ From_right l old # cs) n" "colored (rbe_color h) (Node Leaf e er) n"
    by (rule red_black_place)
  have ctx: "colored_ctx (rbe_color h1) (ds @ From_right l e # cs) n"
    using n(1) d colored_ctx_replace [of e ds l cs "rbe_color h" old n] by (simp add: h1(3))
  have "e \<notin> set_tree er" using d by simp
  then have "if rbe_color h e = RB_RED then colored (rbe_color h1) er n \<and> black_root (rbe_color h1) er
      else rbe_color h e = RB_BLACK \<and> 0 < n \<and> colored (rbe_color h1) er (n - 1)"
    using n(2) by (cases n) (simp_all add: h1(3) split: if_splits)
  from remove_finish [OF h1(2) ctx this] obtain h' t' where h':
    "(if rbe_color h e = RB_BLACK then RB_REMOVE_COLOR (hole_parent (ds @ From_right l e # cs)) (root_ptr er) h1 else Inr h1) = Inr h'"
    "located h' [] t'" "red_black (rbe_color h') t'" "inorder t' = inorder (plug (ds @ From_right l e # cs) er)" by blast
  obtain la where la: "root_ptr l = Some la" using both(1) by (cases l) auto
  have "RB_REMOVE old h = Inr (old, h')"
    using located_links [OF loc] la rc h1(1) h'(1) by (simp add: RB_REMOVE_def)
  then show thesis using h'(2-4) by (intro that) (simp_all add: r)
qed

lemma RB_REMOVE_ok:
  assumes "rb_search_tree key h t" and "elm \<in> set_tree t"
  shows "\<exists>h' t'. RB_REMOVE elm h = Inr (elm, h') \<and> rb_search_tree key h' t' \<and> inorder t' = remove1 elm (inorder t)"
proof -
  have loc: "located h [] t" and sorted: "search_tree key t" and rb: "red_black (rbe_color h) t"
    using assms(1) by (simp_all add: rb_search_tree_located)
  obtain cs l r where t: "plug cs (Node l elm r) = t" using place_of [OF assms(2), of "[]"] by auto
  have at: "located h cs (Node l elm r)" "red_black (rbe_color h) (plug cs (Node l elm r))"
    using loc rb t by (simp_all add: located_plug [of h cs])
  obtain h' t' where h': "RB_REMOVE elm h = Inr (elm, h')" "located h' [] t'" "red_black (rbe_color h') t'"
    "inorder t' = before cs @ inorder l @ inorder r @ behind cs"
    using remove_outer_ok [OF at] RB_REMOVE_inner_ok [OF at] by metis
  have "distinct (before cs @ (inorder l @ elm # inorder r) @ behind cs)" using at(1) by (simp add: located_def)
  then have rem: "inorder t' = remove1 elm (inorder t)"
    by (simp add: h'(4) remove1_append flip: t)
  have "search_tree key t'" using sorted by (auto simp: search_tree_def h'(4) sorted_wrt_append simp flip: t)
  with h' rem show ?thesis by (auto simp: rb_search_tree_located)
qed

section \<open>Properties\<close>

text \<open>C37: removing from a red-black tree. For an element of the tree \<^verbatim>\<open>RB_REMOVE\<close> always ends, returns
  the element and leaves a search tree with the same elements in the same order but for that one,
  whose parent links are right and whose colours keep the rules of red-black trees.\<close>

theorem rb_remove_correct:
  assumes "rb_search_tree key h t" and "elm \<in> set_tree t"
  shows "\<exists>h' t'. RB_REMOVE elm h = Inr (elm, h') \<and> rb_search_tree key h' t' \<and> inorder t' = remove1 elm (inorder t)"
  by (rule RB_REMOVE_ok [OF assms])

theorem rb_remove_correct_witness:
  "\<exists>h' t'. RB_REMOVE 4 sample_rb = Inr (4, h') \<and> rb_search_tree int h' t' \<and>
    inorder t' = remove1 4 (inorder sample_tree)"
  by (rule rb_remove_correct [OF sample_rb_search_tree]) (simp add: sample_tree_def)

end
