(* ===== verification/Uv_Rb_Loops.thy ===== *)
theory Uv_Rb_Loops
  imports Uv_Rb_Remove
begin

text \<open>
  The loops over the red-black trees of src/include/uv/tree.h whose body may take the current
  element out of the tree: \<^verbatim>\<open>RB_FOREACH_SAFE\<close>, \<^verbatim>\<open>RB_FOREACH_FROM\<close> and their reverses. Locale
  \<open>tree_walk\<close> holds what both directions share.
\<close>

section \<open>The loops\<close>

text \<open>
  The four loops differ in where they start and in the step. The next element is taken before the
  body runs; the body is any function on the heap. The result lists the elements in the order of the visits.
\<close>

partial_function (option) rb_visit_safe ::
  "(elem \<Rightarrow> rb_heap \<Rightarrow> fault + elem option) \<Rightarrow> (elem \<Rightarrow> rb_heap \<Rightarrow> fault + rb_heap) \<Rightarrow> elem option \<Rightarrow> rb_heap \<Rightarrow> elem list \<Rightarrow>
   (fault + (elem list \<times> rb_heap)) option" where
  "rb_visit_safe nxt body x h seen =
     (case x of
        None \<Rightarrow> Some (Inr (seen, h))
      | Some e \<Rightarrow>
          (case nxt e h of
             Inl err \<Rightarrow> Some (Inl err)
           | Inr y \<Rightarrow>
               (case body e h of
                  Inl err \<Rightarrow> Some (Inl err)
                | Inr h \<Rightarrow> rb_visit_safe nxt body y h (seen @ [e]))))"

declare rb_visit_safe.simps [simp del]

definition safe_loop ::
  "(elem \<Rightarrow> rb_heap \<Rightarrow> fault + elem option) \<Rightarrow> (elem \<Rightarrow> rb_heap \<Rightarrow> fault + rb_heap) \<Rightarrow> elem option \<Rightarrow> rb_heap \<Rightarrow>
   fault + (elem list \<times> rb_heap)" where
  "safe_loop nxt body x h = (case rb_visit_safe nxt body x h [] of None \<Rightarrow> Inl Diverges | Some r \<Rightarrow> r)"

definition RB_FOREACH_FROM :: "(elem \<Rightarrow> rb_heap \<Rightarrow> fault + rb_heap) \<Rightarrow> elem option \<Rightarrow> rb_heap \<Rightarrow> fault + (elem list \<times> rb_heap)" where
  "RB_FOREACH_FROM body y h = safe_loop RB_NEXT body y h"

definition RB_FOREACH_SAFE :: "(elem \<Rightarrow> rb_heap \<Rightarrow> fault + rb_heap) \<Rightarrow> rb_heap \<Rightarrow> fault + (elem list \<times> rb_heap)" where
  "RB_FOREACH_SAFE body h = bindE (RB_MINMAX RB_NEGINF h) (\<lambda>x. safe_loop RB_NEXT body x h)"

definition RB_FOREACH_REVERSE_FROM :: "(elem \<Rightarrow> rb_heap \<Rightarrow> fault + rb_heap) \<Rightarrow> elem option \<Rightarrow> rb_heap \<Rightarrow> fault + (elem list \<times> rb_heap)" where
  "RB_FOREACH_REVERSE_FROM body y h = safe_loop RB_PREV body y h"

definition RB_FOREACH_REVERSE_SAFE :: "(elem \<Rightarrow> rb_heap \<Rightarrow> fault + rb_heap) \<Rightarrow> rb_heap \<Rightarrow> fault + (elem list \<times> rb_heap)" where
  "RB_FOREACH_REVERSE_SAFE body h = bindE (RB_MINMAX RB_INF h) (\<lambda>x. safe_loop RB_PREV body x h)"

text \<open>A body that removes the elements with a property.\<close>

definition remove_if :: "(elem \<Rightarrow> bool) \<Rightarrow> elem \<Rightarrow> rb_heap \<Rightarrow> fault + rb_heap" where
  "remove_if P e h = (if P e then bindE (RB_REMOVE e h) (\<lambda>(_, h). Inr h) else Inr h)"

section \<open>Both directions\<close>

lemma remove1_middle: "distinct (zs @ e # ys) \<Longrightarrow> remove1 e (zs @ e # ys) = zs @ ys"
  by (simp add: remove1_append)

locale tree_walk =
  fixes nxt :: "elem \<Rightarrow> rb_heap \<Rightarrow> fault + elem option" and order :: "elem tree \<Rightarrow> elem list"
  assumes nxt: "rb_search_tree key h t \<Longrightarrow> order t = xs @ e # ys \<Longrightarrow> nxt e h = Inr (first_of ys)"
    and order_set: "set (order t) = set_tree t"
    and order_distinct: "distinct (order t) \<longleftrightarrow> distinct (inorder t)"
    and order_remove: "distinct (inorder t) \<Longrightarrow> inorder t' = remove1 e (inorder t) \<Longrightarrow> order t' = remove1 e (order t)"
begin

lemma visit_filters:
  "rb_search_tree key h t \<Longrightarrow> order t = zs @ ys \<Longrightarrow>
   \<exists>h' t'. rb_visit_safe nxt (remove_if P) (first_of ys) h seen = Some (Inr (seen @ ys, h')) \<and>
     rb_search_tree key h' t' \<and> order t' = zs @ filter (\<lambda>e. \<not> P e) ys"
proof (induction ys arbitrary: h t zs seen)
  case Nil
  then show ?case by (auto simp: first_of_def rb_visit_safe.simps)
next
  case (Cons e ys)
  have next_e: "nxt e h = Inr (first_of ys)" by (rule nxt [OF Cons.prems])
  have visit: "rb_visit_safe nxt (remove_if P) (first_of (e # ys)) h seen =
      (case remove_if P e h of Inl err \<Rightarrow> Some (Inl err) | Inr h \<Rightarrow> rb_visit_safe nxt (remove_if P) (first_of ys) h (seen @ [e]))"
    by (subst rb_visit_safe.simps) (simp add: first_of_def [of "e # ys"] next_e)
  show ?case
  proof (cases "P e")
    case False
    then have "remove_if P e h = Inr h" by (simp add: remove_if_def)
    with Cons.IH [OF Cons.prems(1), of "zs @ [e]" "seen @ [e]"] Cons.prems(2) visit False show ?thesis by simp
  next
    case True
    have d: "distinct (inorder t)" using Cons.prems(1) by (auto simp: rb_search_tree_def intro: search_tree_distinct)
    have "e \<in> set (order t)" using Cons.prems(2) by simp
    then have e: "e \<in> set_tree t" by (simp add: order_set)
    obtain h1 t1 where h1: "RB_REMOVE e h = Inr (e, h1)" "rb_search_tree key h1 t1" "inorder t1 = remove1 e (inorder t)"
      using RB_REMOVE_ok [OF Cons.prems(1) e] by blast
    have "distinct (zs @ e # ys)" using d order_distinct [of t] Cons.prems(2) by simp
    then have "order t1 = zs @ ys" using order_remove [OF d h1(3)] by (simp add: Cons.prems(2) remove1_middle)
    moreover have "remove_if P e h = Inr h1" using h1(1) True by (simp add: remove_if_def)
    ultimately show ?thesis using Cons.IH [OF h1(2), of zs "seen @ [e]"] visit True by simp
  qed
qed

lemma loop_filters:
  assumes "rb_search_tree key h t" and "order t = zs @ ys"
  shows "\<exists>h' t'. safe_loop nxt (remove_if P) (first_of ys) h = Inr (ys, h') \<and>
    rb_search_tree key h' t' \<and> order t' = zs @ filter (\<lambda>e. \<not> P e) ys"
  using visit_filters [OF assms, of P "[]"] by (auto simp: safe_loop_def)

end

interpretation forward: tree_walk RB_NEXT inorder
proof
  fix key h t xs e ys
  assume t: "rb_search_tree key h t" and e: "inorder t = xs @ e # ys"
  have "tree_at (rbe_left h) (rbe_right h) (rbh_root h) t" "distinct (inorder t)" "parents_at (rbe_parent h) None t"
    using t by (auto simp: rb_search_tree_def rb_tree_def intro: search_tree_distinct)
  from rb_step_ok [OF this e] show "RB_NEXT e h = Inr (first_of ys)" by (simp add: RB_NEXT_def)
qed simp_all

interpretation backward: tree_walk RB_PREV "\<lambda>t. rev (inorder t)"
proof
  fix key h t xs e ys
  assume t: "rb_search_tree key h t" and e: "rev (inorder t) = xs @ e # ys"
  have m: "tree_at (rbe_right h) (rbe_left h) (rbh_root h) (mirror t)" "distinct (inorder (mirror t))" "parents_at (rbe_parent h) None (mirror t)"
    using t by (auto simp: rb_search_tree_def rb_tree_def inorder_mirror intro: search_tree_distinct tree_at_mirror parents_at_mirror)
  have "inorder (mirror t) = xs @ e # ys" using e by (simp add: inorder_mirror)
  from rb_step_ok [OF m this] show "RB_PREV e h = Inr (first_of ys)" by (simp add: RB_PREV_def)
next
  fix t t' :: "elem tree" and e
  assume "distinct (inorder t)" "inorder t' = remove1 e (inorder t)"
  then show "rev (inorder t') = remove1 e (rev (inorder t))"
    by (simp add: distinct_remove1_removeAll removeAll_filter_not_eq rev_filter)
qed simp_all

section \<open>Properties\<close>

lemma rb_first:
  assumes "rb_search_tree key h t"
  shows "RB_MINMAX RB_NEGINF h = Inr (first_of (inorder t))" and "RB_MINMAX RB_INF h = Inr (first_of (rev (inorder t)))"
proof -
  have lr: "tree_at (rbe_left h) (rbe_right h) (rbh_root h) t" using assms by (simp add: rb_search_tree_def rb_tree_def)
  show "RB_MINMAX RB_NEGINF h = Inr (first_of (inorder t))"
    using rb_minmax_ok [OF lr] by (cases "inorder t") (auto simp: RB_MINMAX_def RB_NEGINF_def first_of_def)
  show "RB_MINMAX RB_INF h = Inr (first_of (rev (inorder t)))"
    using rb_minmax_ok [OF lr, of RB_INF None]
    by (cases "inorder t" rule: rev_cases) (auto simp: RB_MINMAX_def RB_INF_def first_of_def)
qed

lemma rb_foreach_from_removes:
  assumes "rb_search_tree key h t" and "inorder t = xs @ e # ys"
  shows "\<exists>h' t'. RB_FOREACH_FROM (remove_if P) (Some e) h = Inr (e # ys, h') \<and>
      rb_search_tree key h' t' \<and> inorder t' = xs @ filter (\<lambda>e. \<not> P e) (e # ys)"
    and "\<exists>h' t'. RB_FOREACH_REVERSE_FROM (remove_if P) (Some e) h = Inr (e # rev xs, h') \<and>
      rb_search_tree key h' t' \<and> inorder t' = filter (\<lambda>e. \<not> P e) (xs @ [e]) @ ys"
proof -
  show "\<exists>h' t'. RB_FOREACH_FROM (remove_if P) (Some e) h = Inr (e # ys, h') \<and>
      rb_search_tree key h' t' \<and> inorder t' = xs @ filter (\<lambda>e. \<not> P e) (e # ys)"
    using forward.loop_filters [OF assms, of P] by (simp add: RB_FOREACH_FROM_def first_of_def)
  have "rev (inorder t) = rev ys @ (e # rev xs)" using assms(2) by simp
  from backward.loop_filters [OF assms(1) this, of P] obtain h' t'
    where t': "safe_loop RB_PREV (remove_if P) (Some e) h = Inr (e # rev xs, h')" "rb_search_tree key h' t'"
      "rev (inorder t') = rev ys @ filter (\<lambda>e. \<not> P e) (e # rev xs)"
    by (auto simp: first_of_def)
  have "inorder t' = rev (rev ys @ filter (\<lambda>e. \<not> P e) (e # rev xs))" using t'(3) by (metis rev_rev_ident)
  then have "inorder t' = filter (\<lambda>e. \<not> P e) (xs @ [e]) @ ys" by (simp add: rev_filter)
  with t' show "\<exists>h' t'. RB_FOREACH_REVERSE_FROM (remove_if P) (Some e) h = Inr (e # rev xs, h') \<and>
      rb_search_tree key h' t' \<and> inorder t' = filter (\<lambda>e. \<not> P e) (xs @ [e]) @ ys"
    by (auto simp: RB_FOREACH_REVERSE_FROM_def)
qed

text \<open>C39: the loops whose body may remove the current element. Whatever elements the body takes out with
  \<^verbatim>\<open>RB_REMOVE\<close>, \<^verbatim>\<open>RB_FOREACH_SAFE\<close> and its reverse end, visit every element of the tree
  once, in order and in the opposite order, and leave a red-black tree of the others.\<close>

theorem rb_foreach_safe_removes:
  assumes "rb_search_tree key h t"
  shows "(\<exists>h' t'. RB_FOREACH_SAFE (remove_if P) h = Inr (inorder t, h') \<and>
      rb_search_tree key h' t' \<and> inorder t' = filter (\<lambda>e. \<not> P e) (inorder t)) \<and>
    (\<exists>h' t'. RB_FOREACH_REVERSE_SAFE (remove_if P) h = Inr (rev (inorder t), h') \<and>
      rb_search_tree key h' t' \<and> inorder t' = filter (\<lambda>e. \<not> P e) (inorder t))"
proof
  show "\<exists>h' t'. RB_FOREACH_SAFE (remove_if P) h = Inr (inorder t, h') \<and>
      rb_search_tree key h' t' \<and> inorder t' = filter (\<lambda>e. \<not> P e) (inorder t)"
    using forward.loop_filters [OF assms, of "[]" "inorder t" P] by (simp add: RB_FOREACH_SAFE_def rb_first [OF assms])
  obtain h' t' where t': "safe_loop RB_PREV (remove_if P) (first_of (rev (inorder t))) h = Inr (rev (inorder t), h')"
      "rb_search_tree key h' t'" "rev (inorder t') = filter (\<lambda>e. \<not> P e) (rev (inorder t))"
    using backward.loop_filters [OF assms, of "[]" "rev (inorder t)" P] by auto
  have "inorder t' = rev (filter (\<lambda>e. \<not> P e) (rev (inorder t)))" using t'(3) by (metis rev_rev_ident)
  then have "inorder t' = filter (\<lambda>e. \<not> P e) (inorder t)" by (simp add: rev_filter)
  with t' show "\<exists>h' t'. RB_FOREACH_REVERSE_SAFE (remove_if P) h = Inr (rev (inorder t), h') \<and>
      rb_search_tree key h' t' \<and> inorder t' = filter (\<lambda>e. \<not> P e) (inorder t)"
    by (auto simp: RB_FOREACH_REVERSE_SAFE_def rb_first [OF assms])
qed

theorem rb_foreach_safe_removes_witness:
  "\<exists>h' t'. RB_FOREACH_SAFE (remove_if (\<lambda>e. e < 6)) sample_rb = Inr ([2, 4, 6], h') \<and>
    rb_search_tree int h' t' \<and> inorder t' = [6]"
  using conjunct1 [OF rb_foreach_safe_removes [OF sample_rb_search_tree, of "\<lambda>e. e < 6"]]
  by (simp add: sample_tree_def)

end
