(* ===== verification/Uv_Tree_Map.thy ===== *)
theory Uv_Tree_Map
  imports Uv_Splay_Tree Uv_Rb_Remove
begin

text \<open>
  What both kinds of trees of src/include/uv/tree.h promise to their users: a map from keys to
  elements. The locale \<open>keyed_tree\<close> states it for single operations and draws the conclusion for
  sequences of operations; it is interpreted for the red-black and for the splay trees.
\<close>

section \<open>The abstract map\<close>

datatype tree_op = Insert_op elem | Remove_op elem | Find_op elem

fun map_step :: "(elem \<Rightarrow> int) \<Rightarrow> tree_op \<Rightarrow> (int \<rightharpoonup> elem) \<Rightarrow> elem option \<times> (int \<rightharpoonup> elem)" where
  "map_step key (Insert_op e) M = (case M (key e) of Some x \<Rightarrow> (Some x, M) | None \<Rightarrow> (None, M(key e \<mapsto> e)))"
| "map_step key (Remove_op e) M = (Some e, M(key e := None))"
| "map_step key (Find_op e) M = (M (key e), M)"

text \<open>What a user may ask for: an element is not inserted while it is in the tree, and only an element of the tree is removed.\<close>

fun allowed :: "(elem \<Rightarrow> bool) \<Rightarrow> (elem \<Rightarrow> int) \<Rightarrow> tree_op \<Rightarrow> (int \<rightharpoonup> elem) \<Rightarrow> bool" where
  "allowed usable key (Insert_op e) M \<longleftrightarrow> usable e \<and> M (key e) \<noteq> Some e"
| "allowed usable key (Remove_op e) M \<longleftrightarrow> M (key e) = Some e"
| "allowed usable key (Find_op e) M \<longleftrightarrow> True"

fun map_run :: "(elem \<Rightarrow> int) \<Rightarrow> tree_op list \<Rightarrow> (int \<rightharpoonup> elem) \<Rightarrow> elem option list \<times> (int \<rightharpoonup> elem)" where
  "map_run key [] M = ([], M)"
| "map_run key (op # ops) M = (let (x, M) = map_step key op M; (xs, M) = map_run key ops M in (x # xs, M))"

fun all_allowed :: "(elem \<Rightarrow> bool) \<Rightarrow> (elem \<Rightarrow> int) \<Rightarrow> tree_op list \<Rightarrow> (int \<rightharpoonup> elem) \<Rightarrow> bool" where
  "all_allowed usable key [] M \<longleftrightarrow> True"
| "all_allowed usable key (op # ops) M \<longleftrightarrow> allowed usable key op M \<and> all_allowed usable key ops (snd (map_step key op M))"

fun tree_run :: "(tree_op \<Rightarrow> 'h \<Rightarrow> fault + (elem option \<times> 'h)) \<Rightarrow> tree_op list \<Rightarrow> 'h \<Rightarrow> fault + (elem option list \<times> 'h)" where
  "tree_run step [] h = Inr ([], h)"
| "tree_run step (op # ops) h =
     bindE (step op h) (\<lambda>(x, h). bindE (tree_run step ops h) (\<lambda>(xs, h). Inr (x # xs, h)))"

text \<open>The elements of a map in the order of their keys.\<close>

definition in_order :: "(elem \<Rightarrow> int) \<Rightarrow> (int \<rightharpoonup> elem) \<Rightarrow> elem list \<Rightarrow> bool" where
  "in_order key M es \<longleftrightarrow> sorted_wrt (\<lambda>a b. key a < key b) es \<and> set es = ran M"

locale keyed_tree =
  fixes cmp :: "elem \<Rightarrow> elem \<Rightarrow> int" and key :: "elem \<Rightarrow> int" and usable :: "elem \<Rightarrow> bool"
    and step :: "tree_op \<Rightarrow> 'h \<Rightarrow> fault + (elem option \<times> 'h)"
    and foreach :: "'h \<Rightarrow> fault + (elem list \<times> 'h)"
    and holds :: "'h \<Rightarrow> (int \<rightharpoonup> elem) \<Rightarrow> bool"
  assumes step: "orders cmp key \<Longrightarrow> holds h M \<Longrightarrow> allowed usable key op M \<Longrightarrow>
      \<exists>h'. step op h = Inr (fst (map_step key op M), h') \<and> holds h' (snd (map_step key op M))"
    and foreach: "orders cmp key \<Longrightarrow> holds h M \<Longrightarrow> \<exists>es h'. foreach h = Inr (es, h') \<and> in_order key M es \<and> holds h' M"
begin

lemma run:
  "orders cmp key \<Longrightarrow> holds h M \<Longrightarrow> all_allowed usable key ops M \<Longrightarrow>
   \<exists>h'. tree_run step ops h = Inr (fst (map_run key ops M), h') \<and> holds h' (snd (map_run key ops M))"
proof (induction ops arbitrary: h M)
  case (Cons op ops)
  then obtain h1 where h1: "step op h = Inr (fst (map_step key op M), h1)" "holds h1 (snd (map_step key op M))"
    using step [of h M op] by auto
  from Cons.IH [OF Cons.prems(1) h1(2)] Cons.prems(3) h1(1) show ?case
    by (auto simp: split_beta)
qed simp

lemma run_foreach:
  assumes "orders cmp key" and "holds h M" and "all_allowed usable key ops M"
  shows "\<exists>h' es h''. tree_run step ops h = Inr (fst (map_run key ops M), h') \<and> foreach h' = Inr (es, h'') \<and>
    in_order key (snd (map_run key ops M)) es"
  using run [OF assms] foreach [OF assms(1)] by metis

end

section \<open>The map a search tree stands for\<close>

definition tree_map :: "(elem \<Rightarrow> int) \<Rightarrow> elem tree \<Rightarrow> int \<rightharpoonup> elem" where
  "tree_map key t = map_of (map (\<lambda>x. (key x, x)) (inorder t))"

lemma search_tree_inj: "search_tree key t \<Longrightarrow> inj_on key (set_tree t)"
  by (auto simp: inj_on_def intro: search_tree_unique)

lemma tree_map_Some:
  assumes "search_tree key t"
  shows "tree_map key t k = Some x \<longleftrightarrow> x \<in> set_tree t \<and> key x = k"
proof -
  have "distinct (map fst (map (\<lambda>x. (key x, x)) (inorder t)))"
    using search_tree_inj [OF assms] search_tree_distinct [OF assms] by (simp add: distinct_map comp_def)
  from map_of_eq_Some_iff [OF this] show ?thesis by (auto simp: tree_map_def)
qed

lemma tree_map_None: "tree_map key t k = None \<longleftrightarrow> k \<notin> key ` set_tree t"
  by (simp add: tree_map_def map_of_eq_None_iff image_image)

lemma tree_map_eqI:
  assumes "search_tree key t" and "\<And>k x. M k = Some x \<longleftrightarrow> x \<in> set_tree t \<and> key x = k"
  shows "tree_map key t = M"
proof
  fix k
  show "tree_map key t k = M k" using tree_map_Some [OF assms(1), of k] assms(2) [of k]
    by (metis not_None_eq)
qed

lemma tree_map_insert:
  assumes "search_tree key t" and "search_tree key t'" and "set_tree t' = insert e (set_tree t)" and "key e \<notin> key ` set_tree t"
  shows "tree_map key t' = (tree_map key t)(key e \<mapsto> e)"
  using assms by (intro tree_map_eqI) (auto simp: tree_map_Some image_iff)

lemma tree_map_remove:
  assumes "search_tree key t" and "search_tree key t'" and "set_tree t' = set_tree t - {x}" and "x \<in> set_tree t"
  shows "tree_map key t' = (tree_map key t)(key x := None)"
  using assms search_tree_inj [OF assms(1)] by (intro tree_map_eqI) (auto simp: tree_map_Some inj_on_def)

lemma tree_map_order:
  assumes "search_tree key t"
  shows "in_order key (tree_map key t) (inorder t)"
  using assms by (auto simp: in_order_def search_tree_def ran_def tree_map_Some)

lemma tree_map_same: "inorder t' = inorder t \<Longrightarrow> tree_map key t' = tree_map key t"
  by (simp add: tree_map_def)

section \<open>Red-black trees\<close>

fun rb_op :: "(elem \<Rightarrow> elem \<Rightarrow> int) \<Rightarrow> tree_op \<Rightarrow> rb_heap \<Rightarrow> fault + (elem option \<times> rb_heap)" where
  "rb_op cmp (Insert_op e) h = RB_INSERT cmp e h"
| "rb_op cmp (Remove_op e) h = bindE (RB_REMOVE e h) (\<lambda>(e, h). Inr (Some e, h))"
| "rb_op cmp (Find_op e) h = bindE (RB_FIND cmp e h) (\<lambda>res. Inr (res, h))"

definition rb_holds :: "(elem \<Rightarrow> int) \<Rightarrow> rb_heap \<Rightarrow> (int \<rightharpoonup> elem) \<Rightarrow> bool" where
  "rb_holds key h M \<longleftrightarrow> (\<exists>t. rb_search_tree key h t \<and> M = tree_map key t)"

lemma rb_holds_empty: "rb_holds key (RB_INIT h) Map.empty"
  unfolding rb_holds_def
  by (rule exI [of _ Leaf]) (simp add: rb_search_tree_def rb_tree_def RB_INIT_def red_black_def tree_map_def)

lemma rb_find_map:
  assumes "orders cmp key" and "rb_search_tree key h t"
  shows "RB_FIND cmp e h = Inr (tree_map key t (key e))"
proof -
  have t: "tree_at (rbe_left h) (rbe_right h) (rbh_root h) t" "search_tree key t"
    using assms(2) by (simp_all add: rb_search_tree_def rb_tree_def)
  from rb_find_ok [OF assms(1) t, of e] obtain res where "rb_find cmp h (rbh_root h) e = Some (Inr res)"
    "case res of Some x \<Rightarrow> x \<in> set_tree t \<and> key x = key e | None \<Rightarrow> key e \<notin> key ` set_tree t" by blast
  then show ?thesis
    by (cases res) (auto simp: RB_FIND_def tree_map_Some [OF t(2), of "key e", symmetric] simp flip: tree_map_None)
qed

lemma rb_op_ok:
  assumes ord: "orders cmp key" and h: "rb_holds key h M" and ok: "allowed (\<lambda>_. True) key op M"
  shows "\<exists>h'. rb_op cmp op h = Inr (fst (map_step key op M), h') \<and> rb_holds key h' (snd (map_step key op M))"
proof -
  obtain t where t: "rb_search_tree key h t" "M = tree_map key t" using h by (auto simp: rb_holds_def)
  then have s: "search_tree key t" by (simp add: rb_search_tree_def)
  show ?thesis
  proof (cases op)
    case (Insert_op e)
    show ?thesis
    proof (cases "M (key e)")
      case None
      then have new: "key e \<notin> key ` set_tree t" by (simp add: t(2) tree_map_None)
      with RB_INSERT_ok [OF ord t(1), of e] obtain h' t' where "RB_INSERT cmp e h = Inr (None, h')"
        "rb_search_tree key h' t'" "set_tree t' = insert e (set_tree t)" by auto
      moreover from this have "tree_map key t' = M(key e \<mapsto> e)"
        unfolding t(2) by (intro tree_map_insert [OF s _ _ new]) (simp_all add: rb_search_tree_def)
      ultimately show ?thesis using None by (auto simp: Insert_op rb_holds_def)
    next
      case (Some y)
      then have "y \<in> set_tree t" "key y = key e" using tree_map_Some [OF s] by (simp_all add: t(2))
      with RB_INSERT_ok [OF ord t(1), of e] obtain x where x: "x \<in> set_tree t" "key x = key e" "RB_INSERT cmp e h = Inr (Some x, h)"
        by (auto simp: image_iff split: if_splits)
      then have "M (key e) = Some x" using tree_map_Some [OF s] by (simp add: t(2))
      with x h show ?thesis by (auto simp: Insert_op)
    qed
  next
    case (Remove_op e)
    then have e: "e \<in> set_tree t" using ok tree_map_Some [OF s] by (simp add: t(2))
    from RB_REMOVE_ok [OF t(1) e] obtain h' t' where r: "RB_REMOVE e h = Inr (e, h')" "rb_search_tree key h' t'"
      "inorder t' = remove1 e (inorder t)" by blast
    have "set_tree t' = set_tree t - {e}"
      using set_remove1_eq [OF search_tree_distinct [OF s], of e] by (simp add: r(3) flip: set_inorder)
    then have "tree_map key t' = M(key e := None)"
      unfolding t(2) using r(2) by (intro tree_map_remove [OF s _ _ e]) (simp_all add: rb_search_tree_def)
    with r show ?thesis by (auto simp: Remove_op rb_holds_def)
  next
    case (Find_op e)
    then show ?thesis using rb_find_map [OF ord t(1), of e] h t(2) by auto
  qed
qed

definition rb_elements :: "rb_heap \<Rightarrow> fault + (elem list \<times> rb_heap)" where
  "rb_elements h = bindE (RB_FOREACH h) (\<lambda>es. Inr (es, h))"

lemma rb_elements_ok:
  assumes "rb_holds key h M"
  shows "\<exists>es h'. rb_elements h = Inr (es, h') \<and> in_order key M es \<and> rb_holds key h' M"
proof -
  obtain t where t: "rb_search_tree key h t" "M = tree_map key t" using assms by (auto simp: rb_holds_def)
  then have "RB_FOREACH h = Inr (inorder t)"
    by (intro RB_FOREACH_ok(1)) (auto simp: rb_search_tree_def search_tree_distinct)
  with t assms show ?thesis by (auto simp: rb_elements_def tree_map_order rb_search_tree_def)
qed

section \<open>Splay trees\<close>

fun splay_op :: "(elem \<Rightarrow> elem \<Rightarrow> int) \<Rightarrow> elem \<Rightarrow> tree_op \<Rightarrow> splay_heap \<Rightarrow> fault + (elem option \<times> splay_heap)" where
  "splay_op cmp node (Insert_op e) h = SPLAY_INSERT cmp node e h"
| "splay_op cmp node (Remove_op e) h = SPLAY_REMOVE cmp node e h"
| "splay_op cmp node (Find_op e) h = SPLAY_FIND cmp node e h"

definition splay_holds :: "(elem \<Rightarrow> int) \<Rightarrow> elem \<Rightarrow> splay_heap \<Rightarrow> (int \<rightharpoonup> elem) \<Rightarrow> bool" where
  "splay_holds key node h M \<longleftrightarrow> (\<exists>t. holds_tree key node h t \<and> M = tree_map key t)"

lemma splay_holds_empty: "splay_holds key node (SPLAY_INIT h) Map.empty"
  unfolding splay_holds_def
  by (rule exI [of _ Leaf]) (simp add: holds_tree_def splay_tree_def SPLAY_INIT_def tree_map_def)

lemma splay_holds_same: "holds_tree key node h' t' \<Longrightarrow> inorder t' = inorder t \<Longrightarrow> splay_holds key node h' (tree_map key t)"
  unfolding splay_holds_def by (metis tree_map_same)

lemma splay_op_ok:
  assumes ord: "orders cmp key" and h: "splay_holds key node h M" and ok: "allowed (\<lambda>e. e \<noteq> node) key op M"
  shows "\<exists>h'. splay_op cmp node op h = Inr (fst (map_step key op M), h') \<and> splay_holds key node h' (snd (map_step key op M))"
proof -
  obtain t where t: "holds_tree key node h t" "M = tree_map key t" using h by (auto simp: splay_holds_def)
  then have s: "search_tree key t" by (simp add: holds_tree_def)
  note M = tree_map_Some [OF s] tree_map_None [of key t]
  show ?thesis
  proof (cases op)
    case (Insert_op e)
    with ok have e: "e \<noteq> node" "e \<notin> set_tree t" using M by (auto simp: t(2))
    from SPLAY_INSERT_ok [OF ord t(1) e(2,1)] obtain res h' t' where r: "SPLAY_INSERT cmp node e h = Inr (res, h')"
      "holds_tree key node h' t'" "case res of Some x \<Rightarrow> x \<in> set_tree t \<and> key x = key e \<and> inorder t' = inorder t
        | None \<Rightarrow> (key e \<notin> key ` set_tree t) \<and> set_tree t' = insert e (set_tree t)" by blast
    show ?thesis
    proof (cases res)
      case None
      with r have new: "key e \<notin> key ` set_tree t" "set_tree t' = insert e (set_tree t)" by simp_all
      then have "tree_map key t' = M(key e \<mapsto> e)"
        unfolding t(2) using r(2) by (intro tree_map_insert [OF s]) (simp_all add: holds_tree_def)
      moreover have "M (key e) = None" using new(1) M by (simp add: t(2))
      ultimately show ?thesis using r None by (auto simp: Insert_op splay_holds_def)
    next
      case (Some x)
      with r have x: "M (key e) = Some x" "inorder t' = inorder t" using M by (simp_all add: t(2))
      have "splay_holds key node h' M" unfolding t(2) by (rule splay_holds_same [OF r(2) x(2)])
      with r(1) Some x(1) show ?thesis by (auto simp: Insert_op)
    qed
  next
    case (Remove_op e)
    then have e: "e \<in> set_tree t" using ok M by (simp add: t(2))
    from SPLAY_REMOVE_ok [OF ord t(1), of e] obtain res h' t' where r: "SPLAY_REMOVE cmp node e h = Inr (res, h')"
      "holds_tree key node h' t'" "case res of None \<Rightarrow> (key e \<notin> key ` set_tree t) \<and> inorder t' = inorder t
        | Some y \<Rightarrow> y = e \<and> (\<exists>x \<in> set_tree t. key x = key e \<and> set_tree t' = set_tree t - {x})" by blast
    with e obtain x where x: "res = Some e" "x \<in> set_tree t" "key x = key e" "set_tree t' = set_tree t - {x}"
      by (cases res) auto
    then have "x = e" using e search_tree_unique [OF s] by blast
    then have "tree_map key t' = M(key e := None)"
      unfolding t(2) using r(2) x by (intro tree_map_remove [OF s]) (simp_all add: holds_tree_def)
    with r(1,2) x(1) show ?thesis by (auto simp: Remove_op splay_holds_def)
  next
    case (Find_op e)
    from SPLAY_FIND_ok [OF ord t(1), of e] obtain res h' t' where r: "SPLAY_FIND cmp node e h = Inr (res, h')"
      "holds_tree key node h' t'" "inorder t' = inorder t"
      "case res of Some x \<Rightarrow> x \<in> set_tree t \<and> key x = key e | None \<Rightarrow> key e \<notin> key ` set_tree t" by blast
    then have "M (key e) = res" unfolding t(2) by (cases res) (simp_all add: M)
    moreover have "splay_holds key node h' M" unfolding t(2) by (rule splay_holds_same [OF r(2,3)])
    ultimately show ?thesis using r(1) by (auto simp: Find_op)
  qed
qed

lemma splay_elements_ok:
  assumes ord: "orders cmp key" and "splay_holds key node h M"
  shows "\<exists>es h'. SPLAY_FOREACH cmp node h = Inr (es, h') \<and> in_order key M es \<and> splay_holds key node h' M"
proof -
  obtain t where t: "holds_tree key node h t" "M = tree_map key t" using assms by (auto simp: splay_holds_def)
  then have "in_order key M (inorder t)" by (simp add: tree_map_order holds_tree_def)
  with SPLAY_FOREACH_ok [OF ord t(1)] t(2) show ?thesis by (metis splay_holds_same)
qed

section \<open>The interface holds for both\<close>

interpretation rb_map: keyed_tree cmp key "\<lambda>_. True" "rb_op cmp" rb_elements "rb_holds key" for cmp key
  by unfold_locales (simp_all add: rb_op_ok rb_elements_ok)

interpretation splay_map: keyed_tree cmp key "\<lambda>e. e \<noteq> node" "splay_op cmp node" "SPLAY_FOREACH cmp node" "splay_holds key node"
  for cmp key node
  by unfold_locales (simp_all add: splay_op_ok splay_elements_ok)

section \<open>Properties\<close>

text \<open>C34: red-black trees are maps. From an initialised head, every sequence of insertions of elements
  that are not in the tree, removals of elements that are, and searches runs to its end without
  a fault, answers every operation as a map from keys to elements would, and leaves a tree that
  \<^verbatim>\<open>RB_FOREACH\<close> goes through in the order of the keys.\<close>

theorem rb_refines_map:
  assumes "orders cmp key" and "all_allowed (\<lambda>_. True) key ops Map.empty"
  shows "\<exists>h' es. tree_run (rb_op cmp) ops (RB_INIT h) = Inr (fst (map_run key ops Map.empty), h') \<and>
    RB_FOREACH h' = Inr es \<and> in_order key (snd (map_run key ops Map.empty)) es"
  using rb_map.run_foreach [OF assms(1) rb_holds_empty assms(2), of h]
  by (auto simp: rb_elements_def bindE_eq_Inr_iff)

definition sample_ops :: "tree_op list" where
  "sample_ops = [Insert_op 5, Insert_op 3, Insert_op 8, Insert_op 1, Remove_op 5, Find_op 5, Find_op 8, Insert_op 5]"

lemma sample_ops_allowed: "all_allowed (\<lambda>e. e \<noteq> 0) int sample_ops Map.empty" "all_allowed (\<lambda>_. True) int sample_ops Map.empty"
  by (simp_all add: sample_ops_def)

theorem rb_refines_map_witness:
  "\<exists>h' es. tree_run (rb_op sample_cmp) sample_ops (RB_INIT sample_rb) = Inr (fst (map_run int sample_ops Map.empty), h') \<and>
    RB_FOREACH h' = Inr es \<and> in_order int (snd (map_run int sample_ops Map.empty)) es"
  by (rule rb_refines_map [OF sample_rb_facts(1) sample_ops_allowed(2)])

text \<open>C38: splay trees are maps, in the same sense, when no element used has the address of the local
  \<^verbatim>\<open>__node\<close> of the operations.\<close>

theorem splay_refines_map:
  assumes "orders cmp key" and "all_allowed (\<lambda>e. e \<noteq> node) key ops Map.empty"
  shows "\<exists>h' es h''. tree_run (splay_op cmp node) ops (SPLAY_INIT h) = Inr (fst (map_run key ops Map.empty), h') \<and>
    SPLAY_FOREACH cmp node h' = Inr (es, h'') \<and> in_order key (snd (map_run key ops Map.empty)) es"
  by (rule splay_map.run_foreach [OF assms(1) splay_holds_empty assms(2)])

theorem splay_refines_map_witness:
  "\<exists>h' es h''. tree_run (splay_op sample_cmp 0) sample_ops (SPLAY_INIT sample_splay) =
      Inr (fst (map_run int sample_ops Map.empty), h') \<and>
    SPLAY_FOREACH sample_cmp 0 h' = Inr (es, h'') \<and> in_order int (snd (map_run int sample_ops Map.empty)) es"
  by (rule splay_refines_map [OF sample_splay_facts(1) sample_ops_allowed(1)])

section \<open>The depth of a red-black tree\<close>

lemma colored_size: "colored c t n \<Longrightarrow> 2 ^ n \<le> size t + 1"
proof (induction t arbitrary: n)
  case (Node l a r)
  show ?case
  proof (cases "c a = RB_RED")
    case True
    with Node.prems have "colored c l n" by simp
    from Node.IH(1) [OF this] show ?thesis by simp
  next
    case False
    with Node.prems have "0 < n" "colored c l (n - 1)" "colored c r (n - 1)" by simp_all
    then show ?thesis using Node.IH(1) [of "n - 1"] Node.IH(2) [of "n - 1"] by (cases n) simp_all
  qed
qed simp

lemma colored_height: "colored c t n \<Longrightarrow> height t \<le> 2 * n + (if black_root c t then 0 else 1)"
proof (induction t arbitrary: n)
  case (Node l a r)
  show ?case
  proof (cases "c a = RB_RED")
    case True
    with Node.prems have "black_root c l" "black_root c r" "colored c l n" "colored c r n" by simp_all
    then show ?thesis using Node.IH(1) [of n] Node.IH(2) [of n] True by simp
  next
    case False
    with Node.prems have n: "0 < n" "colored c l (n - 1)" "colored c r (n - 1)" "c a = RB_BLACK" by simp_all
    have "height l \<le> 2 * (n - 1) + 1" "height r \<le> 2 * (n - 1) + 1"
      using Node.IH(1) [OF n(2)] Node.IH(2) [OF n(3)] by (auto split: if_splits)
    then show ?thesis using n(1,4) by simp
  qed
qed simp

lemma red_black_height:
  assumes "red_black c t"
  shows "2 ^ height t \<le> (size t + 1) ^ 2"
proof -
  obtain n where n: "colored c t n" "black_root c t" using assms by (auto simp: red_black_def)
  have "height t \<le> 2 * n" using colored_height [OF n(1)] n(2) by simp
  then have "(2 :: nat) ^ height t \<le> 2 ^ (2 * n)" by (simp only: power_increasing_iff)
  also have "\<dots> = (2 ^ n) ^ 2" by (simp add: power_mult mult.commute)
  also have "\<dots> \<le> (size t + 1) ^ 2" by (rule power_mono [OF colored_size [OF n(1)]]) simp
  finally show ?thesis .
qed

lemma tree_map_card:
  assumes "search_tree key t"
  shows "card (dom (tree_map key t)) = size t"
proof -
  have "dom (tree_map key t) = key ` set_tree t" using tree_map_None [of key t] by (auto simp: dom_def)
  moreover have "card (key ` set_tree t) = card (set_tree t)" by (rule card_image [OF search_tree_inj [OF assms]])
  moreover have "card (set_tree t) = size t"
    using distinct_card [OF search_tree_distinct [OF assms]] by simp
  ultimately show ?thesis by simp
qed

text \<open>C35: red-black trees stay shallow. After any sequence of operations as in \<open>rb_refines_map\<close> the links on the heap
  form a tree whose height is at most twice the binary logarithm of the number of elements plus one,
  so that \<^verbatim>\<open>RB_FIND\<close>, \<^verbatim>\<open>RB_INSERT\<close> and \<^verbatim>\<open>RB_REMOVE\<close> go down no further than that.\<close>

theorem rb_depth_logarithmic:
  assumes "orders cmp key" and "all_allowed (\<lambda>_. True) key ops Map.empty"
  shows "\<exists>h' t. tree_run (rb_op cmp) ops (RB_INIT h) = Inr (fst (map_run key ops Map.empty), h') \<and>
    rb_tree h' t \<and> size t = card (dom (snd (map_run key ops Map.empty))) \<and> 2 ^ height t \<le> (size t + 1) ^ 2"
proof -
  obtain h' where h': "tree_run (rb_op cmp) ops (RB_INIT h) = Inr (fst (map_run key ops Map.empty), h')"
    "rb_holds key h' (snd (map_run key ops Map.empty))"
    using rb_map.run [OF assms(1) rb_holds_empty assms(2), of h] by blast
  then obtain t where t: "rb_search_tree key h' t" "snd (map_run key ops Map.empty) = tree_map key t"
    unfolding rb_holds_def by blast
  then have "rb_tree h' t" "search_tree key t" "red_black (rbe_color h') t" by (simp_all add: rb_search_tree_def)
  with h'(1) t(2) tree_map_card red_black_height show ?thesis by (intro exI [of _ h'] exI [of _ t]) simp
qed

theorem rb_depth_logarithmic_witness:
  "\<exists>h' t. tree_run (rb_op sample_cmp) sample_ops (RB_INIT sample_rb) = Inr (fst (map_run int sample_ops Map.empty), h') \<and>
    rb_tree h' t \<and> size t = card (dom (snd (map_run int sample_ops Map.empty))) \<and> 2 ^ height t \<le> (size t + 1) ^ 2"
  by (rule rb_depth_logarithmic [OF sample_rb_facts(1) sample_ops_allowed(2)])

end
